(* ===== verification/Prelude.thy ===== *)
theory Prelude
  imports Main "HOL-Library.Word"
begin

text \<open>
  Vocabulary shared by every component: Go's error values and \<open>errors.Is\<close>, gRPC status codes,
  fixed-width conversions, the outcome of a round trip to a remote service, the effects (metrics
  and log lines) a handler emits, and the lemma collections the component theories fill.
\<close>

section \<open>Lemma collections\<close>

named_theorems op_defs \<open>definitions of the operations of the components, for unfolding\<close>
named_theorems inv_intros \<open>preservation of a component's invariant by its operations\<close>

section \<open>Fixed-width integers\<close>

text \<open>Go's \<open>int\<close> is 64 bits wide; \<open>int32(x)\<close> keeps the low 32 bits as two's complement.\<close>

definition to_int32 :: "int \<Rightarrow> int" where
  "to_int32 n = signed_take_bit 31 n"

definition to_int64 :: "int \<Rightarrow> int" where
  "to_int64 n = signed_take_bit 63 n"

definition in_int32 :: "int \<Rightarrow> bool" where
  "in_int32 n \<longleftrightarrow> - (2 ^ 31) \<le> n \<and> n < 2 ^ 31"

definition in_int64 :: "int \<Rightarrow> bool" where
  "in_int64 n \<longleftrightarrow> - (2 ^ 63) \<le> n \<and> n < 2 ^ 63"

lemma to_int32_id [simp]: "in_int32 n \<Longrightarrow> to_int32 n = n"
  by (simp add: to_int32_def in_int32_def signed_take_bit_int_eq_self)

lemma to_int64_id [simp]: "in_int64 n \<Longrightarrow> to_int64 n = n"
  by (simp add: to_int64_def in_int64_def signed_take_bit_int_eq_self)

lemma in_int32_to_int32 [simp]: "in_int32 (to_int32 n)"
  using signed_take_bit_int_greater_eq_minus_exp [of 31 n] signed_take_bit_int_less_exp [of 31 n]
  by (simp add: to_int32_def in_int32_def)

lemma to_int32_mod: "to_int32 n = (n + 2 ^ 31) mod 2 ^ 32 - 2 ^ 31"
  by (simp add: to_int32_def signed_take_bit_eq_take_bit_shift take_bit_eq_mod)

lemma to_int64_mod: "to_int64 n = (n + 2 ^ 63) mod 2 ^ 64 - 2 ^ 63"
  by (simp add: to_int64_def signed_take_bit_eq_take_bit_shift take_bit_eq_mod)

lemma to_int64_add: "to_int64 (to_int64 a + b) = to_int64 (a + b)"
  by (simp add: to_int64_mod mod_simps algebra_simps)

lemma in_int32_64: "in_int32 n \<Longrightarrow> in_int64 n"
  by (simp add: in_int32_def in_int64_def)

section \<open>gRPC status codes\<close>

datatype code =
    OK | Canceled | Unknown | InvalidArgument | DeadlineExceeded | NotFound | AlreadyExists
  | PermissionDenied | ResourceExhausted | FailedPrecondition | Aborted | OutOfRange
  | Unimplemented | Internal | Unavailable | DataLoss | Unauthenticated

text \<open>The documented names of \<open>codes.Code.String\<close>, used as metric labels.\<close>

fun code_String :: "code \<Rightarrow> string" where
  "code_String OK = ''OK''"
| "code_String Canceled = ''Canceled''"
| "code_String Unknown = ''Unknown''"
| "code_String InvalidArgument = ''InvalidArgument''"
| "code_String DeadlineExceeded = ''DeadlineExceeded''"
| "code_String NotFound = ''NotFound''"
| "code_String AlreadyExists = ''AlreadyExists''"
| "code_String PermissionDenied = ''PermissionDenied''"
| "code_String ResourceExhausted = ''ResourceExhausted''"
| "code_String FailedPrecondition = ''FailedPrecondition''"
| "code_String Aborted = ''Aborted''"
| "code_String OutOfRange = ''OutOfRange''"
| "code_String Unimplemented = ''Unimplemented''"
| "code_String Internal = ''Internal''"
| "code_String Unavailable = ''Unavailable''"
| "code_String DataLoss = ''DataLoss''"
| "code_String Unauthenticated = ''Unauthenticated''"

section \<open>Errors\<close>

text \<open>
  The sentinel errors of the packages (\<open>errors.New\<close> at package level), the errors of the drivers,
  and \<open>fmt.Errorf\<close> with the \<open>%w\<close> verb, which wraps.
\<close>

datatype go_error =
    Inventory_ErrNotFound
  | Inventory_ErrInsufficientStock
  | Client_ErrNotFound
  | Client_ErrInsufficientStock
  | Order_ErrNotFound
  | Pgx_ErrNoRows
  | Redis_Nil
  | Driver_Error string
  | Json_Error string
  | Status_Error code string
  | Context_Canceled
  | Context_DeadlineExceeded
  | Wrapped string go_error

text \<open>The \<open>Error()\<close> text, which the log lines carry.\<close>

fun err_text :: "go_error \<Rightarrow> string" where
  "err_text Inventory_ErrNotFound = ''item not found''"
| "err_text Inventory_ErrInsufficientStock = ''insufficient stock''"
| "err_text Client_ErrNotFound = ''item not found''"
| "err_text Client_ErrInsufficientStock = ''insufficient stock''"
| "err_text Order_ErrNotFound = ''order not found''"
| "err_text Pgx_ErrNoRows = ''no rows in result set''"
| "err_text Redis_Nil = ''redis: nil''"
| "err_text (Driver_Error m) = m"
| "err_text (Json_Error m) = m"
| "err_text (Status_Error c m) = ''rpc error: code = '' @ code_String c @ '' desc = '' @ m"
| "err_text Context_Canceled = ''context canceled''"
| "err_text Context_DeadlineExceeded = ''context deadline exceeded''"
| "err_text (Wrapped m e) = m @ '': '' @ err_text e"

text \<open>\<open>errors.Is\<close> walks the chain of wrapped errors.\<close>

fun errors_Is :: "go_error \<Rightarrow> go_error \<Rightarrow> bool" where
  "errors_Is (Wrapped m e) t = (Wrapped m e = t \<or> errors_Is e t)"
| "errors_Is e t = (e = t)"

text \<open>\<open>status.Code\<close>: the code of a status error or of one that an error wraps, else \<open>Unknown\<close>.\<close>

fun status_Code_err :: "go_error \<Rightarrow> code" where
  "status_Code_err (Status_Error c m) = c"
| "status_Code_err (Wrapped m e) = status_Code_err e"
| "status_Code_err _ = Unknown"

definition status_Code :: "go_error option \<Rightarrow> code" where
  "status_Code e = (case e of None \<Rightarrow> OK | Some x \<Rightarrow> status_Code_err x)"

lemma status_Code_simps [simp]: "status_Code None = OK" "status_Code (Some e) = status_Code_err e"
  by (simp_all add: status_Code_def)

lemma errors_Is_refl [simp]: "errors_Is e e"
  by (cases e) auto

section \<open>Round trips to a remote service\<close>

text \<open>
  A call that leaves the process works, fails before it takes effect, or takes effect and then
  fails (the reply is lost). The environment's choices for the calls to come are a script in the
  service's state; every theorem is about all scripts. An exhausted script means no more failures.
\<close>

datatype io = Works | Fails_before | Fails_after

fun next_io :: "io list \<Rightarrow> io \<times> io list" where
  "next_io [] = (Works, [])"
| "next_io (x # xs) = (x, xs)"

section \<open>Effects of a handler\<close>

text \<open>Calls into the Prometheus client and the structured logger, in program order.\<close>

datatype effect =
    Counter_Inc string "string list"
  | Counter_Add string "string list" int
  | Observe string "string list"
  | Span_Event string int
  | Log_Info string "(string \<times> string) list"
  | Log_Warn string "(string \<times> string) list"
  | Log_Error string "(string \<times> string) list"

section \<open>Generic lemmas\<close>

lemma sum_list_filter_le_nonneg:
  "(\<And>x. x \<in> set xs \<Longrightarrow> 0 \<le> f x) \<Longrightarrow> sum_list (map f (filter P xs)) \<le> (sum_list (map f xs) :: int)"
proof (induction xs)
  case (Cons a xs)
  then have "sum_list (map f (filter P xs)) \<le> sum_list (map f xs)" and "0 \<le> f a" by auto
  then show ?case by auto
qed simp

lemma sum_list_nonneg_int: "(\<And>x. x \<in> set xs \<Longrightarrow> 0 \<le> f x) \<Longrightarrow> 0 \<le> (sum_list (map f xs) :: int)"
  by (induction xs) auto

lemma sum_list_update_int:
  "i < length xs \<Longrightarrow> sum_list (map f (xs[i := y])) = sum_list (map f xs) - f (xs ! i) + (f y :: int)"
  by (induction xs arbitrary: i) (auto split: nat.split)

lemma map_upd_same_dom: "m k = Some v \<Longrightarrow> dom (m(k \<mapsto> w)) = dom m"
  by auto

end
