(* ===== verification/Postgres.thy ===== *)
theory Postgres
  imports Prelude
begin

text \<open>
  What the two stores use of their database driver: a statement runs on the tables when the round
  trip works, is lost before it runs, or runs and the reply is lost; a transaction runs its
  statements on a working copy which the commit installs. What the statements do is translated from
  the SQL text in the stores; the column types and checks come from the schema files.
\<close>

record 't pg =
  tables :: 't
  script :: "io list"

abbreviation connection_lost :: go_error where
  "connection_lost \<equiv> Driver_Error ''connection lost''"

section \<open>Statements outside a transaction\<close>

definition pg_query :: "('t \<Rightarrow> (go_error + 'a) \<times> 't) \<Rightarrow> 't pg \<Rightarrow> (go_error + 'a) \<times> 't pg" where
  "pg_query stmt db =
     (let (o1, rest) = next_io (script db); (r, t) = stmt (tables db) in
      case o1 of
        Works \<Rightarrow> (r, \<lparr>tables = t, script = rest\<rparr>)
      | Fails_before \<Rightarrow> (Inl connection_lost, \<lparr>tables = tables db, script = rest\<rparr>)
      | Fails_after \<Rightarrow> (Inl connection_lost, \<lparr>tables = t, script = rest\<rparr>))"

lemma pg_query_Inr:
  "pg_query stmt db = (Inr a, db') \<Longrightarrow> stmt (tables db) = (Inr a, tables db')"
  by (auto simp: pg_query_def Let_def split: prod.splits io.splits)

lemma pg_query_Inl:
  "pg_query stmt db = (Inl e, db') \<Longrightarrow>
     stmt (tables db) = (Inl e, tables db') \<or> e = connection_lost \<and>
       (tables db' = tables db \<or> tables db' = snd (stmt (tables db)))"
  by (auto simp: pg_query_def Let_def split: prod.splits io.splits)

lemma pg_query_tables:
  "tables (snd (pg_query stmt db)) = tables db \<or> tables (snd (pg_query stmt db)) = snd (stmt (tables db))"
  by (auto simp: pg_query_def Let_def split: prod.splits io.splits)

text \<open>The states in which no reply of a statement that ran is lost.\<close>

definition no_lost_reply :: "'t pg \<Rightarrow> bool" where
  "no_lost_reply db \<longleftrightarrow> Fails_after \<notin> set (script db)"

lemma next_io_in: "next_io xs = (x, rest) \<Longrightarrow> set rest \<subseteq> set xs \<and> (x = Works \<or> x \<in> set xs)"
  by (cases xs) auto

lemma pg_query_no_lost_reply [simp]: "no_lost_reply db \<Longrightarrow> no_lost_reply (snd (pg_query stmt db))"
  by (cases "next_io (script db)")
    (auto simp: pg_query_def Let_def no_lost_reply_def split: prod.splits io.splits dest: next_io_in)

lemma pg_query_Inl_no_lost_reply:
  "pg_query stmt db = (Inl e, db') \<Longrightarrow> no_lost_reply db \<Longrightarrow>
     stmt (tables db) = (Inl e, tables db') \<or> e = connection_lost \<and> tables db' = tables db"
  by (cases "next_io (script db)")
    (auto simp: pg_query_def Let_def no_lost_reply_def split: prod.splits io.splits dest: next_io_in)

lemma pg_query_calm: "script db = [] \<Longrightarrow>
    pg_query stmt db = (fst (stmt (tables db)), \<lparr>tables = snd (stmt (tables db)), script = []\<rparr>)"
  by (simp add: pg_query_def Let_def split: prod.splits)

section \<open>Transactions\<close>

text \<open>A transaction holds the working copy; \<open>keep\<close> carries over what a rollback does not undo.\<close>

definition tx_begin :: "'t pg \<Rightarrow> (go_error + 't) \<times> 't pg" where
  "tx_begin db =
     (let (o1, rest) = next_io (script db) in
      (if o1 = Works then Inr (tables db) else Inl connection_lost, db\<lparr>script := rest\<rparr>))"

definition tx_exec :: "('t \<Rightarrow> go_error option \<times> 't) \<Rightarrow> 't \<Rightarrow> 't pg \<Rightarrow> (go_error option \<times> 't) \<times> 't pg" where
  "tx_exec stmt tx db =
     (let (o1, rest) = next_io (script db); (r, tx') = stmt tx in
      (case o1 of
         Works \<Rightarrow> (r, tx')
       | Fails_before \<Rightarrow> (Some connection_lost, tx)
       | Fails_after \<Rightarrow> (Some connection_lost, tx'), db\<lparr>script := rest\<rparr>))"

definition tx_commit :: "'t \<Rightarrow> 't pg \<Rightarrow> go_error option \<times> 't pg" where
  "tx_commit tx db =
     (let (o1, rest) = next_io (script db) in
      case o1 of
        Works \<Rightarrow> (None, \<lparr>tables = tx, script = rest\<rparr>)
      | Fails_before \<Rightarrow> (Some connection_lost, db\<lparr>script := rest\<rparr>)
      | Fails_after \<Rightarrow> (Some connection_lost, \<lparr>tables = tx, script = rest\<rparr>))"

definition tx_rollback :: "('t \<Rightarrow> 't \<Rightarrow> 't) \<Rightarrow> 't \<Rightarrow> 't pg \<Rightarrow> 't pg" where
  "tx_rollback keep tx db = db\<lparr>tables := keep tx (tables db)\<rparr>"

section \<open>INTEGER columns\<close>

text \<open>A parameter or a result outside the 32 bits of an \<open>INTEGER\<close> is an error.\<close>

abbreviation out_of_range :: go_error where
  "out_of_range \<equiv> Driver_Error ''integer out of range''"

abbreviation check_violation :: go_error where
  "check_violation \<equiv> Driver_Error ''check constraint violated''"

end
