(* ===== verification/GoStrconv.thy ===== *)
theory GoStrconv
  imports Prelude
begin

text \<open>
  Decimal text of integers as Go's \<open>strconv\<close> writes and reads it (\<open>Itoa\<close>, \<open>FormatInt\<close> in base
  10, \<open>ParseInt\<close> to 64 bits), and fixed-width digit fields. Strings are lists of bytes.
\<close>

section \<open>Digits\<close>

definition digit_char :: "nat \<Rightarrow> char" where
  "digit_char n = char_of (48 + n)"

definition is_digit :: "char \<Rightarrow> bool" where
  "is_digit c \<longleftrightarrow> 48 \<le> (of_char c :: nat) \<and> (of_char c :: nat) \<le> 57"

definition digit_val :: "char \<Rightarrow> nat" where
  "digit_val c = of_char c - 48"

lemma digit_char_val [simp]: "n < 10 \<Longrightarrow> digit_val (digit_char n) = n"
  by (simp add: digit_val_def digit_char_def)

lemma is_digit_digit_char [simp]: "n < 10 \<Longrightarrow> is_digit (digit_char n)"
  by (simp add: is_digit_def digit_char_def)

lemma digit_char_0: "digit_char 0 = CHR ''0''"
  by code_simp

fun nat_text :: "nat \<Rightarrow> string" where
  "nat_text n = (if n < 10 then [digit_char n] else nat_text (n div 10) @ [digit_char (n mod 10)])"

declare nat_text.simps [simp del]

fun text_val :: "nat \<Rightarrow> string \<Rightarrow> nat" where
  "text_val acc [] = acc"
| "text_val acc (c # cs) = text_val (10 * acc + digit_val c) cs"

lemma text_val_append: "text_val acc (xs @ ys) = text_val (text_val acc xs) ys"
  by (induction xs arbitrary: acc) auto

lemma text_val_nat_text [simp]: "text_val 0 (nat_text n) = n"
proof (induction n rule: nat_text.induct)
  case (1 n)
  then show ?case
    by (subst nat_text.simps) (auto simp: text_val_append)
qed

lemma nat_text_digits: "c \<in> set (nat_text n) \<Longrightarrow> is_digit c"
proof (induction n rule: nat_text.induct)
  case (1 n)
  then show ?case
    by (subst (asm) nat_text.simps) (auto split: if_splits)
qed

lemma nat_text_nonempty [simp]: "nat_text n \<noteq> []"
  by (subst nat_text.simps) simp

lemma nat_text_inj: "nat_text m = nat_text n \<Longrightarrow> m = n"
  by (metis text_val_nat_text)

lemma nat_text_hd_zero: "hd (nat_text n) = CHR ''0'' \<Longrightarrow> n = 0 \<and> nat_text n = ''0''"
proof (induction n rule: nat_text.induct)
  case (1 n)
  show ?case
  proof (cases "n < 10")
    case True
    then have "digit_val (hd (nat_text n)) = n" by (subst nat_text.simps) simp
    with "1.prems" have "n = 0" by (simp add: digit_val_def)
    then show ?thesis by (simp add: nat_text.simps [of 0] digit_char_0)
  next
    case False
    then have "hd (nat_text n) = hd (nat_text (n div 10))"
      by (simp add: nat_text.simps [of n])
    with "1.prems" "1.IH" False have "n div 10 = 0" by simp
    with False show ?thesis by simp
  qed
qed

section \<open>strconv.Itoa, strconv.FormatInt(_, 10)\<close>

definition Itoa :: "int \<Rightarrow> string" where
  "Itoa i = (if i < 0 then CHR ''-'' # nat_text (nat (- i)) else nat_text (nat i))"

lemma nat_text_no_minus: "nat_text n \<noteq> CHR ''-'' # t"
proof
  assume "nat_text n = CHR ''-'' # t"
  then have "is_digit (CHR ''-'')" using nat_text_digits [of "CHR ''-''" n] by simp
  then show False by (simp add: is_digit_def)
qed

lemma Itoa_inj: "Itoa i = Itoa j \<Longrightarrow> i = j"
  using nat_text_inj [of "nat i" "nat j"] nat_text_inj [of "nat (- i)" "nat (- j)"]
    nat_text_no_minus [of "nat i"] nat_text_no_minus [of "nat j"]
  by (auto simp: Itoa_def split: if_splits) metis

section \<open>strconv.ParseInt(_, 10, 64)\<close>

definition all_digits :: "string \<Rightarrow> bool" where
  "all_digits s \<longleftrightarrow> s \<noteq> [] \<and> list_all is_digit s"

definition ParseInt64 :: "string \<Rightarrow> int option" where
  "ParseInt64 s =
     (let neg = (s \<noteq> [] \<and> hd s = CHR ''-'');
          ds = (if neg \<or> (s \<noteq> [] \<and> hd s = CHR ''+'') then tl s else s)
      in if \<not> all_digits ds then None
         else let v = (if neg then - int (text_val 0 ds) else int (text_val 0 ds))
              in if in_int64 v then Some v else None)"

lemma all_digits_nat_text [simp]: "all_digits (nat_text n)"
  using nat_text_digits by (auto simp: all_digits_def list_all_iff)

lemma hd_nat_text_digit: "is_digit (hd (nat_text n))"
  using nat_text_digits [of "hd (nat_text n)" n] by simp

lemma ParseInt64_Itoa: "in_int64 i \<Longrightarrow> ParseInt64 (Itoa i) = Some i"
proof -
  assume i: "in_int64 i"
  have "hd (nat_text n) \<noteq> CHR ''-'' \<and> hd (nat_text n) \<noteq> CHR ''+''" for n
    using hd_nat_text_digit [of n] by (auto simp: is_digit_def)
  with i show ?thesis by (simp add: ParseInt64_def Itoa_def Let_def)
qed

section \<open>Digit fields of a fixed width\<close>

fun pad_text :: "nat \<Rightarrow> nat \<Rightarrow> string" where
  "pad_text 0 n = []"
| "pad_text (Suc k) n = pad_text k (n div 10) @ [digit_char (n mod 10)]"

lemma length_pad_text [simp]: "length (pad_text k n) = k"
  by (induction k arbitrary: n) auto

lemma pad_text_digits [simp]: "list_all is_digit (pad_text k n)"
  by (induction k arbitrary: n) auto

lemma text_val_pad_text: "n < 10 ^ k \<Longrightarrow> text_val 0 (pad_text k n) = n"
proof (induction k arbitrary: n)
  case (Suc k)
  then have "n div 10 < 10 ^ k" by (simp add: less_mult_imp_div_less mult.commute)
  with Suc.IH have "text_val 0 (pad_text k (n div 10)) = n div 10" by simp
  then show ?case by (simp add: text_val_append)
qed simp

text \<open>Reading exactly \<open>k\<close> digits, and one expected character.\<close>

definition read_digits :: "nat \<Rightarrow> string \<Rightarrow> (nat \<times> string) option" where
  "read_digits k s =
     (if length s < k \<or> \<not> list_all is_digit (take k s) then None
      else Some (text_val 0 (take k s), drop k s))"

fun expect :: "char \<Rightarrow> string \<Rightarrow> string option" where
  "expect c [] = None"
| "expect c (d # s) = (if d = c then Some s else None)"

lemma read_digits_pad [simp]: "n < 10 ^ k \<Longrightarrow> read_digits k (pad_text k n @ rest) = Some (n, rest)"
  by (simp add: read_digits_def text_val_pad_text)

end
