(* ===== verification/GoString.thy ===== *)
theory GoString
  imports GoStrconv
begin

text \<open>
  Go strings as byte lists: UTF-8 decoding of \<open>unicode/utf8\<close>, and the string literals of
  \<open>encoding/json\<close>: \<open>quote\<close> is what \<open>Marshal\<close> writes (HTML escaping on, invalid bytes replaced),
  \<open>unquote\<close> what the decoder reads. Main result: \<open>unquote_quote\<close>.
\<close>

section \<open>UTF-8\<close>

abbreviation byte :: "char \<Rightarrow> nat" where
  "byte c \<equiv> of_char c"

definition in_rng :: "nat \<Rightarrow> nat \<Rightarrow> char \<Rightarrow> bool" where
  "in_rng lo hi c \<longleftrightarrow> lo \<le> byte c \<and> byte c \<le> hi"

text \<open>
  The range of a rune's second byte, and \<open>utf8.DecodeRune\<close>: the number of bytes of the rune a string starts with, 0 where the bytes are
  not valid UTF-8 (the decoder then yields the replacement rune and skips one byte).
\<close>

definition snd_lo :: "char \<Rightarrow> nat" where
  "snd_lo c = (if byte c = 224 then 160 else if byte c = 240 then 144 else 128)"

definition snd_hi :: "char \<Rightarrow> nat" where
  "snd_hi c = (if byte c = 237 then 159 else if byte c = 244 then 143 else 191)"

fun utf8_len :: "string \<Rightarrow> nat" where
  "utf8_len [] = 0"
| "utf8_len (c0 # t) =
     (if byte c0 < 128 then 1
      else if in_rng 194 223 c0 then
        (case t of c1 # _ \<Rightarrow> if in_rng 128 191 c1 then 2 else 0 | _ \<Rightarrow> 0)
      else if in_rng 224 239 c0 then
        (case t of c1 # c2 # _ \<Rightarrow>
           if in_rng (snd_lo c0) (snd_hi c0) c1 \<and> in_rng 128 191 c2 then 3 else 0
         | _ \<Rightarrow> 0)
      else if in_rng 240 244 c0 then
        (case t of c1 # c2 # c3 # _ \<Rightarrow>
           if in_rng (snd_lo c0) (snd_hi c0) c1 \<and> in_rng 128 191 c2 \<and> in_rng 128 191 c3
           then 4 else 0
         | _ \<Rightarrow> 0)
      else 0)"

declare utf8_len.simps(2) [simp del]

lemma utf8_len_le: "utf8_len s \<le> length s"
  by (cases s) (auto simp: utf8_len.simps(2) split: list.splits)

text \<open>A decoded rune depends on its own bytes only.\<close>

lemma utf8_len_cut: "utf8_len s = k \<Longrightarrow> 0 < k \<Longrightarrow> utf8_len (take k s @ r) = k"
  by (cases s) (auto simp: utf8_len.simps(2) split: list.splits if_splits)

lemma utf8_len_hd: "1 < utf8_len s \<Longrightarrow> 128 \<le> byte (hd s)"
  by (cases s) (auto simp: utf8_len.simps(2) split: if_splits)

function utf8_chunks :: "string \<Rightarrow> string list" where
  "utf8_chunks s =
     (if s = [] then []
      else take (max 1 (utf8_len s)) s # utf8_chunks (drop (max 1 (utf8_len s)) s))"
  by pat_completeness auto
termination
  by (relation "measure length") auto

declare utf8_chunks.simps [simp del]

definition valid_chunk :: "string \<Rightarrow> bool" where
  "valid_chunk ch \<longleftrightarrow> utf8_len ch \<noteq> 0"

definition valid_utf8 :: "string \<Rightarrow> bool" where
  "valid_utf8 s \<longleftrightarrow> list_all valid_chunk (utf8_chunks s)"

text \<open>\<open>utf8.EncodeRune\<close>; surrogates and values past 0x10FFFF become the replacement rune.\<close>

definition replacement :: string where
  "replacement = [CHR 0xEF, CHR 0xBF, CHR 0xBD]"

definition encode_rune :: "nat \<Rightarrow> string" where
  "encode_rune r =
     (if r < 128 then [char_of r]
      else if r < 2048 then [char_of (192 + r div 64), char_of (128 + r mod 64)]
      else if 55296 \<le> r \<and> r \<le> 57343 then replacement
      else if r < 65536 then
        [char_of (224 + r div 4096), char_of (128 + r div 64 mod 64), char_of (128 + r mod 64)]
      else if r \<le> 1114111 then
        [char_of (240 + r div 262144), char_of (128 + r div 4096 mod 64),
         char_of (128 + r div 64 mod 64), char_of (128 + r mod 64)]
      else replacement)"

text \<open>What a string becomes when it is written as JSON and read back.\<close>

definition to_valid_utf8 :: "string \<Rightarrow> string" where
  "to_valid_utf8 s = concat (map (\<lambda>ch. if valid_chunk ch then ch else replacement) (utf8_chunks s))"

lemma concat_utf8_chunks [simp]: "concat (utf8_chunks s) = s"
proof (induction s rule: utf8_chunks.induct)
  case (1 s)
  then show ?case by (subst utf8_chunks.simps) auto
qed

lemma to_valid_utf8_id [simp]: "valid_utf8 s \<Longrightarrow> to_valid_utf8 s = s"
proof -
  assume "valid_utf8 s"
  then have "map (\<lambda>ch. if valid_chunk ch then ch else replacement) (utf8_chunks s) = utf8_chunks s"
    by (simp add: valid_utf8_def list_all_iff map_idI)
  then show ?thesis by (simp add: to_valid_utf8_def)
qed

definition ascii :: "string \<Rightarrow> bool" where
  "ascii s \<longleftrightarrow> list_all (\<lambda>c. byte c < 128) s"

lemma ascii_valid [simp]: "ascii s \<Longrightarrow> valid_utf8 s"
  unfolding valid_utf8_def
proof (induction s rule: utf8_chunks.induct)
  case (1 s)
  show ?case
  proof (cases s)
    case Nil
    then show ?thesis by (subst utf8_chunks.simps) simp
  next
    case (Cons c t)
    with "1.prems" have c: "utf8_len (c # r) = 1" for r
      by (simp add: ascii_def utf8_len.simps(2))
    with "1.IH" Cons "1.prems" have "list_all valid_chunk (utf8_chunks t)"
      by (simp add: ascii_def)
    with Cons c show ?thesis by (subst utf8_chunks.simps) (simp add: valid_chunk_def)
  qed
qed

section \<open>Hexadecimal escapes\<close>

definition hex_digit :: "nat \<Rightarrow> char" where
  "hex_digit n = (if n < 10 then char_of (48 + n) else char_of (87 + n))"

definition hex_val :: "char \<Rightarrow> nat option" where
  "hex_val c =
     (if in_rng 48 57 c then Some (byte c - 48)
      else if in_rng 97 102 c then Some (byte c - 87)
      else if in_rng 65 70 c then Some (byte c - 55)
      else None)"

lemma hex_val_digit [simp]: "n < 16 \<Longrightarrow> hex_val (hex_digit n) = Some n"
  by (auto simp: hex_val_def hex_digit_def in_rng_def)

text \<open>\<open>getu4\<close>: a \<open>\uXXXX\<close> escape at the head of the string.\<close>

fun getu4 :: "string \<Rightarrow> nat option" where
  "getu4 (b # u # x3 # x2 # x1 # x0 # _) =
     (if b = CHR 0x5C \<and> u = CHR ''u'' then
        (case (hex_val x3, hex_val x2, hex_val x1, hex_val x0) of
           (Some h3, Some h2, Some h1, Some h0) \<Rightarrow> Some (4096 * h3 + 256 * h2 + 16 * h1 + h0)
         | _ \<Rightarrow> None)
      else None)"
| "getu4 _ = None"

definition is_surrogate :: "nat \<Rightarrow> bool" where
  "is_surrogate r \<longleftrightarrow> 55296 \<le> r \<and> r \<le> 57343"

section \<open>Writing a string literal\<close>

definition u_escape :: "nat \<Rightarrow> string" where
  "u_escape b = [CHR 0x5C, CHR ''u'', CHR ''0'', CHR ''0'', hex_digit (b div 16), hex_digit (b mod 16)]"

definition quote_ascii :: "char \<Rightarrow> string" where
  "quote_ascii c =
     (if c = CHR 0x22 \<or> c = CHR 0x5C then [CHR 0x5C, c]
      else if c = CHR 0x08 then [CHR 0x5C, CHR ''b'']
      else if c = CHR 0x0C then [CHR 0x5C, CHR ''f'']
      else if c = CHR 0x0A then [CHR 0x5C, CHR ''n'']
      else if c = CHR 0x0D then [CHR 0x5C, CHR ''r'']
      else if c = CHR 0x09 then [CHR 0x5C, CHR ''t'']
      else if byte c < 32 \<or> c = CHR ''<'' \<or> c = CHR ''>'' \<or> c = CHR ''&'' then u_escape (byte c)
      else [c])"

definition quote_chunk :: "string \<Rightarrow> string" where
  "quote_chunk ch =
     (if \<not> valid_chunk ch then [CHR 0x5C] @ ''ufffd''
      else if utf8_len ch = 1 then quote_ascii (hd ch)
      else if ch = [CHR 0xE2, CHR 0x80, CHR 0xA8] then [CHR 0x5C] @ ''u2028''
      else if ch = [CHR 0xE2, CHR 0x80, CHR 0xA9] then [CHR 0x5C] @ ''u2029''
      else ch)"

definition quote_body :: "string \<Rightarrow> string" where
  "quote_body s = concat (map quote_chunk (utf8_chunks s))"

definition quote :: "string \<Rightarrow> string" where
  "quote s = CHR 0x22 # quote_body s @ [CHR 0x22]"

section \<open>Reading a string literal\<close>

definition unescape_u :: "string \<Rightarrow> (string \<times> string) option" where
  "unescape_u s =
     (case getu4 s of
        None \<Rightarrow> None
      | Some r \<Rightarrow>
          if is_surrogate r then
            (case getu4 (drop 6 s) of
               Some r1 \<Rightarrow>
                 if r < 56320 \<and> 56320 \<le> r1 \<and> r1 \<le> 57343
                 then Some (encode_rune (65536 + (r - 55296) * 1024 + (r1 - 56320)), drop 12 s)
                 else Some (replacement, drop 6 s)
             | None \<Rightarrow> Some (replacement, drop 6 s))
          else Some (encode_rune r, drop 6 s))"

text \<open>One element of a literal's body: an escape, a byte, or a rune.\<close>

fun str_piece :: "string \<Rightarrow> (string \<times> string) option" where
  "str_piece [] = None"
| "str_piece (c # t) =
     (if c = CHR 0x5C then
        (case t of
           [] \<Rightarrow> None
         | e # r \<Rightarrow>
             if e = CHR 0x22 \<or> e = CHR 0x5C \<or> e = CHR ''/'' then Some ([e], r)
             else if e = CHR ''b'' then Some ([CHR 0x08], r)
             else if e = CHR ''f'' then Some ([CHR 0x0C], r)
             else if e = CHR ''n'' then Some ([CHR 0x0A], r)
             else if e = CHR ''r'' then Some ([CHR 0x0D], r)
             else if e = CHR ''t'' then Some ([CHR 0x09], r)
             else if e = CHR ''u'' then unescape_u (c # t)
             else None)
      else if byte c < 32 then None
      else if byte c < 128 then Some ([c], t)
      else if utf8_len (c # t) = 0 then Some (replacement, t)
      else Some (take (utf8_len (c # t)) (c # t), drop (utf8_len (c # t)) (c # t)))"

lemma getu4_length: "getu4 s = Some r \<Longrightarrow> 6 \<le> length s"
  by (induction s rule: getu4.induct) auto

lemma unescape_u_shorter: "unescape_u s = Some (p, r) \<Longrightarrow> length r < length s"
  by (auto simp: unescape_u_def split: option.splits if_splits dest!: getu4_length)

lemma str_piece_shorter: "str_piece s = Some (p, r) \<Longrightarrow> length r < length s"
  by (cases s) (auto split: if_splits list.splits dest: unescape_u_shorter)

text \<open>The body up to the closing quote, and what follows it.\<close>

function unquote :: "string \<Rightarrow> (string \<times> string) option" where
  "unquote s =
     (if s = [] then None
      else if hd s = CHR 0x22 then Some ([], tl s)
      else case str_piece s of
             None \<Rightarrow> None
           | Some (p, r) \<Rightarrow> map_option (\<lambda>(t, q). (p @ t, q)) (unquote r))"
  by pat_completeness auto
termination
  by (relation "measure length") (auto dest: str_piece_shorter)

declare unquote.simps [simp del]

lemma unquote_shorter: "unquote s = Some (t, r) \<Longrightarrow> length r < length s"
proof (induction s arbitrary: t rule: unquote.induct)
  case (1 s)
  show ?case
  proof (cases "s = [] \<or> hd s = CHR 0x22")
    case True
    with "1.prems" show ?thesis by (auto simp: unquote.simps [of s] split: if_splits)
  next
    case False
    with "1.prems" obtain p q t' where pq: "str_piece s = Some (p, q)" "unquote q = Some (t', r)"
      by (auto simp: unquote.simps [of s] split: option.splits)
    with False "1.IH" have "length r < length q" by fastforce
    with pq str_piece_shorter show ?thesis by fastforce
  qed
qed

section \<open>Round trip\<close>

definition good_chunk :: "string \<Rightarrow> bool" where
  "good_chunk ch \<longleftrightarrow>
     ch \<noteq> [] \<and> (if valid_chunk ch then utf8_len ch = length ch else length ch = 1 \<and> 128 \<le> byte (hd ch))"

lemma utf8_chunks_Nil [simp]: "utf8_chunks [] = []"
  by (simp add: utf8_chunks.simps)

lemma good_chunks: "ch \<in> set (utf8_chunks s) \<Longrightarrow> good_chunk ch"
proof (induction s rule: utf8_chunks.induct)
  case (1 s)
  show ?case
  proof (cases "s = [] \<or> ch \<in> set (utf8_chunks (drop (max 1 (utf8_len s)) s))")
    case True
    with 1 show ?thesis by (cases "s = []") (auto simp: utf8_chunks.simps [of s])
  next
    case False
    with "1.prems" have ch: "ch = take (max 1 (utf8_len s)) s" and s: "s \<noteq> []"
      by (auto simp: utf8_chunks.simps [of s])
    show ?thesis
    proof (cases "utf8_len s = 0")
      case True
      from s obtain c t where "s = c # t" by (cases s) auto
      with ch True show ?thesis
        by (auto simp: good_chunk_def valid_chunk_def utf8_len.simps(2) split: if_splits)
    next
      case False
      with ch have "utf8_len ch = utf8_len s" using utf8_len_cut [of s "utf8_len s" "[]"] by simp
      with False ch s utf8_len_le [of s] show ?thesis
        by (auto simp: good_chunk_def valid_chunk_def)
    qed
  qed
qed

lemma getu4_u_escape [simp]: "b < 256 \<Longrightarrow> getu4 (u_escape b @ r) = Some b"
proof -
  assume "b < 256"
  moreover have "hex_val (CHR ''0'') = Some 0" by code_simp
  ultimately show ?thesis by (simp add: u_escape_def)
qed

lemma unescape_u_escape: "b < 128 \<Longrightarrow> unescape_u (u_escape b @ r) = Some ([char_of b], r)"
proof -
  assume "b < 128"
  moreover have "drop 6 (u_escape b @ r) = r" by (simp add: u_escape_def)
  ultimately show ?thesis by (simp add: unescape_u_def is_surrogate_def encode_rune_def)
qed

lemma str_piece_u_escape: "b < 128 \<Longrightarrow> str_piece (u_escape b @ r) = Some ([char_of b], r)"
  using unescape_u_escape [of b r] by (simp add: u_escape_def)

lemma str_piece_short:
  "str_piece (CHR 0x5C # CHR 0x22 # r) = Some ([CHR 0x22], r)"
  "str_piece (CHR 0x5C # CHR 0x5C # r) = Some ([CHR 0x5C], r)"
  "str_piece (CHR 0x5C # CHR ''b'' # r) = Some ([CHR 0x08], r)"
  "str_piece (CHR 0x5C # CHR ''f'' # r) = Some ([CHR 0x0C], r)"
  "str_piece (CHR 0x5C # CHR ''n'' # r) = Some ([CHR 0x0A], r)"
  "str_piece (CHR 0x5C # CHR ''r'' # r) = Some ([CHR 0x0D], r)"
  "str_piece (CHR 0x5C # CHR ''t'' # r) = Some ([CHR 0x09], r)"
  by simp_all

lemma piece_quote_ascii:
  assumes "byte c < 128"
  shows "str_piece (quote_ascii c @ r) = Some ([c], r)"
proof -
  have esc: "str_piece (u_escape (byte c) @ r) = Some ([c], r)"
    using str_piece_u_escape [OF assms] by simp
  have plain: "c \<noteq> CHR 0x5C \<Longrightarrow> \<not> byte c < 32 \<Longrightarrow> str_piece (c # r) = Some ([c], r)"
    using assms by simp
  show ?thesis
    by (simp add: quote_ascii_def esc plain str_piece_short del: str_piece.simps)
qed

lemma piece_quote_chunk:
  assumes "good_chunk ch"
  shows "str_piece (quote_chunk ch @ r) = Some (if valid_chunk ch then ch else replacement, r)"
proof -
  have fixed: "str_piece ([CHR 0x5C] @ ''ufffd'' @ r) = Some (replacement, r)"
    "str_piece ([CHR 0x5C] @ ''u2028'' @ r) = Some ([CHR 0xE2, CHR 0x80, CHR 0xA8], r)"
    "str_piece ([CHR 0x5C] @ ''u2029'' @ r) = Some ([CHR 0xE2, CHR 0x80, CHR 0xA9], r)"
    by (simp_all add: unescape_u_def hex_val_def in_rng_def is_surrogate_def encode_rune_def
          replacement_def, code_simp+)
  consider "\<not> valid_chunk ch" | c where "ch = [c]" "byte c < 128"
    | "valid_chunk ch" "1 < utf8_len ch"
    using assms
    by (cases ch) (auto simp: good_chunk_def valid_chunk_def utf8_len.simps(2) split: if_splits list.splits)
  then show ?thesis
  proof cases
    case 1
    with fixed show ?thesis by (simp add: quote_chunk_def)
  next
    case 2
    then show ?thesis
      using piece_quote_ascii [of c r] by (simp add: quote_chunk_def valid_chunk_def utf8_len.simps(2))
  next
    case 3
    then have hd: "128 \<le> byte (hd ch)" and ne: "ch \<noteq> []" using utf8_len_hd [of ch] by auto
    from 3 assms have len: "utf8_len ch = length ch" by (simp add: good_chunk_def)
    have cut: "utf8_len (ch @ r) = length ch"
      using utf8_len_cut [of ch "length ch" r] len 3 ne by simp
    from ne obtain c t where ch: "ch = c # t" by (cases ch) auto
    have "c \<noteq> CHR 0x5C" using hd ch by auto
    with hd cut ch 3 have "str_piece (ch @ r) = Some (ch, r)" by simp
    with 3 fixed show ?thesis by (auto simp: quote_chunk_def)
  qed
qed

lemma quote_chunk_hd:
  assumes "good_chunk ch"
  shows "quote_chunk ch \<noteq> [] \<and> hd (quote_chunk ch) \<noteq> CHR 0x22"
proof -
  have "quote_ascii c \<noteq> [] \<and> hd (quote_ascii c) \<noteq> CHR 0x22" for c
    by (simp add: quote_ascii_def u_escape_def)
  moreover have "128 \<le> byte (hd ch)" if "utf8_len ch \<noteq> 1" "valid_chunk ch"
    using that utf8_len_hd [of ch] by (simp add: valid_chunk_def)
  ultimately show ?thesis using assms by (auto simp: quote_chunk_def good_chunk_def)
qed

lemma unquote_chunks:
  "list_all good_chunk chs \<Longrightarrow>
   unquote (concat (map quote_chunk chs) @ CHR 0x22 # r) =
     Some (concat (map (\<lambda>ch. if valid_chunk ch then ch else replacement) chs), r)"
proof (induction chs)
  case Nil
  then show ?case by (subst unquote.simps) simp
next
  case (Cons ch chs)
  then show ?case
    using quote_chunk_hd [of ch] piece_quote_chunk [of ch]
    by (subst unquote.simps) auto
qed

lemma unquote_quote_gen: "unquote (quote_body s @ CHR 0x22 # r) = Some (to_valid_utf8 s, r)"
  unfolding quote_body_def to_valid_utf8_def
  by (rule unquote_chunks) (auto simp: list_all_iff good_chunks)

lemma unquote_quote: "valid_utf8 s \<Longrightarrow> unquote (quote_body s @ CHR 0x22 # r) = Some (s, r)"
  by (simp add: unquote_quote_gen)

section \<open>Decoded strings are valid\<close>

text \<open>One whole rune.\<close>

definition rune :: "string \<Rightarrow> bool" where
  "rune p \<longleftrightarrow> 0 < utf8_len p \<and> utf8_len p = length p"

lemma valid_utf8_Cons_rune:
  assumes "rune p" and "valid_utf8 t"
  shows "valid_utf8 (p @ t)"
proof -
  have len: "utf8_len p = length p" and p: "0 < length p" using assms(1) by (auto simp: rune_def)
  have cut: "utf8_len (p @ t) = length p" using utf8_len_cut [OF len p] by simp
  have "max 1 (length p) = length p" using p by linarith
  moreover have "p \<noteq> []" using p by auto
  ultimately have "utf8_chunks (p @ t) = p # utf8_chunks t"
    by (subst utf8_chunks.simps) (simp add: cut)
  with assms len p show ?thesis by (simp add: valid_utf8_def valid_chunk_def)
qed

lemma rune_ascii: "byte c < 128 \<Longrightarrow> rune [c]"
  by (simp add: rune_def utf8_len.simps(2))

lemma rune_replacement: "rune replacement"
  by (simp add: rune_def replacement_def utf8_len.simps(2) in_rng_def snd_lo_def snd_hi_def)

lemma rune_take: "utf8_len s \<noteq> 0 \<Longrightarrow> rune (take (utf8_len s) s)"
  using utf8_len_cut [of s "utf8_len s" "[]"] utf8_len_le [of s] by (simp add: rune_def)

lemma mod_64: "n mod 64 \<le> (63 :: nat)"
  using mod_less_divisor [of 64 n] by simp

lemma rune_encode: "rune (encode_rune r)"
proof -
  consider "r < 128" | "128 \<le> r" "r < 2048" | "55296 \<le> r" "r \<le> 57343" | "2048 \<le> r" "r < 55296"
    | "57343 < r" "r < 65536" | "65536 \<le> r" "r \<le> 1114111" | "1114111 < r" by linarith
  then show ?thesis
  proof cases
    case 1
    then show ?thesis by (simp add: encode_rune_def rune_ascii)
  next
    case 2
    then have "194 \<le> 192 + r div 64" "192 + r div 64 \<le> 223" by auto
    with 2 show ?thesis by (simp add: encode_rune_def rune_def utf8_len.simps(2) in_rng_def)
  next
    case 3
    then show ?thesis by (simp add: encode_rune_def rune_replacement)
  next
    case 4
    let ?q = "r div 64"
    have d: "r div 4096 = ?q div 64" by (simp add: div_mult2_eq [symmetric])
    have q: "32 \<le> ?q" "?q < 864" using 4 by auto
    from q have "?q div 64 = 0 \<longrightarrow> 32 \<le> ?q mod 64" "?q div 64 = 13 \<longrightarrow> ?q mod 64 \<le> 31" "?q div 64 \<le> 13"
        "?q div 64 = 0 \<longrightarrow> ?q \<le> 63"
      by (auto simp: div_eq_0_iff modulo_nat_def)
    with 4 show ?thesis
      by (simp add: d mod_64 encode_rune_def rune_def utf8_len.simps(2) in_rng_def snd_lo_def snd_hi_def)
  next
    case 5
    have "14 \<le> r div 4096" "r div 4096 \<le> 15" using 5 by auto
    with 5 show ?thesis
      by (simp add: mod_64 encode_rune_def rune_def utf8_len.simps(2) in_rng_def snd_lo_def snd_hi_def)
  next
    case 6
    let ?q = "r div 4096"
    have d: "r div 262144 = ?q div 64" by (simp add: div_mult2_eq [symmetric])
    have q: "16 \<le> ?q" "?q < 272" using 6 by auto
    from q have "?q div 64 = 0 \<longrightarrow> 16 \<le> ?q mod 64" "?q div 64 = 4 \<longrightarrow> ?q mod 64 \<le> 15" "?q div 64 \<le> 4"
        "?q div 64 = 0 \<longrightarrow> ?q \<le> 63"
      by (auto simp: div_eq_0_iff modulo_nat_def)
    with 6 show ?thesis
      by (simp add: d mod_64 encode_rune_def rune_def utf8_len.simps(2) in_rng_def snd_lo_def snd_hi_def)
  next
    case 7
    then show ?thesis by (simp add: encode_rune_def rune_replacement)
  qed
qed

lemma str_piece_rune: "str_piece s = Some (p, r) \<Longrightarrow> rune p"
  by (cases s) (auto simp: unescape_u_def rune_ascii rune_encode rune_replacement rune_take
    split: if_splits list.splits option.splits)

lemma unquote_valid: "unquote s = Some (t, r) \<Longrightarrow> valid_utf8 t"
proof (induction s arbitrary: t rule: unquote.induct)
  case (1 s)
  show ?case
  proof (cases "s = [] \<or> hd s = CHR 0x22")
    case True
    with "1.prems" show ?thesis by (auto simp: unquote.simps [of s] valid_utf8_def split: if_splits)
  next
    case False
    with "1.prems" obtain p q t' where pq: "str_piece s = Some (p, q)" "unquote q = Some (t', r)" "t = p @ t'"
      by (auto simp: unquote.simps [of s] split: option.splits)
    with False "1.IH" have "valid_utf8 t'" by fastforce
    with pq str_piece_rune valid_utf8_Cons_rune show ?thesis by blast
  qed
qed

end
