(* ===== verification/GoJson.thy ===== *)
theory GoJson
  imports GoString
begin

text \<open>
  The part of \<open>encoding/json\<close> the services use: documents, the text \<open>Marshal\<close> writes, the syntax
  \<open>Unmarshal\<close> and \<open>Decoder.Decode\<close> accept, and how an object is stored into a struct (exact, then
  case-folded field names; the last of two equal keys wins; \<open>null\<close> leaves a field alone; unknown
  keys are skipped; a value of the wrong kind is an error). Main result: \<open>parse_render\<close>.
  Not modelled: the decoder's nesting limit of 10000.
\<close>

section \<open>Documents and their text\<close>

datatype json =
    JNull
  | JBool bool
  | JNum string
  | JStr string
  | JArr "json list"
  | JObj "(string \<times> json) list"

fun comma_sep :: "string list \<Rightarrow> string" where
  "comma_sep [] = []"
| "comma_sep [x] = x"
| "comma_sep (x # xs) = x @ CHR '','' # comma_sep xs"

fun render :: "json \<Rightarrow> string" where
  "render JNull = ''null''"
| "render (JBool b) = (if b then ''true'' else ''false'')"
| "render (JNum l) = l"
| "render (JStr s) = quote s"
| "render (JArr js) = CHR ''['' # comma_sep (map render js) @ '']''"
| "render (JObj ms) = CHR ''{'' # comma_sep (map (\<lambda>(k, v). quote k @ CHR '':'' # render v) ms) @ ''}''"

section \<open>Reading\<close>

definition is_ws :: "char \<Rightarrow> bool" where
  "is_ws c \<longleftrightarrow> c = CHR '' '' \<or> c = CHR 0x09 \<or> c = CHR 0x0A \<or> c = CHR 0x0D"

definition skip_ws :: "string \<Rightarrow> string" where
  "skip_ws s = dropWhile is_ws s"

text \<open>A number literal: sign, integer part without leading zeros, fraction, exponent.\<close>

definition scan_int :: "string \<Rightarrow> (string \<times> string) option" where
  "scan_int s =
     (case s of
        [] \<Rightarrow> None
      | c # r \<Rightarrow>
          if c = CHR ''0'' then Some ([c], r)
          else if is_digit c then Some (takeWhile is_digit s, dropWhile is_digit s)
          else None)"

definition scan_frac :: "string \<Rightarrow> (string \<times> string) option" where
  "scan_frac s =
     (case s of
        [] \<Rightarrow> Some ([], [])
      | c # r \<Rightarrow>
          if c = CHR ''.'' then
            (if takeWhile is_digit r = [] then None
             else Some (c # takeWhile is_digit r, dropWhile is_digit r))
          else Some ([], s))"

definition scan_exp :: "string \<Rightarrow> (string \<times> string) option" where
  "scan_exp s =
     (case s of
        [] \<Rightarrow> Some ([], [])
      | c # r \<Rightarrow>
          if c = CHR ''e'' \<or> c = CHR ''E'' then
            (let sg = (if r \<noteq> [] \<and> (hd r = CHR ''+'' \<or> hd r = CHR ''-'') then [hd r] else []);
                 q = drop (length sg) r
             in if takeWhile is_digit q = [] then None
                else Some (c # sg @ takeWhile is_digit q, dropWhile is_digit q))
          else Some ([], s))"

definition scan_number :: "string \<Rightarrow> (string \<times> string) option" where
  "scan_number s =
     (let sg = (if s \<noteq> [] \<and> hd s = CHR ''-'' then ''-'' else [])
      in case scan_int (drop (length sg) s) of
           None \<Rightarrow> None
         | Some (i, r1) \<Rightarrow>
             (case scan_frac r1 of
                None \<Rightarrow> None
              | Some (f, r2) \<Rightarrow>
                  (case scan_exp r2 of
                     None \<Rightarrow> None
                   | Some (e, r3) \<Rightarrow> Some (sg @ i @ f @ e, r3))))"

fun strip_prefix :: "string \<Rightarrow> string \<Rightarrow> string option" where
  "strip_prefix [] s = Some s"
| "strip_prefix (p # ps) [] = None"
| "strip_prefix (p # ps) (c # s) = (if p = c then strip_prefix ps s else None)"

text \<open>
  Recursive descent. The first argument bounds the recursion depth; each call consumes a byte
  before it recurses, so the length of the input is enough.
\<close>

fun parse_value :: "nat \<Rightarrow> string \<Rightarrow> (json \<times> string) option"
  and parse_elems :: "nat \<Rightarrow> string \<Rightarrow> (json list \<times> string) option"
  and parse_members :: "nat \<Rightarrow> string \<Rightarrow> ((string \<times> json) list \<times> string) option"
where
  "parse_value 0 s = None"
| "parse_value (Suc n) s =
     (case skip_ws s of
        [] \<Rightarrow> None
      | c # r \<Rightarrow>
          if c = CHR 0x22 then map_option (\<lambda>(t, q). (JStr t, q)) (unquote r)
          else if c = CHR ''{'' then
            (case strip_prefix ''}'' (skip_ws r) of
               Some q \<Rightarrow> Some (JObj [], q)
             | None \<Rightarrow> map_option (\<lambda>(ms, q). (JObj ms, q)) (parse_members n r))
          else if c = CHR ''['' then
            (case strip_prefix '']'' (skip_ws r) of
               Some q \<Rightarrow> Some (JArr [], q)
             | None \<Rightarrow> map_option (\<lambda>(js, q). (JArr js, q)) (parse_elems n r))
          else if c = CHR ''n'' then map_option (\<lambda>q. (JNull, q)) (strip_prefix ''ull'' r)
          else if c = CHR ''t'' then map_option (\<lambda>q. (JBool True, q)) (strip_prefix ''rue'' r)
          else if c = CHR ''f'' then map_option (\<lambda>q. (JBool False, q)) (strip_prefix ''alse'' r)
          else map_option (\<lambda>(l, q). (JNum l, q)) (scan_number (c # r)))"
| "parse_elems 0 s = None"
| "parse_elems (Suc n) s =
     (case parse_value n s of
        None \<Rightarrow> None
      | Some (v, r) \<Rightarrow>
          (case skip_ws r of
             [] \<Rightarrow> None
           | c # q \<Rightarrow>
               if c = CHR '']'' then Some ([v], q)
               else if c = CHR '','' then map_option (\<lambda>(vs, t). (v # vs, t)) (parse_elems n q)
               else None))"
| "parse_members 0 s = None"
| "parse_members (Suc n) s =
     (case strip_prefix [CHR 0x22] (skip_ws s) of
        None \<Rightarrow> None
      | Some s1 \<Rightarrow>
          (case unquote s1 of
             None \<Rightarrow> None
           | Some (k, s2) \<Rightarrow>
               (case strip_prefix '':'' (skip_ws s2) of
                  None \<Rightarrow> None
                | Some s3 \<Rightarrow>
                    (case parse_value n s3 of
                       None \<Rightarrow> None
                     | Some (v, s4) \<Rightarrow>
                         (case skip_ws s4 of
                            [] \<Rightarrow> None
                          | c # q \<Rightarrow>
                              if c = CHR ''}'' then Some ([(k, v)], q)
                              else if c = CHR '','' then
                                map_option (\<lambda>(ms, t). ((k, v) # ms, t)) (parse_members n q)
                              else None)))))"

text \<open>\<open>Decoder.Decode\<close> reads the first document and ignores what follows; \<open>Unmarshal\<close> does not.\<close>

definition parse_first :: "string \<Rightarrow> json option" where
  "parse_first s = map_option fst (parse_value (2 * length s + 2) s)"

definition parse_all :: "string \<Rightarrow> json option" where
  "parse_all s =
     (case parse_value (2 * length s + 2) s of
        Some (j, r) \<Rightarrow> if skip_ws r = [] then Some j else None
      | None \<Rightarrow> None)"

section \<open>The depth bound is enough\<close>

declare parse_value.simps [simp del] parse_elems.simps [simp del] parse_members.simps [simp del]

lemma skip_ws_le: "length (skip_ws s) \<le> length s"
  by (simp add: skip_ws_def length_dropWhile_le)

lemma strip_prefix_length: "strip_prefix p s = Some r \<Longrightarrow> length s = length p + length r"
  by (induction p s rule: strip_prefix.induct) (auto split: if_splits)

lemma takeWhile_dropWhile_length: "length (takeWhile P s) + length (dropWhile P s) = length s"
  by (metis length_append takeWhile_dropWhile_id)

lemma scan_int_length: "scan_int s = Some (l, r) \<Longrightarrow> l \<noteq> [] \<and> length s = length l + length r"
  using takeWhile_dropWhile_length [of is_digit s]
  by (auto simp: scan_int_def split: list.splits if_splits)

lemma scan_frac_length: "scan_frac s = Some (l, r) \<Longrightarrow> length s = length l + length r"
  using takeWhile_dropWhile_length [of is_digit "tl s"]
  by (auto simp: scan_frac_def split: list.splits if_splits)

lemma scan_exp_length: "scan_exp s = Some (l, r) \<Longrightarrow> length r \<le> length s"
  using length_dropWhile_le [of is_digit "tl s"] length_dropWhile_le [of is_digit "tl (tl s)"]
  by (auto simp: scan_exp_def Let_def drop_Suc split: list.splits if_splits)

lemma scan_number_shorter: "scan_number s = Some (l, r) \<Longrightarrow> length r < length s"
proof -
  assume "scan_number s = Some (l, r)"
  then obtain k i r1 f r2 e where
    "scan_int (drop k s) = Some (i, r1)" "scan_frac r1 = Some (f, r2)" "scan_exp r2 = Some (e, r)"
    by (auto simp: scan_number_def Let_def split: option.splits prod.splits)
  then have "length r1 < length (drop k s)" "length r2 \<le> length r1" "length r \<le> length r2"
    using scan_int_length [of "drop k s" i r1] scan_frac_length [of r1 f r2] scan_exp_length [of r2 e r]
    by auto
  then show ?thesis by simp
qed

lemma skip_ws_Cons: "skip_ws s = c # r \<Longrightarrow> length r < length s"
  using skip_ws_le [of s] by simp

lemma strip_skip_length: "strip_prefix [c] (skip_ws s) = Some r \<Longrightarrow> length r < length s"
  using skip_ws_le [of s] strip_prefix_length [of "[c]" "skip_ws s" r] by simp

lemmas shorter = skip_ws_Cons strip_skip_length unquote_shorter scan_number_shorter strip_prefix_length

lemma parse_shorter:
  "parse_value n s = Some (v, r) \<Longrightarrow> length r < length s"
  "parse_elems n s = Some (vs, r) \<Longrightarrow> length r < length s"
  "parse_members n s = Some (ms, r) \<Longrightarrow> length r < length s"
proof (induction n s and n s and n s arbitrary: v r and vs r and ms r
    rule: parse_value_parse_elems_parse_members.induct)
  case (2 n s)
  then show ?case
    by (fastforce simp: parse_value.simps parse_elems.simps parse_members.simps
        split: list.splits if_splits option.splits dest: shorter)
next
  case (4 n s)
  then show ?case
    by (fastforce simp: parse_value.simps parse_elems.simps parse_members.simps
        split: list.splits if_splits option.splits dest: shorter)
next
  case (6 n s)
  then show ?case
    by (fastforce simp: parse_value.simps parse_elems.simps parse_members.simps
        split: list.splits if_splits option.splits dest: shorter)
qed (auto simp: parse_value.simps parse_elems.simps parse_members.simps)

lemma parse_fuel_all:
  "(\<forall>s. 2 * length s < n \<longrightarrow> parse_value (Suc n) s = parse_value n s) \<and>
   (\<forall>s. 2 * length s + 1 < n \<longrightarrow> parse_elems (Suc n) s = parse_elems n s) \<and>
   (\<forall>s. 2 * length s + 1 < n \<longrightarrow> parse_members (Suc n) s = parse_members n s)"
proof (induction n)
  case (Suc n)
  then have IHv: "\<And>s. 2 * length s < n \<Longrightarrow> parse_value (Suc n) s = parse_value n s"
    and IHe: "\<And>s. 2 * length s + 1 < n \<Longrightarrow> parse_elems (Suc n) s = parse_elems n s"
    and IHm: "\<And>s. 2 * length s + 1 < n \<Longrightarrow> parse_members (Suc n) s = parse_members n s"
    by blast+
  have v: "parse_value (Suc (Suc n)) s = parse_value (Suc n) s" if "2 * length s < Suc n" for s
  proof -
    have "parse_elems (Suc n) r = parse_elems n r" "parse_members (Suc n) r = parse_members n r"
      if "skip_ws s = c # r" for c r
      using skip_ws_Cons [OF that] \<open>2 * length s < Suc n\<close> by (auto intro: IHe IHm)
    then show ?thesis
      by (subst (1 2) parse_value.simps) (auto split: list.splits option.splits)
  qed
  have e: "parse_elems (Suc (Suc n)) s = parse_elems (Suc n) s" if "2 * length s + 1 < Suc n" for s
  proof -
    have "parse_elems (Suc n) q = parse_elems n q"
      if "parse_value n s = Some (w, r)" "skip_ws r = c # q" for w r c q
      using parse_shorter(1) [OF that(1)] skip_ws_Cons [OF that(2)] \<open>2 * length s + 1 < Suc n\<close>
      by (auto intro: IHe)
    with IHv [of s] that show ?thesis
      by (subst (1 2) parse_elems.simps) (auto split: list.splits option.splits)
  qed
  have m: "parse_members (Suc (Suc n)) s = parse_members (Suc n) s" if "2 * length s + 1 < Suc n" for s
  proof -
    have *: "parse_value (Suc n) s3 = parse_value n s3 \<and>
        (\<forall>w s4 c q. parse_value n s3 = Some (w, s4) \<longrightarrow> skip_ws s4 = c # q \<longrightarrow>
           parse_members (Suc n) q = parse_members n q)"
      if "strip_prefix [CHR 0x22] (skip_ws s) = Some s1" "unquote s1 = Some (k, s2)"
        "strip_prefix '':'' (skip_ws s2) = Some s3" for s1 k s2 s3
      using strip_skip_length [OF that(1)] unquote_shorter [OF that(2)] strip_skip_length [OF that(3)]
        \<open>2 * length s + 1 < Suc n\<close>
      by (auto intro!: IHv IHm dest!: parse_shorter(1) skip_ws_Cons)
    then show ?thesis
      by (subst (1 2) parse_members.simps) (auto split: list.splits option.splits dest!: *)
  qed
  from v e m show ?case by blast
qed simp

lemmas parse_fuel = parse_fuel_all [THEN conjunct1, rule_format]

lemma parse_value_fuel: "2 * length s < n \<Longrightarrow> parse_value (n + k) s = parse_value n s"
  by (induction k) (simp_all add: parse_fuel)

section \<open>Round trip\<close>

text \<open>The documents the services write: valid UTF-8 strings and decimal integers.\<close>

inductive plain :: "json \<Rightarrow> bool" where
  plain_null: "plain JNull"
| plain_bool: "plain (JBool b)"
| plain_num: "plain (JNum (Itoa i))"
| plain_str: "valid_utf8 s \<Longrightarrow> plain (JStr s)"
| plain_arr: "(\<And>j. j \<in> set js \<Longrightarrow> plain j) \<Longrightarrow> plain (JArr js)"
| plain_obj: "(\<And>k v. (k, v) \<in> set ms \<Longrightarrow> valid_utf8 k \<and> plain v) \<Longrightarrow> plain (JObj ms)"

inductive_simps plain_simps [simp]: "plain JNull" "plain (JBool b)" "plain (JStr s)" "plain (JObj ms)"

lemma plain_Itoa [simp]: "plain (JNum (Itoa i))"
  by (rule plain_num)

text \<open>What may follow a number without extending it.\<close>

definition stop :: "string \<Rightarrow> bool" where
  "stop r \<longleftrightarrow> r = [] \<or>
     \<not> is_digit (hd r) \<and> hd r \<noteq> CHR ''.'' \<and> hd r \<noteq> CHR ''e'' \<and> hd r \<noteq> CHR ''E''"

lemma stop_simps [simp]:
  "stop []" "stop (CHR '','' # r)" "stop (CHR ''}'' # r)" "stop (CHR '']'' # r)" "stop (CHR 0x0A # r)"
  by (simp_all add: stop_def is_digit_def)

lemma scan_rest_stop: "stop r \<Longrightarrow> scan_frac r = Some ([], r) \<and> scan_exp r = Some ([], r)"
  by (cases r) (auto simp: stop_def scan_frac_def scan_exp_def)

lemma takeWhile_digits: "stop r \<Longrightarrow> takeWhile is_digit (nat_text n @ r) = nat_text n"
  and dropWhile_digits: "stop r \<Longrightarrow> dropWhile is_digit (nat_text n @ r) = r"
  using nat_text_digits [of _ n]
  by (cases r; simp add: takeWhile_append2 dropWhile_append2 stop_def takeWhile_eq_all_conv dropWhile_eq_Nil_conv)+

lemma scan_int_nat_text: "stop r \<Longrightarrow> scan_int (nat_text n @ r) = Some (nat_text n, r)"
proof -
  assume r: "stop r"
  obtain c t where ct: "nat_text n = c # t" by (cases "nat_text n") auto
  show ?thesis
  proof (cases "c = CHR ''0''")
    case True
    with ct nat_text_hd_zero [of n] show ?thesis by (simp add: scan_int_def)
  next
    case False
    with ct hd_nat_text_digit [of n] takeWhile_digits [OF r, of n] dropWhile_digits [OF r, of n]
    show ?thesis by (simp add: scan_int_def)
  qed
qed

lemma scan_number_Itoa: "stop r \<Longrightarrow> scan_number (Itoa i @ r) = Some (Itoa i, r)"
proof -
  assume r: "stop r"
  have "hd (nat_text n @ r) \<noteq> CHR ''-''" for n
    using nat_text_no_minus [of n] by (cases "nat_text n") auto
  with scan_int_nat_text [OF r] scan_rest_stop [OF r] show ?thesis
    by (simp add: scan_number_def Itoa_def)
qed

lemma Itoa_hd: "\<exists>c t. Itoa i = c # t \<and> (is_digit c \<or> c = CHR ''-'')"
  using hd_nat_text_digit by (cases "nat_text (nat i)") (auto simp: Itoa_def, metis list.sel(1))

lemma render_hd:
  assumes "plain j"
  shows "\<exists>c t. render j = c # t \<and> \<not> is_ws c \<and> c \<noteq> CHR '']'' \<and> c \<noteq> CHR ''}''"
  using assms
proof cases
  case (plain_num i)
  then show ?thesis using Itoa_hd [of i] by (auto simp: is_ws_def is_digit_def)
qed (auto simp: quote_def is_ws_def)

lemma skip_ws_id: "\<not> is_ws c \<Longrightarrow> skip_ws (c # t) = c # t"
  by (simp add: skip_ws_def)

lemma skip_ws_render: "plain j \<Longrightarrow> skip_ws (render j @ r) = render j @ r"
  using render_hd [of j] skip_ws_id by fastforce

lemma not_ws [simp]: "\<not> is_ws (CHR 0x22)" "\<not> is_ws (CHR ''['')" "\<not> is_ws (CHR ''{'')"
    "\<not> is_ws (CHR '','')" "\<not> is_ws (CHR '']'')" "\<not> is_ws (CHR ''}'')" "\<not> is_ws (CHR '':'')"
    "\<not> is_ws (CHR ''n'')" "\<not> is_ws (CHR ''t'')" "\<not> is_ws (CHR ''f'')"
  by (simp_all add: is_ws_def)

lemma not_digit:
  "\<not> is_digit (CHR 0x22)" "\<not> is_digit (CHR ''{'')" "\<not> is_digit (CHR ''['')" "\<not> is_digit (CHR ''n'')"
  "\<not> is_digit (CHR ''t'')" "\<not> is_digit (CHR ''f'')" "\<not> is_digit (CHR '' '')" "\<not> is_digit (CHR 0x09)"
  "\<not> is_digit (CHR 0x0A)" "\<not> is_digit (CHR 0x0D)"
  by (simp_all add: is_digit_def)

definition reads_back :: "json \<Rightarrow> bool" where
  "reads_back j \<longleftrightarrow>
     (\<forall>n r. stop r \<longrightarrow> 2 * length (render j) < n \<longrightarrow> parse_value n (render j @ r) = Some (j, r))"

lemma parse_elems_render:
  assumes "\<And>j. j \<in> set js \<Longrightarrow> reads_back j" and "js \<noteq> []"
    and "2 * length (comma_sep (map render js)) + 1 < m"
  shows "parse_elems m (comma_sep (map render js) @ CHR '']'' # r) = Some (js, r)"
  using assms
proof (induction js arbitrary: m)
  case (Cons j js)
  then obtain n where m: "m = Suc n" by (cases m) auto
  show ?case
  proof (cases js)
    case Nil
    with Cons.prems m have "parse_value n (render j @ CHR '']'' # r) = Some (j, CHR '']'' # r)"
      by (simp add: reads_back_def)
    with Nil m show ?thesis by (simp add: parse_elems.simps skip_ws_id)
  next
    case (Cons j2 js2)
    let ?tl = "comma_sep (map render js) @ CHR '']'' # r"
    have "parse_value n (render j @ CHR '','' # ?tl) = Some (j, CHR '','' # ?tl)"
      using Cons.prems Cons m by (simp add: reads_back_def)
    moreover have "parse_elems n ?tl = Some (js, r)"
      using Cons.prems Cons m by (intro Cons.IH) auto
    ultimately show ?thesis using Cons m by (simp add: parse_elems.simps skip_ws_id)
  qed
qed simp

abbreviation render_member :: "string \<times> json \<Rightarrow> string" where
  "render_member \<equiv> \<lambda>(k, v). quote k @ CHR '':'' # render v"

lemma parse_members_render:
  assumes "\<And>k v. (k, v) \<in> set ms \<Longrightarrow> valid_utf8 k \<and> reads_back v" and "ms \<noteq> []"
    and "2 * length (comma_sep (map render_member ms)) + 1 < m"
  shows "parse_members m (comma_sep (map render_member ms) @ CHR ''}'' # r) = Some (ms, r)"
  using assms
proof (induction ms arbitrary: m)
  case (Cons kv ms)
  obtain k v where kv: "kv = (k, v)" by force
  from Cons.prems obtain n where m: "m = Suc n" by (cases m) auto
  have k: "unquote (quote_body k @ CHR 0x22 # q) = Some (k, q)" for q
    using Cons.prems(1) [of k v] kv by (simp add: unquote_quote)
  show ?case
  proof (cases ms)
    case Nil
    with Cons.prems m kv have "parse_value n (render v @ CHR ''}'' # r) = Some (v, CHR ''}'' # r)"
      by (auto simp: reads_back_def quote_def)
    with Nil m kv k show ?thesis by (simp add: parse_members.simps skip_ws_id quote_def)
  next
    case (Cons kv2 ms2)
    let ?tl = "comma_sep (map render_member ms) @ CHR ''}'' # r"
    have "reads_back v" using Cons.prems(1) [of k v] kv by simp
    moreover have "2 * length (render v) < n"
      using Cons.prems(3) Cons m kv by (simp add: quote_def)
    ultimately have "parse_value n (render v @ CHR '','' # ?tl) = Some (v, CHR '','' # ?tl)"
      by (simp add: reads_back_def)
    moreover have "parse_members n ?tl = Some (ms, r)"
      using Cons.prems Cons m kv by (intro Cons.IH) (auto simp: quote_def)
    ultimately show ?thesis using Cons m kv k by (simp add: parse_members.simps skip_ws_id quote_def)
  qed
qed simp

lemma plain_reads_back: "plain j \<Longrightarrow> reads_back j"
proof (induction rule: plain.induct)
  case plain_null
  then show ?case
    by (auto simp: reads_back_def parse_value.simps skip_ws_id numeral_eq_Suc
        dest!: less_imp_Suc_add)
next
  case (plain_bool b)
  then show ?case
    by (auto simp: reads_back_def parse_value.simps skip_ws_id numeral_eq_Suc
        dest!: less_imp_Suc_add)
next
  case (plain_num i)
  show ?case unfolding reads_back_def
  proof (intro allI impI)
    fix n r assume r: "stop r" and "2 * length (render (JNum (Itoa i))) < n"
    then obtain m where n: "n = Suc m" by (cases n) auto
    obtain c t where c: "Itoa i = c # t" "is_digit c \<or> c = CHR ''-''" using Itoa_hd [of i] by auto
    have ne: "c \<noteq> CHR 0x22" "c \<noteq> CHR ''{''" "c \<noteq> CHR ''[''" "c \<noteq> CHR ''n''" "c \<noteq> CHR ''t''" "c \<noteq> CHR ''f''"
      and ws: "\<not> is_ws c"
      using c(2) not_digit by (auto simp: is_ws_def)
    have "skip_ws (Itoa i @ r) = c # t @ r" using c(1) ws by (simp add: skip_ws_id)
    with scan_number_Itoa [OF r, of i] n c(1) ne
    show "parse_value n (render (JNum (Itoa i)) @ r) = Some (JNum (Itoa i), r)"
      by (simp add: parse_value.simps)
  qed
next
  case (plain_str s)
  then show ?case
    by (auto simp: reads_back_def parse_value.simps skip_ws_id quote_def unquote_quote
        dest!: less_imp_Suc_add)
next
  case (plain_arr js)
  show ?case unfolding reads_back_def
  proof (intro allI impI)
    fix n r assume "stop r" and n: "2 * length (render (JArr js)) < n"
    then obtain m where m: "n = Suc m" by (cases n) auto
    show "parse_value n (render (JArr js) @ r) = Some (JArr js, r)"
    proof (cases js)
      case Nil
      with m show ?thesis by (simp add: parse_value.simps skip_ws_id)
    next
      case (Cons j js')
      then have "parse_elems m (comma_sep (map render js) @ CHR '']'' # r) = Some (js, r)"
        using plain_arr n m by (intro parse_elems_render) auto
      moreover have "strip_prefix '']'' (skip_ws (comma_sep (map render js) @ CHR '']'' # r)) = None"
        using render_hd [of j] plain_arr Cons by (cases js') (auto simp: skip_ws_id)
      ultimately show ?thesis using m by (simp add: parse_value.simps skip_ws_id)
    qed
  qed
next
  case (plain_obj ms)
  show ?case unfolding reads_back_def
  proof (intro allI impI)
    fix n r assume "stop r" and n: "2 * length (render (JObj ms)) < n"
    then obtain m where m: "n = Suc m" by (cases n) auto
    show "parse_value n (render (JObj ms) @ r) = Some (JObj ms, r)"
    proof (cases ms)
      case Nil
      with m show ?thesis by (simp add: parse_value.simps skip_ws_id)
    next
      case (Cons kv ms')
      then have "parse_members m (comma_sep (map render_member ms) @ CHR ''}'' # r) = Some (ms, r)"
        using plain_obj n m by (intro parse_members_render) auto
      moreover have "strip_prefix ''}'' (skip_ws (comma_sep (map render_member ms) @ CHR ''}'' # r)) = None"
        using Cons by (cases kv; cases ms') (auto simp: skip_ws_id quote_def)
      ultimately show ?thesis using m by (simp add: parse_value.simps skip_ws_id)
    qed
  qed
qed

lemma parse_value_render:
  "plain j \<Longrightarrow> stop r \<Longrightarrow> 2 * length (render j) < n \<Longrightarrow> parse_value n (render j @ r) = Some (j, r)"
  using plain_reads_back [of j] by (simp add: reads_back_def)

lemma parse_render: "plain j \<Longrightarrow> parse_all (render j) = Some j"
  using parse_value_render [of j "[]" "2 * length (render j) + 2"]
  by (simp add: parse_all_def skip_ws_def)

lemma parse_first_render: "plain j \<Longrightarrow> stop r \<Longrightarrow> parse_first (render j @ r) = Some j"
  using parse_value_render [of j r "2 * length (render j @ r) + 2"]
  by (simp add: parse_first_def)

section \<open>Storing an object into a struct\<close>

text \<open>
  \<open>foldName\<close>: ASCII letters, the long s and the Kelvin sign fold to upper case. These are the only
  runes whose fold is ASCII, and every field name of the services is ASCII.
\<close>

fun fold_name :: "string \<Rightarrow> string" where
  "fold_name [] = []"
| "fold_name (c # s) =
     (if c = CHR 0xC5 \<and> take 1 s = [CHR 0xBF] then CHR ''S'' # fold_name (drop 1 s)
      else if c = CHR 0xE2 \<and> take 2 s = [CHR 0x84, CHR 0xAA] then CHR ''K'' # fold_name (drop 2 s)
      else (if in_rng 97 122 c then char_of (byte c - 32) else c) # fold_name s)"

definition field_for :: "string list \<Rightarrow> string \<Rightarrow> string option" where
  "field_for names k =
     (if k \<in> set names then Some k else find (\<lambda>n. fold_name n = fold_name k) names)"

text \<open>Values into fields: the new value, or \<open>None\<close> for a value of the wrong kind.\<close>

fun put_string :: "json \<Rightarrow> string \<Rightarrow> string option" where
  "put_string (JStr s) old = Some s"
| "put_string JNull old = Some old"
| "put_string _ old = None"

fun put_int :: "json \<Rightarrow> int \<Rightarrow> int option" where
  "put_int (JNum l) old = ParseInt64 l"
| "put_int JNull old = Some old"
| "put_int _ old = None"

text \<open>
  The members in order; an \<open>UnmarshalTypeError\<close> is remembered and the rest is still stored, but
  every caller drops the struct when there was an error, so the first error is the result.
\<close>

fun store_members ::
  "string list \<Rightarrow> (string \<Rightarrow> json \<Rightarrow> 'r \<Rightarrow> 'r option) \<Rightarrow> (string \<times> json) list \<Rightarrow> 'r \<Rightarrow> go_error + 'r" where
  "store_members names put [] r = Inr r"
| "store_members names put ((k, v) # ms) r =
     (case field_for names k of
        None \<Rightarrow> store_members names put ms r
      | Some f \<Rightarrow>
          (case put f v r of
             None \<Rightarrow> Inl (Json_Error ''cannot unmarshal value into struct field'')
           | Some r' \<Rightarrow> store_members names put ms r'))"

fun store_struct ::
  "string list \<Rightarrow> (string \<Rightarrow> json \<Rightarrow> 'r \<Rightarrow> 'r option) \<Rightarrow> json \<Rightarrow> 'r \<Rightarrow> go_error + 'r" where
  "store_struct names put (JObj ms) r = store_members names put ms r"
| "store_struct names put JNull r = Inr r"
| "store_struct names put _ r = Inl (Json_Error ''cannot unmarshal value into struct'')"

definition json_Decode ::
  "string list \<Rightarrow> (string \<Rightarrow> json \<Rightarrow> 'r \<Rightarrow> 'r option) \<Rightarrow> 'r \<Rightarrow> string \<Rightarrow> go_error + 'r" where
  "json_Decode names put zero s =
     (case parse_first s of
        None \<Rightarrow> Inl (Json_Error ''invalid syntax'')
      | Some j \<Rightarrow> store_struct names put j zero)"

definition json_Unmarshal ::
  "string list \<Rightarrow> (string \<Rightarrow> json \<Rightarrow> 'r \<Rightarrow> 'r option) \<Rightarrow> 'r \<Rightarrow> string \<Rightarrow> go_error + 'r" where
  "json_Unmarshal names put zero s =
     (case parse_all s of
        None \<Rightarrow> Inl (Json_Error ''invalid syntax'')
      | Some j \<Rightarrow> store_struct names put j zero)"

lemma json_Unmarshal_render:
  "plain j \<Longrightarrow> json_Unmarshal names put zero (render j) = store_struct names put j zero"
  by (simp add: json_Unmarshal_def parse_render)

lemma put_int_Itoa [simp]: "in_int64 i \<Longrightarrow> put_int (JNum (Itoa i)) old = Some i"
  by (simp add: ParseInt64_Itoa)

section \<open>The types of decoded documents\<close>

text \<open>Every string of a parsed document is valid UTF-8: the decoder replaces the bytes that are not.\<close>

fun strings_valid :: "json \<Rightarrow> bool" where
  "strings_valid (JStr s) = valid_utf8 s"
| "strings_valid (JArr js) = list_all strings_valid js"
| "strings_valid (JObj ms) = list_all (\<lambda>(k, v). valid_utf8 k \<and> strings_valid v) ms"
| "strings_valid _ = True"

lemma parse_strings_valid:
  "parse_value n s = Some (v, r) \<Longrightarrow> strings_valid v"
  "parse_elems n s = Some (vs, r) \<Longrightarrow> list_all strings_valid vs"
  "parse_members n s = Some (ms, r) \<Longrightarrow> list_all (\<lambda>(k, v). valid_utf8 k \<and> strings_valid v) ms"
proof (induction n s and n s and n s arbitrary: v r and vs r and ms r
    rule: parse_value_parse_elems_parse_members.induct)
  case (2 n s)
  then show ?case
    by (fastforce simp: parse_value.simps split: list.splits if_splits option.splits dest: unquote_valid)
next
  case (4 n s)
  then show ?case
    by (fastforce simp: parse_elems.simps split: list.splits if_splits option.splits)
next
  case (6 n s)
  then show ?case
    by (fastforce simp: parse_members.simps split: list.splits if_splits option.splits dest: unquote_valid)
qed (simp_all add: parse_value.simps parse_elems.simps parse_members.simps)

text \<open>What holds of the zero value and is kept by every member stored holds of the decoded struct.\<close>

lemma store_members_inv:
  assumes "\<forall>f v r r'. I r \<longrightarrow> strings_valid v \<longrightarrow> put f v r = Some r' \<longrightarrow> I r'"
  shows "store_members names put ms r = Inr r' \<Longrightarrow> I r \<Longrightarrow>
    list_all (\<lambda>(k, v). valid_utf8 k \<and> strings_valid v) ms \<Longrightarrow> I r'"
proof (induction ms arbitrary: r)
  case (Cons m ms)
  obtain k v where m: "m = (k, v)" by force
  show ?case
  proof (cases "field_for names k")
    case None
    with m Cons show ?thesis by simp
  next
    case (Some f)
    with m Cons.prems obtain r1 where "put f v r = Some r1" "store_members names put ms r1 = Inr r'"
      by (auto split: option.splits)
    with m Cons assms [rule_format, of r v f r1] show ?thesis by simp
  qed
qed simp

lemma json_Decode_inv:
  assumes "json_Decode names put zero s = Inr r" and "I zero"
    and "\<forall>f v r r'. I r \<longrightarrow> strings_valid v \<longrightarrow> put f v r = Some r' \<longrightarrow> I r'"
  shows "I r"
proof -
  from assms(1) obtain j where j: "parse_first s = Some j" "store_struct names put j zero = Inr r"
    by (auto simp: json_Decode_def split: option.splits)
  from j(1) obtain q where "parse_value (2 * length s + 2) s = Some (j, q)"
    by (auto simp: parse_first_def)
  then have v: "strings_valid j" by (rule parse_strings_valid(1))
  show ?thesis
  proof (cases j)
    case (JObj ms)
    with j(2) v have "store_members names put ms zero = Inr r"
      and "list_all (\<lambda>(k, v). valid_utf8 k \<and> strings_valid v) ms" by simp_all
    then show ?thesis using store_members_inv [OF assms(3)] assms(2) by blast
  qed (use j(2) assms(2) in simp_all)
qed

lemma ParseInt64_range: "ParseInt64 l = Some i \<Longrightarrow> in_int64 i"
  by (auto simp: ParseInt64_def Let_def split: if_splits)

lemma put_int_range: "put_int v old = Some i \<Longrightarrow> in_int64 old \<Longrightarrow> in_int64 i"
  by (cases v) (auto dest: ParseInt64_range)

lemma put_string_valid: "put_string v old = Some t \<Longrightarrow> strings_valid v \<Longrightarrow> valid_utf8 old \<Longrightarrow> valid_utf8 t"
  by (cases v) auto

end
