(* ===== verification/InventoryStore.thy ===== *)
theory InventoryStore
  imports Postgres GoJson
begin

text \<open>
  inventory-service's items: the model (\<open>model.go\<close>), the schema's table, and \<open>PostgresStore\<close>
  (\<open>store.go\<close>). The Go interface \<open>Store\<close> is the locale \<open>inventory_store\<close>: its three operations over
  any state, an abstraction to the stock table, and the laws its clients use. The locale is
  interpreted on \<open>PostgresStore\<close> here and on \<open>CachingStore\<close> in the theory of the cache.
\<close>

section \<open>Items\<close>

record item =
  SKU :: string
  Name :: string
  Quantity :: int

text \<open>The table \<open>items\<close>: \<open>sku\<close> is the primary key; a row holds the name and the quantity.\<close>

type_synonym stock = "string \<rightharpoonup> string \<times> int"

text \<open>\<open>quantity INTEGER NOT NULL CHECK (quantity >= 0)\<close>.\<close>

definition stock_ok :: "stock \<Rightarrow> bool" where
  "stock_ok st \<longleftrightarrow> (\<forall>sku n h. st sku = Some (n, h) \<longrightarrow> 0 \<le> h \<and> in_int32 h)"

definition available :: "stock \<Rightarrow> string \<Rightarrow> int" where
  "available st sku = (case st sku of None \<Rightarrow> 0 | Some (n, h) \<Rightarrow> h)"

text \<open>The JSON of an item, for responses and cache entries.\<close>

definition item_json :: "item \<Rightarrow> json" where
  "item_json it =
     JObj [(''sku'', JStr (SKU it)), (''name'', JStr (Name it)), (''quantity'', JNum (Itoa (Quantity it)))]"

definition put_item :: "string \<Rightarrow> json \<Rightarrow> item \<Rightarrow> item option" where
  "put_item f v it =
     (if f = ''sku'' then map_option (\<lambda>x. it\<lparr>SKU := x\<rparr>) (put_string v (SKU it))
      else if f = ''name'' then map_option (\<lambda>x. it\<lparr>Name := x\<rparr>) (put_string v (Name it))
      else map_option (\<lambda>x. it\<lparr>Quantity := x\<rparr>) (put_int v (Quantity it)))"

definition zero_item :: item where
  "zero_item = \<lparr>SKU = [], Name = [], Quantity = 0\<rparr>"

definition unmarshal_item :: "string \<Rightarrow> go_error + item" where
  "unmarshal_item = json_Unmarshal [''sku'', ''name'', ''quantity''] put_item zero_item"

definition item_utf8 :: "item \<Rightarrow> bool" where
  "item_utf8 it \<longleftrightarrow> valid_utf8 (SKU it) \<and> valid_utf8 (Name it) \<and> in_int64 (Quantity it)"

lemma field_for_known [simp]: "k \<in> set names \<Longrightarrow> field_for names k = Some k"
  by (simp add: field_for_def)

lemma plain_item_json [simp]: "item_utf8 it \<Longrightarrow> plain (item_json it)"
  by (auto simp: item_json_def item_utf8_def ascii_def)

lemma store_item_json:
  "in_int64 (Quantity it) \<Longrightarrow>
     store_struct [''sku'', ''name'', ''quantity''] put_item (item_json it) zero_item = Inr it"
  by (simp add: item_json_def put_item_def zero_item_def ParseInt64_Itoa)

lemma unmarshal_item_render: "item_utf8 it \<Longrightarrow> unmarshal_item (render (item_json it)) = Inr it"
  by (simp add: unmarshal_item_def json_Unmarshal_render store_item_json item_utf8_def)

section \<open>SQL of the store\<close>

definition select_item :: "string \<Rightarrow> stock \<Rightarrow> (go_error + item) \<times> stock" where
  "select_item sku t =
     (case t sku of
        None \<Rightarrow> Inl Pgx_ErrNoRows
      | Some (n, h) \<Rightarrow> Inr \<lparr>SKU = sku, Name = n, Quantity = h\<rparr>, t)"

text \<open>Setting a row's quantity, under the type and the check of the column.\<close>

definition set_quantity :: "string \<Rightarrow> string \<Rightarrow> int \<Rightarrow> stock \<Rightarrow> (go_error + item) \<times> stock" where
  "set_quantity sku n h t =
     (if \<not> in_int32 h then (Inl out_of_range, t)
      else if h < 0 then (Inl check_violation, t)
      else (Inr \<lparr>SKU = sku, Name = n, Quantity = h\<rparr>, t(sku \<mapsto> (n, h))))"

definition update_reserve :: "int \<Rightarrow> string \<Rightarrow> stock \<Rightarrow> (go_error + item) \<times> stock" where
  "update_reserve q sku t =
     (if \<not> in_int32 q then (Inl out_of_range, t)
      else case t sku of
             None \<Rightarrow> (Inl Pgx_ErrNoRows, t)
           | Some (n, h) \<Rightarrow>
               if q \<le> h then set_quantity sku n (h - q) t else (Inl Pgx_ErrNoRows, t))"

definition update_restock :: "int \<Rightarrow> string \<Rightarrow> stock \<Rightarrow> (go_error + item) \<times> stock" where
  "update_restock q sku t =
     (if \<not> in_int32 q then (Inl out_of_range, t)
      else case t sku of
             None \<Rightarrow> (Inl Pgx_ErrNoRows, t)
           | Some (n, h) \<Rightarrow> set_quantity sku n (h + q) t)"

section \<open>PostgresStore\<close>

definition pg_GetItem :: "string \<Rightarrow> stock pg \<Rightarrow> (go_error + item) \<times> stock pg" where
  "pg_GetItem sku db =
     (case pg_query (select_item sku) db of
        (Inl e, db') \<Rightarrow>
          (if errors_Is e Pgx_ErrNoRows then Inl Inventory_ErrNotFound else Inl (Wrapped ''get item'' e), db')
      | (Inr it, db') \<Rightarrow> (Inr it, db'))"

definition pg_ReserveStock :: "string \<Rightarrow> int \<Rightarrow> stock pg \<Rightarrow> (go_error + item) \<times> stock pg" where
  "pg_ReserveStock sku q db =
     (case pg_query (update_reserve q sku) db of
        (Inl e, db') \<Rightarrow>
          if errors_Is e Pgx_ErrNoRows then
            (case pg_GetItem sku db' of
               (Inl e', db'') \<Rightarrow>
                 (if errors_Is e' Inventory_ErrNotFound then Inl Inventory_ErrNotFound
                  else Inl Inventory_ErrInsufficientStock, db'')
             | (Inr _, db'') \<Rightarrow> (Inl Inventory_ErrInsufficientStock, db''))
          else (Inl (Wrapped ''reserve stock'' e), db')
      | (Inr it, db') \<Rightarrow> (Inr it, db'))"

definition pg_RestockItem :: "string \<Rightarrow> int \<Rightarrow> stock pg \<Rightarrow> (go_error + item) \<times> stock pg" where
  "pg_RestockItem sku q db =
     (case pg_query (update_restock q sku) db of
        (Inl e, db') \<Rightarrow>
          (if errors_Is e Pgx_ErrNoRows then Inl Inventory_ErrNotFound
           else Inl (Wrapped ''restock item'' e), db')
      | (Inr it, db') \<Rightarrow> (Inr it, db'))"

lemmas [op_defs] = pg_GetItem_def pg_ReserveStock_def pg_RestockItem_def

section \<open>The Store interface\<close>

text \<open>A row's quantity moves by \<open>d\<close> and the call returns the new row.\<close>

definition moved :: "string \<Rightarrow> int \<Rightarrow> stock \<Rightarrow> stock \<Rightarrow> item \<Rightarrow> bool" where
  "moved sku d st st' it \<longleftrightarrow>
     (\<exists>n h. st sku = Some (n, h) \<and> 0 \<le> h + d \<and> in_int32 (h + d)
        \<and> it = \<lparr>SKU = sku, Name = n, Quantity = h + d\<rparr> \<and> st' = st(sku \<mapsto> (n, h + d)))"

lemma moved_stock_ok [inv_intros]: "moved sku d st st' it \<Longrightarrow> stock_ok st \<Longrightarrow> stock_ok st'"
  by (auto simp: moved_def stock_ok_def split: if_splits)

lemma moved_available:
  "moved sku d st st' it \<Longrightarrow> available st' k = available st k + (if k = sku then d else 0)"
  by (auto simp: moved_def available_def)

lemma available_nonneg: "stock_ok st \<Longrightarrow> 0 \<le> available st k"
  by (auto simp: stock_ok_def available_def split: option.splits)

locale inventory_store =
  fixes getItem :: "string \<Rightarrow> 's \<Rightarrow> (go_error + item) \<times> 's"
    and reserveStock :: "string \<Rightarrow> int \<Rightarrow> 's \<Rightarrow> (go_error + item) \<times> 's"
    and restockItem :: "string \<Rightarrow> int \<Rightarrow> 's \<Rightarrow> (go_error + item) \<times> 's"
    and stock :: "'s \<Rightarrow> stock"
  assumes get_frame: "stock (snd (getItem sku s)) = stock s"
    and get_missing: "getItem sku s = (Inl e, s') \<Longrightarrow> errors_Is e Inventory_ErrNotFound \<Longrightarrow> stock s sku = None"
    and reserve_ok: "reserveStock sku q s = (Inr it, s') \<Longrightarrow> moved sku (- q) (stock s) (stock s') it"
    and reserve_failed: "reserveStock sku q s = (Inl e, s') \<Longrightarrow>
      stock s' = stock s \<or> (\<exists>it. moved sku (- q) (stock s) (stock s') it)"
    and reserve_refused: "reserveStock sku q s = (Inl e, s') \<Longrightarrow>
      errors_Is e Inventory_ErrNotFound \<or> errors_Is e Inventory_ErrInsufficientStock \<Longrightarrow> stock s' = stock s"
    and reserve_missing: "reserveStock sku q s = (Inl e, s') \<Longrightarrow>
      errors_Is e Inventory_ErrNotFound \<Longrightarrow> stock s sku = None"
    and reserve_insufficient: "reserveStock sku q s = (Inl e, s') \<Longrightarrow>
      errors_Is e Inventory_ErrInsufficientStock \<Longrightarrow> stock s sku = Some (n, h) \<Longrightarrow> h < q"
    and restock_ok: "restockItem sku q s = (Inr it, s') \<Longrightarrow> moved sku q (stock s) (stock s') it"
    and restock_failed: "restockItem sku q s = (Inl e, s') \<Longrightarrow>
      stock s' = stock s \<or> (\<exists>it. moved sku q (stock s) (stock s') it)"
    and restock_missing: "restockItem sku q s = (Inl e, s') \<Longrightarrow>
      errors_Is e Inventory_ErrNotFound \<Longrightarrow> stock s sku = None \<and> stock s' = stock s"

text \<open>A store in a state from which an error means that nothing was written.\<close>

locale definite_inventory_store = inventory_store +
  fixes definite :: "'s \<Rightarrow> bool"
  assumes definite_get: "definite s \<Longrightarrow> definite (snd (getItem sku s))"
    and definite_reserve: "definite s \<Longrightarrow> definite (snd (reserveStock sku q s))"
    and definite_restock: "definite s \<Longrightarrow> definite (snd (restockItem sku q s))"
    and reserve_error: "definite s \<Longrightarrow> reserveStock sku q s = (Inl e, s') \<Longrightarrow> stock s' = stock s"
    and restock_error: "definite s \<Longrightarrow> restockItem sku q s = (Inl e, s') \<Longrightarrow> stock s' = stock s"

section \<open>Sequences of store calls\<close>

datatype store_op = Op_Get string | Op_Reserve string int | Op_Restock string int

fun run_op ::
  "(string \<Rightarrow> 's \<Rightarrow> (go_error + item) \<times> 's) \<Rightarrow> (string \<Rightarrow> int \<Rightarrow> 's \<Rightarrow> (go_error + item) \<times> 's) \<Rightarrow>
   (string \<Rightarrow> int \<Rightarrow> 's \<Rightarrow> (go_error + item) \<times> 's) \<Rightarrow> store_op \<Rightarrow> 's \<Rightarrow> (go_error + item) \<times> 's" where
  "run_op get res rst (Op_Get sku) s = get sku s"
| "run_op get res rst (Op_Reserve sku q) s = res sku q s"
| "run_op get res rst (Op_Restock sku q) s = rst sku q s"

fun run_ops ::
  "(string \<Rightarrow> 's \<Rightarrow> (go_error + item) \<times> 's) \<Rightarrow> (string \<Rightarrow> int \<Rightarrow> 's \<Rightarrow> (go_error + item) \<times> 's) \<Rightarrow>
   (string \<Rightarrow> int \<Rightarrow> 's \<Rightarrow> (go_error + item) \<times> 's) \<Rightarrow> store_op list \<Rightarrow> 's \<Rightarrow>
   (store_op \<times> (go_error + item)) list \<times> 's" where
  "run_ops get res rst [] s = ([], s)"
| "run_ops get res rst (x # xs) s =
     (let (r, s') = run_op get res rst x s; (rs, s'') = run_ops get res rst xs s'
      in ((x, r) # rs, s''))"

text \<open>Units the log says were handed out, and units it says may, or did, come in.\<close>

fun sold_by :: "string \<Rightarrow> store_op \<times> (go_error + item) \<Rightarrow> int" where
  "sold_by sku (Op_Reserve k q, Inr it) = (if k = sku then q else 0)"
| "sold_by sku _ = 0"

fun restock_asked_by :: "string \<Rightarrow> store_op \<times> (go_error + item) \<Rightarrow> int" where
  "restock_asked_by sku (Op_Restock k q, r) = (if k = sku then q else 0)"
| "restock_asked_by sku _ = 0"

fun restocked_by :: "string \<Rightarrow> store_op \<times> (go_error + item) \<Rightarrow> int" where
  "restocked_by sku (Op_Restock k q, Inr it) = (if k = sku then q else 0)"
| "restocked_by sku _ = 0"

abbreviation total :: "('a \<Rightarrow> int) \<Rightarrow> 'a list \<Rightarrow> int" where
  "total f xs \<equiv> sum_list (map f xs)"

fun positive_op :: "store_op \<Rightarrow> bool" where
  "positive_op (Op_Get sku) = True"
| "positive_op (Op_Reserve sku q) = (0 < q)"
| "positive_op (Op_Restock sku q) = (0 < q)"

context inventory_store begin

lemma run_op_stock:
  assumes "run_op getItem reserveStock restockItem x s = (r, s')" and "positive_op x"
  shows "stock_ok (stock s) \<Longrightarrow> stock_ok (stock s')"
    and "available (stock s') k + sold_by k (x, r) \<le> available (stock s) k + restock_asked_by k (x, r)"
proof -
  show "stock_ok (stock s')" if "stock_ok (stock s)"
  proof (cases x)
    case (Op_Get sku)
    with assms that get_frame [of sku s] show ?thesis by simp
  next
    case (Op_Reserve sku q)
    with assms that show ?thesis
      by (cases r) (auto dest!: reserve_ok reserve_failed intro: moved_stock_ok)
  next
    case (Op_Restock sku q)
    with assms that show ?thesis
      by (cases r) (auto dest!: restock_ok restock_failed intro: moved_stock_ok)
  qed
  show "available (stock s') k + sold_by k (x, r) \<le> available (stock s) k + restock_asked_by k (x, r)"
  proof (cases x)
    case (Op_Get sku)
    with assms get_frame [of sku s] show ?thesis by simp
  next
    case (Op_Reserve sku q)
    with assms show ?thesis
      by (cases r) (auto dest!: reserve_ok reserve_failed simp: moved_available)
  next
    case (Op_Restock sku q)
    with assms show ?thesis
      by (cases r) (auto dest!: restock_ok restock_failed simp: moved_available)
  qed
qed

text \<open>No sequence of calls hands out more than was there and came in, whatever fails.\<close>

lemma run_ops_bounded:
  assumes "run_ops getItem reserveStock restockItem xs s = (rs, s')" and "list_all positive_op xs"
    and "stock_ok (stock s)"
  shows "stock_ok (stock s') \<and>
    available (stock s') k + total (sold_by k) rs \<le> available (stock s) k + total (restock_asked_by k) rs"
  using assms
proof (induction xs arbitrary: s rs)
  case (Cons x xs)
  obtain r s1 where x: "run_op getItem reserveStock restockItem x s = (r, s1)" by force
  obtain rs1 s2 where xs: "run_ops getItem reserveStock restockItem xs s1 = (rs1, s2)" by force
  from x xs Cons.prems have rs: "rs = (x, r) # rs1" "s' = s2" by auto
  have "positive_op x" using Cons.prems by simp
  note step = run_op_stock [OF x this]
  have "stock_ok (stock s')" "available (stock s') k + total (sold_by k) rs1 \<le>
      available (stock s1) k + total (restock_asked_by k) rs1"
    using Cons.IH [of s1 rs1] xs rs step(1) Cons.prems by auto
  with step(2) [of k] rs show ?case by simp
qed simp

end

context definite_inventory_store begin

lemma run_op_exact:
  assumes "run_op getItem reserveStock restockItem x s = (r, s')" and "definite s"
  shows "definite s'"
    and "available (stock s') k + sold_by k (x, r) = available (stock s) k + restocked_by k (x, r)"
proof -
  show "definite s'"
    using assms definite_get [of s] definite_reserve [of s] definite_restock [of s]
    by (cases x) (auto, metis snd_conv, metis snd_conv, metis snd_conv)
  show "available (stock s') k + sold_by k (x, r) = available (stock s) k + restocked_by k (x, r)"
  proof (cases x)
    case (Op_Get sku)
    with assms get_frame [of sku s] show ?thesis by simp
  next
    case (Op_Reserve sku q)
    with assms show ?thesis
      by (cases r) (auto dest!: reserve_ok reserve_error simp: moved_available)
  next
    case (Op_Restock sku q)
    with assms show ?thesis
      by (cases r) (auto dest!: restock_ok restock_error simp: moved_available)
  qed
qed

text \<open>Where no reply of a write is lost, the ledger balances.\<close>

lemma run_ops_exact:
  assumes "run_ops getItem reserveStock restockItem xs s = (rs, s')" and "definite s"
  shows "available (stock s') k + total (sold_by k) rs = available (stock s) k + total (restocked_by k) rs"
  using assms
proof (induction xs arbitrary: s rs)
  case (Cons x xs)
  obtain r s1 where x: "run_op getItem reserveStock restockItem x s = (r, s1)" by force
  obtain rs1 s2 where xs: "run_ops getItem reserveStock restockItem xs s1 = (rs1, s2)" by force
  from x xs Cons.prems have rs: "rs = (x, r) # rs1" "s' = s2" by auto
  note step = run_op_exact [OF x Cons.prems(2)]
  from Cons.IH [of s1 rs1] xs rs step(1) have
    "available (stock s') k + total (sold_by k) rs1 = available (stock s1) k + total (restocked_by k) rs1"
    by simp
  with step(2) [of k] rs show ?case by simp
qed simp

end

section \<open>PostgresStore keeps the laws\<close>

lemma select_item_simps [simp]:
  "snd (select_item sku t) = t"
  "select_item sku t = (Inl e, t') \<longleftrightarrow> t' = t \<and> t sku = None \<and> e = Pgx_ErrNoRows"
  "select_item sku t = (Inr it, t') \<longleftrightarrow>
     t' = t \<and> (\<exists>n h. t sku = Some (n, h) \<and> it = \<lparr>SKU = sku, Name = n, Quantity = h\<rparr>)"
  by (auto simp: select_item_def split: option.splits)

lemma set_quantity_simps:
  "set_quantity sku n h t = (Inr it, t') \<longleftrightarrow>
     in_int32 h \<and> 0 \<le> h \<and> it = \<lparr>SKU = sku, Name = n, Quantity = h\<rparr> \<and> t' = t(sku \<mapsto> (n, h))"
  "set_quantity sku n h t = (Inl e, t') \<longleftrightarrow>
     t' = t \<and> (\<not> in_int32 h \<and> e = out_of_range \<or> in_int32 h \<and> h < 0 \<and> e = check_violation)"
  by (auto simp: set_quantity_def)

lemma update_reserve_Inr:
  "update_reserve q sku t = (Inr it, t') \<Longrightarrow> moved sku (- q) t t' it"
  by (auto simp: update_reserve_def moved_def set_quantity_simps split: if_splits option.splits)

lemma update_reserve_Inl:
  "update_reserve q sku t = (Inl e, t') \<Longrightarrow> t' = t"
  by (auto simp: update_reserve_def set_quantity_simps split: if_splits option.splits)

lemma update_reserve_ErrNoRows:
  "update_reserve q sku t = (Inl Pgx_ErrNoRows, t') \<Longrightarrow> t sku = Some (n, h) \<Longrightarrow> h < q"
  by (auto simp: update_reserve_def set_quantity_simps split: if_splits option.splits)

lemma update_reserve_errors:
  "update_reserve q sku t = (Inl e, t') \<Longrightarrow> e = Pgx_ErrNoRows \<or> e = out_of_range \<or> e = check_violation"
  by (auto simp: update_reserve_def set_quantity_simps split: if_splits option.splits)

lemma update_reserve_moves:
  "snd (update_reserve q sku t) = t \<or> (\<exists>it. moved sku (- q) t (snd (update_reserve q sku t)) it)"
  by (cases "update_reserve q sku t"; cases "fst (update_reserve q sku t)")
    (auto dest: update_reserve_Inr update_reserve_Inl)

lemma update_restock_Inr:
  "update_restock q sku t = (Inr it, t') \<Longrightarrow> moved sku q t t' it"
  by (auto simp: update_restock_def moved_def set_quantity_simps split: if_splits option.splits)

lemma update_restock_Inl:
  "update_restock q sku t = (Inl e, t') \<Longrightarrow>
     t' = t \<and> (e = Pgx_ErrNoRows \<and> t sku = None \<or> e = out_of_range \<or> e = check_violation)"
  by (auto simp: update_restock_def set_quantity_simps split: if_splits option.splits)

lemma update_restock_moves:
  "snd (update_restock q sku t) = t \<or> (\<exists>it. moved sku q t (snd (update_restock q sku t)) it)"
  by (cases "update_restock q sku t"; cases "fst (update_restock q sku t)")
    (auto dest: update_restock_Inr update_restock_Inl)

lemma snd_pg_GetItem: "snd (pg_GetItem sku db) = snd (pg_query (select_item sku) db)"
  by (auto simp: pg_GetItem_def split: prod.splits sum.splits)

lemma pg_GetItem_tables [simp]: "tables (snd (pg_GetItem sku db)) = tables db"
  using pg_query_tables [of "select_item sku" db] by (auto simp: snd_pg_GetItem)

lemma pg_GetItem_no_lost_reply [simp]: "no_lost_reply db \<Longrightarrow> no_lost_reply (snd (pg_GetItem sku db))"
  by (simp add: snd_pg_GetItem)

lemma pg_GetItem_Inr:
  "pg_GetItem sku db = (Inr it, db') \<Longrightarrow>
     \<exists>n h. tables db sku = Some (n, h) \<and> it = \<lparr>SKU = sku, Name = n, Quantity = h\<rparr>"
  by (auto simp: pg_GetItem_def split: prod.splits sum.splits if_splits dest!: pg_query_Inr)

lemma pg_GetItem_missing:
  "pg_GetItem sku db = (Inl e, db') \<Longrightarrow> errors_Is e Inventory_ErrNotFound \<Longrightarrow> tables db sku = None"
  by (auto simp: pg_GetItem_def split: prod.splits sum.splits if_splits dest!: pg_query_Inl)

text \<open>The three ways a reservation ends.\<close>

lemma pg_ReserveStock_cases:
  assumes "pg_ReserveStock sku q db = (r, db')"
  obtains (ok) it where "r = Inr it" "update_reserve q sku (tables db) = (Inr it, tables db')"
  | (refused) e where "r = Inl e" "e = Inventory_ErrNotFound \<and> tables db sku = None \<or> e = Inventory_ErrInsufficientStock"
      "update_reserve q sku (tables db) = (Inl Pgx_ErrNoRows, tables db)" "tables db' = tables db"
  | (failed) e where "r = Inl (Wrapped ''reserve stock'' e)"
      "tables db' = tables db \<or> tables db' = snd (update_reserve q sku (tables db))"
      "e = connection_lost \<or> e = out_of_range \<or> e = check_violation"
proof (cases "pg_query (update_reserve q sku) db")
  case (Pair r1 db1)
  show thesis
  proof (cases r1)
    case (Inr it)
    with Pair assms pg_query_Inr [of "update_reserve q sku" db it db1] show thesis
      by (intro ok) (auto simp: pg_ReserveStock_def)
  next
    case (Inl e)
    note q = pg_query_Inl [OF Pair [unfolded Inl]]
    show thesis
    proof (cases "e = Pgx_ErrNoRows")
      case True
      with q have none: "update_reserve q sku (tables db) = (Inl Pgx_ErrNoRows, tables db)"
        and t: "tables db1 = tables db" by (auto dest: update_reserve_Inl)
      obtain r2 db2 where g: "pg_GetItem sku db1 = (r2, db2)" by force
      then have t2: "tables db2 = tables db1" using pg_GetItem_tables [of sku db1] by simp
      from g Pair Inl True assms have "db' = db2"
        and "r = Inl Inventory_ErrNotFound \<and> (\<exists>e'. r2 = Inl e' \<and> errors_Is e' Inventory_ErrNotFound)
          \<or> r = Inl Inventory_ErrInsufficientStock"
        by (auto simp: pg_ReserveStock_def split: sum.splits if_splits)
      with none t t2 g pg_GetItem_missing [of sku db1] show thesis
        by (elim disjE) (auto intro!: refused)
    next
      case False
      with q have "e = connection_lost \<or> e = out_of_range \<or> e = check_violation"
        by (auto dest: update_reserve_errors)
      with False Pair Inl assms q show thesis
        by (intro failed [of e]) (auto simp: pg_ReserveStock_def)
    qed
  qed
qed

lemma snd_pg_ReserveStock:
  "pg_query (update_reserve q sku) db = (r, db1) \<Longrightarrow>
     snd (pg_ReserveStock sku q db) = db1 \<or> snd (pg_ReserveStock sku q db) = snd (pg_GetItem sku db1)"
  by (auto simp: pg_ReserveStock_def split: sum.splits prod.splits)

lemma pg_ReserveStock_no_lost_reply:
  "no_lost_reply db \<Longrightarrow> no_lost_reply (snd (pg_ReserveStock sku q db))"
  using snd_pg_ReserveStock [of q sku db "fst (pg_query (update_reserve q sku) db)"
      "snd (pg_query (update_reserve q sku) db)"] by auto

lemma snd_pg_RestockItem: "snd (pg_RestockItem sku q db) = snd (pg_query (update_restock q sku) db)"
  by (auto simp: pg_RestockItem_def split: prod.splits sum.splits)

lemma pg_ReserveStock_error:
  assumes "pg_ReserveStock sku q db = (Inl e, db')" and "no_lost_reply db"
  shows "tables db' = tables db"
  using assms(1)
proof (cases rule: pg_ReserveStock_cases)
  case (failed e1)
  obtain r db1 where q: "pg_query (update_reserve q sku) db = (r, db1)" by force
  with assms(1) failed(1) have r: "r = Inl e1" and d: "db' = db1"
    by (auto simp: pg_ReserveStock_def split: sum.splits if_splits prod.splits)
  from pg_query_Inl_no_lost_reply [OF q [unfolded r] assms(2)] d show ?thesis
    by (auto dest: update_reserve_Inl)
qed auto

lemma pg_RestockItem_Inr:
  "pg_RestockItem sku q db = (Inr it, db') \<Longrightarrow> moved sku q (tables db) (tables db') it"
  by (auto simp: pg_RestockItem_def split: prod.splits sum.splits if_splits
      dest!: pg_query_Inr update_restock_Inr)

lemma pg_RestockItem_Inl:
  assumes "pg_RestockItem sku q db = (Inl e, db')"
  shows "tables db' = tables db \<or> (\<exists>it. moved sku q (tables db) (tables db') it)"
    and "no_lost_reply db \<Longrightarrow> tables db' = tables db"
    and "errors_Is e Inventory_ErrNotFound \<Longrightarrow> tables db sku = None \<and> tables db' = tables db"
proof -
  obtain e1 where q: "pg_query (update_restock q sku) db = (Inl e1, db')"
    and e: "e = (if errors_Is e1 Pgx_ErrNoRows then Inventory_ErrNotFound else Wrapped ''restock item'' e1)"
    using assms by (auto simp: pg_RestockItem_def split: prod.splits sum.splits if_splits)
  note Q = pg_query_Inl [OF q]
  show "tables db' = tables db \<or> (\<exists>it. moved sku q (tables db) (tables db') it)"
    using Q update_restock_moves [of q sku "tables db"] by (auto dest: update_restock_Inl)
  show "tables db' = tables db" if "no_lost_reply db"
    using pg_query_Inl_no_lost_reply [OF q that] by (auto dest: update_restock_Inl)
  show "tables db sku = None \<and> tables db' = tables db" if "errors_Is e Inventory_ErrNotFound"
  proof -
    have "e1 \<noteq> connection_lost" using that e by auto
    with Q have u: "update_restock q sku (tables db) = (Inl e1, tables db')" by simp
    from update_restock_Inl [OF u] that e show ?thesis by auto
  qed
qed

interpretation pgs: definite_inventory_store pg_GetItem pg_ReserveStock pg_RestockItem tables no_lost_reply
proof unfold_locales
  fix sku q and s s' :: "stock pg" and e and it and n h
  show "tables (snd (pg_GetItem sku s)) = tables s" by simp
  show "pg_GetItem sku s = (Inl e, s') \<Longrightarrow> errors_Is e Inventory_ErrNotFound \<Longrightarrow> tables s sku = None"
    by (rule pg_GetItem_missing)
  show "pg_ReserveStock sku q s = (Inr it, s') \<Longrightarrow> moved sku (- q) (tables s) (tables s') it"
    by (erule pg_ReserveStock_cases) (auto dest: update_reserve_Inr)
  show "pg_ReserveStock sku q s = (Inl e, s') \<Longrightarrow>
      tables s' = tables s \<or> (\<exists>it. moved sku (- q) (tables s) (tables s') it)"
    using update_reserve_moves [of q sku "tables s"] by (elim pg_ReserveStock_cases) auto
  show "pg_ReserveStock sku q s = (Inl e, s') \<Longrightarrow>
      errors_Is e Inventory_ErrNotFound \<or> errors_Is e Inventory_ErrInsufficientStock \<Longrightarrow> tables s' = tables s"
    by (erule pg_ReserveStock_cases) auto
  show "pg_ReserveStock sku q s = (Inl e, s') \<Longrightarrow> errors_Is e Inventory_ErrNotFound \<Longrightarrow> tables s sku = None"
    by (erule pg_ReserveStock_cases) auto
  show "pg_ReserveStock sku q s = (Inl e, s') \<Longrightarrow> errors_Is e Inventory_ErrInsufficientStock \<Longrightarrow>
      tables s sku = Some (n, h) \<Longrightarrow> h < q"
    by (erule pg_ReserveStock_cases) (auto dest: update_reserve_ErrNoRows)
  show "pg_RestockItem sku q s = (Inr it, s') \<Longrightarrow> moved sku q (tables s) (tables s') it"
    by (rule pg_RestockItem_Inr)
  show "pg_RestockItem sku q s = (Inl e, s') \<Longrightarrow>
      tables s' = tables s \<or> (\<exists>it. moved sku q (tables s) (tables s') it)"
    by (rule pg_RestockItem_Inl)
  show "pg_RestockItem sku q s = (Inl e, s') \<Longrightarrow> errors_Is e Inventory_ErrNotFound \<Longrightarrow>
      tables s sku = None \<and> tables s' = tables s"
    by (rule pg_RestockItem_Inl)
  show "no_lost_reply s \<Longrightarrow> no_lost_reply (snd (pg_GetItem sku s))" by simp
  show "no_lost_reply s \<Longrightarrow> no_lost_reply (snd (pg_ReserveStock sku q s))"
    by (rule pg_ReserveStock_no_lost_reply)
  show "no_lost_reply s \<Longrightarrow> no_lost_reply (snd (pg_RestockItem sku q s))"
    by (simp add: snd_pg_RestockItem)
  show "no_lost_reply s \<Longrightarrow> pg_ReserveStock sku q s = (Inl e, s') \<Longrightarrow> tables s' = tables s"
    by (rule pg_ReserveStock_error)
  show "no_lost_reply s \<Longrightarrow> pg_RestockItem sku q s = (Inl e, s') \<Longrightarrow> tables s' = tables s"
    by (rule pg_RestockItem_Inl)
qed

end
