(* ===== verification/InventoryCache.thy ===== *)
theory InventoryCache
  imports InventoryStore
begin

text \<open>
  inventory-service's \<open>CachingStore\<close> (\<open>caching_store.go\<close>): the cache-aside layer over a \<open>Store\<close>. The
  Redis client is a parameter. The locale \<open>cached_store\<close> proves, for any client whatsoever, that the
  wrapper is again a \<open>Store\<close>; what it returns from the cache is stated under \<open>redis_contract\<close>,
  Redis's documented behaviour. The last section splits the operations at their round trips, to
  interleave requests.
\<close>

section \<open>The client and the state\<close>

record 'r redis_client =
  redis_Get :: "string \<Rightarrow> 'r \<Rightarrow> (go_error + string) \<times> 'r"
  redis_Set :: "string \<Rightarrow> string \<Rightarrow> int \<Rightarrow> 'r \<Rightarrow> 'r"
  redis_Del :: "string \<Rightarrow> 'r \<Rightarrow> 'r"

record ('s, 'r) caching =
  cs_next :: 's
  cs_redis :: 'r
  cs_effects :: "effect list"

text \<open>\<open>30 * time.Second\<close>, in nanoseconds.\<close>

definition cacheTTL :: int where
  "cacheTTL = 30 * 1000000000"

definition cacheKey :: "string \<Rightarrow> string" where
  "cacheKey sku = ''item:'' @ sku"

definition cacheResult :: "string \<Rightarrow> ('s, 'r) caching \<Rightarrow> ('s, 'r) caching" where
  "cacheResult label c =
     c\<lparr>cs_effects := cs_effects c @ [Counter_Inc ''inventory_item_cache_result_total'' [label]]\<rparr>"

section \<open>Operations\<close>

text \<open>The JSON of an item has strings and an integer only, so \<open>json.Marshal\<close> does not fail.\<close>

definition cache_set :: "'r redis_client \<Rightarrow> string \<Rightarrow> item \<Rightarrow> ('s, 'r) caching \<Rightarrow> ('s, 'r) caching" where
  "cache_set redis sku it c =
     (let payload = render (item_json it)
      in c\<lparr>cs_redis := redis_Set redis (cacheKey sku) payload cacheTTL (cs_redis c)\<rparr>)"

definition caching_GetItem ::
  "'r redis_client \<Rightarrow> (string \<Rightarrow> 's \<Rightarrow> (go_error + item) \<times> 's) \<Rightarrow>
   string \<Rightarrow> ('s, 'r) caching \<Rightarrow> (go_error + item) \<times> ('s, 'r) caching" where
  "caching_GetItem redis getItem sku c =
     (let (reply, r) = redis_Get redis (cacheKey sku) (cs_redis c);
          c1 = c\<lparr>cs_redis := r\<rparr>;
          miss = (\<lambda>_ :: go_error.
            let c2 = cacheResult ''miss'' c1;
                (res, s) = getItem sku (cs_next c2);
                c3 = c2\<lparr>cs_next := s\<rparr>
            in case res of
                 Inl e \<Rightarrow> (Inl e, c3)
               | Inr it \<Rightarrow> (Inr it, cache_set redis sku it c3))
      in case reply of
           Inl e \<Rightarrow> miss e
         | Inr cached \<Rightarrow>
             (case unmarshal_item cached of
                Inl e \<Rightarrow> miss e
              | Inr it \<Rightarrow> (Inr it, cacheResult ''hit'' c1)))"

definition caching_ReserveStock ::
  "'r redis_client \<Rightarrow> (string \<Rightarrow> int \<Rightarrow> 's \<Rightarrow> (go_error + item) \<times> 's) \<Rightarrow>
   string \<Rightarrow> int \<Rightarrow> ('s, 'r) caching \<Rightarrow> (go_error + item) \<times> ('s, 'r) caching" where
  "caching_ReserveStock redis reserveStock sku q c =
     (let (res, s) = reserveStock sku q (cs_next c);
          c1 = c\<lparr>cs_next := s\<rparr>
      in case res of
           Inl e \<Rightarrow> (Inl e, c1)
         | Inr it \<Rightarrow> (Inr it, c1\<lparr>cs_redis := redis_Del redis (cacheKey sku) (cs_redis c1)\<rparr>))"

definition caching_RestockItem ::
  "'r redis_client \<Rightarrow> (string \<Rightarrow> int \<Rightarrow> 's \<Rightarrow> (go_error + item) \<times> 's) \<Rightarrow>
   string \<Rightarrow> int \<Rightarrow> ('s, 'r) caching \<Rightarrow> (go_error + item) \<times> ('s, 'r) caching" where
  "caching_RestockItem redis restockItem sku q c =
     (let (res, s) = restockItem sku q (cs_next c);
          c1 = c\<lparr>cs_next := s\<rparr>
      in case res of
           Inl e \<Rightarrow> (Inl e, c1)
         | Inr it \<Rightarrow> (Inr it, c1\<lparr>cs_redis := redis_Del redis (cacheKey sku) (cs_redis c1)\<rparr>))"

lemma cacheKey_eq [simp]: "cacheKey a = cacheKey b \<longleftrightarrow> a = b"
  by (simp add: cacheKey_def)

lemma cache_simps [simp]:
  "cs_next (cacheResult l c) = cs_next c" "cs_redis (cacheResult l c) = cs_redis c"
  "cs_next (cache_set redis sku it c) = cs_next c"
  "cs_redis (cache_set redis sku it c) = redis_Set redis (cacheKey sku) (render (item_json it)) cacheTTL (cs_redis c)"
  by (simp_all add: cacheResult_def cache_set_def Let_def)

text \<open>A read is a hit, which leaves the store alone, or runs the store's read.\<close>

lemma caching_GetItem_cases:
  assumes "caching_GetItem redis getItem sku c = (res, c')"
  obtains (hit) cached it where "fst (redis_Get redis (cacheKey sku) (cs_redis c)) = Inr cached"
      "unmarshal_item cached = Inr it" "res = Inr it" "cs_next c' = cs_next c"
      "cs_redis c' = snd (redis_Get redis (cacheKey sku) (cs_redis c))"
  | (miss) "getItem sku (cs_next c) = (res, cs_next c')"
      "cs_redis c' = (let r = snd (redis_Get redis (cacheKey sku) (cs_redis c)) in
         case res of Inl e \<Rightarrow> r
         | Inr it \<Rightarrow> redis_Set redis (cacheKey sku) (render (item_json it)) cacheTTL r)"
proof -
  obtain reply r where g: "redis_Get redis (cacheKey sku) (cs_redis c) = (reply, r)" by force
  obtain x s where n: "getItem sku (cs_next c) = (x, s)" by force
  show thesis
  proof (cases "\<exists>cached it. reply = Inr cached \<and> unmarshal_item cached = Inr it")
    case True
    then obtain cached it where "reply = Inr cached" "unmarshal_item cached = Inr it" by blast
    with assms g n show thesis by (intro hit [of cached it]) (auto simp: caching_GetItem_def)
  next
    case False
    with assms g n show thesis
      by (intro miss) (auto simp: caching_GetItem_def Let_def split: sum.splits)
  qed
qed

lemma caching_ReserveStock_eq:
  "caching_ReserveStock redis reserveStock sku q c = (res, c') \<Longrightarrow>
     reserveStock sku q (cs_next c) = (res, cs_next c') \<and>
     cs_redis c' = (case res of Inl e \<Rightarrow> cs_redis c | Inr it \<Rightarrow> redis_Del redis (cacheKey sku) (cs_redis c))"
  by (auto simp: caching_ReserveStock_def Let_def split: prod.splits sum.splits)

lemma caching_RestockItem_eq:
  "caching_RestockItem redis restockItem sku q c = (res, c') \<Longrightarrow>
     restockItem sku q (cs_next c) = (res, cs_next c') \<and>
     cs_redis c' = (case res of Inl e \<Rightarrow> cs_redis c | Inr it \<Rightarrow> redis_Del redis (cacheKey sku) (cs_redis c))"
  by (auto simp: caching_RestockItem_def Let_def split: prod.splits sum.splits)

lemmas [op_defs] = caching_GetItem_def caching_ReserveStock_def caching_RestockItem_def cache_set_def

section \<open>The wrapper is a Store, for any Redis\<close>

locale fresh_inventory_store = definite_inventory_store +
  assumes get_fresh: "getItem sku s = (Inr it, s') \<Longrightarrow>
    SKU it = sku \<and> stock s sku = Some (Name it, Quantity it)"

locale cached_store = fresh_inventory_store getItem reserveStock restockItem stock definite
  for getItem :: "string \<Rightarrow> 's \<Rightarrow> (go_error + item) \<times> 's" and reserveStock and restockItem
    and stock and definite +
  fixes redis :: "'r redis_client"

lemma snd_caching_GetItem_next:
  "cs_next (snd (caching_GetItem redis getItem sku c)) = cs_next c \<or>
   cs_next (snd (caching_GetItem redis getItem sku c)) = snd (getItem sku (cs_next c))"
  by (cases "caching_GetItem redis getItem sku c") (auto elim!: caching_GetItem_cases)

sublocale cached_store \<subseteq> wrapped: definite_inventory_store
  "caching_GetItem redis getItem" "caching_ReserveStock redis reserveStock"
  "caching_RestockItem redis restockItem" "\<lambda>c. stock (cs_next c)" "\<lambda>c. definite (cs_next c)"
proof unfold_locales
  fix sku q and c c' :: "('s, 'r) caching" and e it n h
  show "stock (cs_next (snd (caching_GetItem redis getItem sku c))) = stock (cs_next c)"
    using snd_caching_GetItem_next [of redis getItem sku c] get_frame [of sku "cs_next c"] by auto
  show "caching_GetItem redis getItem sku c = (Inl e, c') \<Longrightarrow> errors_Is e Inventory_ErrNotFound \<Longrightarrow>
      stock (cs_next c) sku = None"
    by (elim caching_GetItem_cases) (auto intro: get_missing)
  show "caching_ReserveStock redis reserveStock sku q c = (Inr it, c') \<Longrightarrow>
      moved sku (- q) (stock (cs_next c)) (stock (cs_next c')) it"
    by (drule caching_ReserveStock_eq) (auto intro: reserve_ok)
  show "caching_ReserveStock redis reserveStock sku q c = (Inl e, c') \<Longrightarrow>
      stock (cs_next c') = stock (cs_next c) \<or>
      (\<exists>it. moved sku (- q) (stock (cs_next c)) (stock (cs_next c')) it)"
    by (drule caching_ReserveStock_eq) (auto dest: reserve_failed)
  show "caching_ReserveStock redis reserveStock sku q c = (Inl e, c') \<Longrightarrow>
      errors_Is e Inventory_ErrNotFound \<or> errors_Is e Inventory_ErrInsufficientStock \<Longrightarrow>
      stock (cs_next c') = stock (cs_next c)"
    by (drule caching_ReserveStock_eq) (auto dest: reserve_refused)
  show "caching_ReserveStock redis reserveStock sku q c = (Inl e, c') \<Longrightarrow>
      errors_Is e Inventory_ErrNotFound \<Longrightarrow> stock (cs_next c) sku = None"
    by (drule caching_ReserveStock_eq) (auto dest: reserve_missing)
  show "caching_ReserveStock redis reserveStock sku q c = (Inl e, c') \<Longrightarrow>
      errors_Is e Inventory_ErrInsufficientStock \<Longrightarrow> stock (cs_next c) sku = Some (n, h) \<Longrightarrow> h < q"
    by (drule caching_ReserveStock_eq) (auto dest: reserve_insufficient)
  show "caching_RestockItem redis restockItem sku q c = (Inr it, c') \<Longrightarrow>
      moved sku q (stock (cs_next c)) (stock (cs_next c')) it"
    by (drule caching_RestockItem_eq) (auto intro: restock_ok)
  show "caching_RestockItem redis restockItem sku q c = (Inl e, c') \<Longrightarrow>
      stock (cs_next c') = stock (cs_next c) \<or>
      (\<exists>it. moved sku q (stock (cs_next c)) (stock (cs_next c')) it)"
    by (drule caching_RestockItem_eq) (auto dest: restock_failed)
  show "caching_RestockItem redis restockItem sku q c = (Inl e, c') \<Longrightarrow>
      errors_Is e Inventory_ErrNotFound \<Longrightarrow>
      stock (cs_next c) sku = None \<and> stock (cs_next c') = stock (cs_next c)"
    by (drule caching_RestockItem_eq) (auto dest: restock_missing)
  show "definite (cs_next c) \<Longrightarrow> definite (cs_next (snd (caching_GetItem redis getItem sku c)))"
    using snd_caching_GetItem_next [of redis getItem sku c] definite_get [of "cs_next c" sku] by auto
  show "definite (cs_next c) \<Longrightarrow> definite (cs_next (snd (caching_ReserveStock redis reserveStock sku q c)))"
    using definite_reserve [of "cs_next c" sku q]
      caching_ReserveStock_eq [of redis reserveStock sku q c "fst (caching_ReserveStock redis reserveStock sku q c)"
        "snd (caching_ReserveStock redis reserveStock sku q c)"] by auto
  show "definite (cs_next c) \<Longrightarrow> definite (cs_next (snd (caching_RestockItem redis restockItem sku q c)))"
    using definite_restock [of "cs_next c" sku q]
      caching_RestockItem_eq [of redis restockItem sku q c "fst (caching_RestockItem redis restockItem sku q c)"
        "snd (caching_RestockItem redis restockItem sku q c)"] by auto
  show "definite (cs_next c) \<Longrightarrow> caching_ReserveStock redis reserveStock sku q c = (Inl e, c') \<Longrightarrow>
      stock (cs_next c') = stock (cs_next c)"
    by (drule caching_ReserveStock_eq) (auto dest: reserve_error)
  show "definite (cs_next c) \<Longrightarrow> caching_RestockItem redis restockItem sku q c = (Inl e, c') \<Longrightarrow>
      stock (cs_next c') = stock (cs_next c)"
    by (drule caching_RestockItem_eq) (auto dest: restock_error)
qed

section \<open>What the cache may hold\<close>

text \<open>
  Redis as documented: \<open>GET\<close> answers with the key's value or fails; \<open>SET\<close> puts its value or fails;
  keys may expire at any time; nothing else changes. \<open>del_works\<close> is the case in which no \<open>DEL\<close> is
  lost, which the code does not check.
\<close>

definition redis_contract :: "'r redis_client \<Rightarrow> ('r \<Rightarrow> string \<rightharpoonup> string) \<Rightarrow> bool" where
  "redis_contract redis view \<longleftrightarrow>
     (\<forall>k r v r'. redis_Get redis k r = (Inr v, r') \<longrightarrow> view r k = Some v) \<and>
     (\<forall>k r. view (snd (redis_Get redis k r)) \<subseteq>\<^sub>m view r) \<and>
     (\<forall>k v ttl r j w. view (redis_Set redis k v ttl r) j = Some w \<longrightarrow> j = k \<and> w = v \<or> view r j = Some w) \<and>
     (\<forall>k r. view (redis_Del redis k r) \<subseteq>\<^sub>m view r)"

definition del_works :: "'r redis_client \<Rightarrow> ('r \<Rightarrow> string \<rightharpoonup> string) \<Rightarrow> bool" where
  "del_works redis view \<longleftrightarrow> (\<forall>k r. view (redis_Del redis k r) k = None)"

lemma redis_contractD:
  assumes "redis_contract redis view"
  shows "redis_Get redis k r = (Inr v, r') \<Longrightarrow> view r k = Some v"
    and "view (snd (redis_Get redis k r)) \<subseteq>\<^sub>m view r"
    and "view (redis_Set redis k v ttl r) j = Some w \<Longrightarrow> j = k \<and> w = v \<or> view r j = Some w"
    and "view (redis_Del redis k r) \<subseteq>\<^sub>m view r"
  using assms unfolding redis_contract_def by blast+

text \<open>Every entry is the JSON of a row that one of the stocks in \<open>H\<close> holds.\<close>

definition row :: "stock \<Rightarrow> string \<Rightarrow> item option" where
  "row st sku = map_option (\<lambda>(n, h). \<lparr>SKU = sku, Name = n, Quantity = h\<rparr>) (st sku)"

definition cached_from :: "stock set \<Rightarrow> (string \<rightharpoonup> string) \<Rightarrow> bool" where
  "cached_from H v \<longleftrightarrow>
     (\<forall>sku w. v (cacheKey sku) = Some w \<longrightarrow> (\<exists>st\<in>H. \<exists>it. row st sku = Some it \<and> w = render (item_json it)))"

definition stock_utf8 :: "stock \<Rightarrow> bool" where
  "stock_utf8 st \<longleftrightarrow> (\<forall>sku it. row st sku = Some it \<longrightarrow> item_utf8 it)"

lemma row_Some [simp]:
  "row st sku = Some it \<longleftrightarrow> SKU it = sku \<and> st sku = Some (Name it, Quantity it)"
  by (cases it) (auto simp: row_def)

lemma cached_from_sub: "cached_from H v \<Longrightarrow> w \<subseteq>\<^sub>m v \<Longrightarrow> cached_from H w"
  unfolding cached_from_def map_le_def by (metis domI)

lemma cached_from_mono: "cached_from H v \<Longrightarrow> H \<subseteq> H' \<Longrightarrow> cached_from H' v"
  unfolding cached_from_def by blast

lemma cached_from_empty [simp]: "cached_from H Map.empty"
  by (simp add: cached_from_def)

lemma moved_stock_utf8:
  "moved sku d st st' it \<Longrightarrow> stock_utf8 st \<Longrightarrow> stock_utf8 st'"
proof -
  assume m: "moved sku d st st' it" and u: "stock_utf8 st"
  show "stock_utf8 st'"
    unfolding stock_utf8_def
  proof (intro allI impI)
    fix k i assume r: "row st' k = Some i"
    show "item_utf8 i"
    proof (cases "k = sku")
      case True
      with m r obtain n h where "st sku = Some (n, h)" "Name i = n" "in_int32 (Quantity i)"
        by (auto simp: moved_def)
      moreover from this u have "item_utf8 \<lparr>SKU = sku, Name = n, Quantity = h\<rparr>"
        by (auto simp: stock_utf8_def)
      ultimately show ?thesis using True r by (simp add: item_utf8_def in_int32_64)
    next
      case False
      with m r have "row st k = Some i" by (auto simp: moved_def)
      with u show ?thesis by (auto simp: stock_utf8_def)
    qed
  qed
qed

lemma cached_from_set:
  assumes "redis_contract redis view" and "cached_from H (view r)"
    and "st \<in> H" and "row st sku = Some it"
  shows "cached_from H (view (redis_Set redis (cacheKey sku) (render (item_json it)) ttl r))"
  unfolding cached_from_def
proof (intro allI impI)
  fix k w assume "view (redis_Set redis (cacheKey sku) (render (item_json it)) ttl r) (cacheKey k) = Some w"
  from redis_contractD(3) [OF assms(1) this]
  have "k = sku \<and> w = render (item_json it) \<or> view r (cacheKey k) = Some w" by simp
  with assms(2-4) show "\<exists>st\<in>H. \<exists>it. row st k = Some it \<and> w = render (item_json it)"
    by (auto simp: cached_from_def)
qed

lemma cached_from_get:
  assumes "redis_contract redis view" and "cached_from H (view r)"
  shows "cached_from H (view (snd (redis_Get redis k r)))"
  using assms by (auto simp: redis_contract_def intro: cached_from_sub)

lemma cached_from_del:
  assumes "redis_contract redis view" and "cached_from H (view r)"
  shows "cached_from H (view (redis_Del redis k r))"
  using assms by (auto simp: redis_contract_def intro: cached_from_sub)

text \<open>After a successful move, the deleted entry was the only one the move outdated.\<close>

lemma cached_from_moved:
  assumes "redis_contract redis view" and "del_works redis view" and "cached_from {st} (view r)"
    and "moved sku d st st' it"
  shows "cached_from {st'} (view (redis_Del redis (cacheKey sku) r))"
  unfolding cached_from_def
proof (intro allI impI)
  fix k w assume w: "view (redis_Del redis (cacheKey sku) r) (cacheKey k) = Some w"
  with assms(2) have "k \<noteq> sku" by (auto simp: del_works_def)
  from w assms(1) have "view r (cacheKey k) = Some w"
    unfolding redis_contract_def map_le_def by (metis domI)
  with assms(3) obtain i where i: "row st k = Some i" "w = render (item_json i)"
    by (auto simp: cached_from_def)
  from i(1) assms(4) \<open>k \<noteq> sku\<close> have "row st' k = Some i" by (auto simp: moved_def)
  with i(2) show "\<exists>st\<in>{st'}. \<exists>it. row st k = Some it \<and> w = render (item_json it)" by blast
qed

context cached_store begin

text \<open>A read returns a row of one of the stocks seen so far.\<close>

lemma caching_GetItem_from:
  assumes "redis_contract redis view" and "cached_from H (view (cs_redis c))"
    and "stock (cs_next c) \<in> H" and "\<forall>st\<in>H. stock_utf8 st"
    and "caching_GetItem redis getItem sku c = (res, c')"
  shows "cached_from H (view (cs_redis c'))" and "res = Inr it \<Longrightarrow> \<exists>st\<in>H. row st sku = Some it"
proof -
  have "cached_from H (view (cs_redis c')) \<and> (res = Inr it \<longrightarrow> (\<exists>st\<in>H. row st sku = Some it))"
    using assms(5)
  proof (cases rule: caching_GetItem_cases)
    case (hit cached it')
    from hit(1) have "view (cs_redis c) (cacheKey sku) = Some cached"
      using redis_contractD(1) [OF assms(1)] by (metis prod.collapse)
    with assms(2) obtain st i where i: "st \<in> H" "row st sku = Some i" "cached = render (item_json i)"
      unfolding cached_from_def by blast
    with assms(4) have "item_utf8 i" by (auto simp: stock_utf8_def)
    with i(3) hit have "it' = i" by (simp add: unmarshal_item_render)
    with i hit cached_from_get [OF assms(1,2)] show ?thesis by auto
  next
    case miss
    show ?thesis
    proof (cases res)
      case (Inl e)
      with miss cached_from_get [OF assms(1,2)] show ?thesis by simp
    next
      case (Inr i)
      with miss(1) get_fresh [of sku "cs_next c" i] have "row (stock (cs_next c)) sku = Some i" by auto
      note set = cached_from_set [OF assms(1) cached_from_get [OF assms(1,2)] assms(3) this]
      with miss(2) Inr have "cached_from H (view (cs_redis c'))" by (simp add: Let_def)
      with Inr \<open>row (stock (cs_next c)) sku = Some i\<close> assms(3) show ?thesis by blast
    qed
  qed
  then show "cached_from H (view (cs_redis c'))" and "res = Inr it \<Longrightarrow> \<exists>st\<in>H. row st sku = Some it"
    by blast+
qed

lemma cached_run_op:
  assumes "redis_contract redis view" and "cached_from H (view (cs_redis c))"
    and "stock (cs_next c) \<in> H" and "\<forall>st\<in>H. stock_utf8 st"
    and "run_op (caching_GetItem redis getItem) (caching_ReserveStock redis reserveStock)
      (caching_RestockItem redis restockItem) x c = (res, c')"
  shows "cached_from (insert (stock (cs_next c')) H) (view (cs_redis c'))" and "stock_utf8 (stock (cs_next c'))"
proof -
  let ?H = "insert (stock (cs_next c')) H"
  have wr: "cached_from ?H (view (cs_redis c')) \<and> stock_utf8 (stock (cs_next c'))"
    if "cs_redis c' = (case res of Inl e \<Rightarrow> cs_redis c | Inr it \<Rightarrow> redis_Del redis k (cs_redis c))"
      and "stock (cs_next c') = stock (cs_next c) \<or>
        (\<exists>sku d it. moved sku d (stock (cs_next c)) (stock (cs_next c')) it)" for k
  proof
    have "cached_from H (view (cs_redis c'))"
      using that(1) assms(2) cached_from_del [OF assms(1,2)] by (cases res) auto
    then show "cached_from ?H (view (cs_redis c'))" by (rule cached_from_mono) blast
    from that(2) assms(3,4) show "stock_utf8 (stock (cs_next c'))" by (auto intro: moved_stock_utf8)
  qed
  have "cached_from ?H (view (cs_redis c')) \<and> stock_utf8 (stock (cs_next c'))"
  proof (cases x)
    case (Op_Get sku)
    with assms(5) have g: "caching_GetItem redis getItem sku c = (res, c')" by simp
    have "cached_from ?H (view (cs_redis c'))"
      using caching_GetItem_from(1) [OF assms(1-4) g] by (rule cached_from_mono) blast
    moreover have "stock (cs_next c') = stock (cs_next c)"
      using wrapped.get_frame [of sku c] g by simp
    ultimately show ?thesis using assms(3,4) by simp
  next
    case (Op_Reserve sku q)
    with assms(5) have g: "caching_ReserveStock redis reserveStock sku q c = (res, c')" by simp
    show ?thesis
      using caching_ReserveStock_eq [OF g] g
      by (intro wr [of "cacheKey sku"])
        (cases res; auto dest: wrapped.reserve_ok wrapped.reserve_failed)+
  next
    case (Op_Restock sku q)
    with assms(5) have g: "caching_RestockItem redis restockItem sku q c = (res, c')" by simp
    show ?thesis
      using caching_RestockItem_eq [OF g] g
      by (intro wr [of "cacheKey sku"])
        (cases res; auto dest: wrapped.restock_ok wrapped.restock_failed)+
  qed
  then show "cached_from ?H (view (cs_redis c'))" "stock_utf8 (stock (cs_next c'))" by blast+
qed

lemma coherent_run_op:
  assumes "redis_contract redis view" and "del_works redis view" and "definite (cs_next c)"
    and "cached_from {stock (cs_next c)} (view (cs_redis c))" and "stock_utf8 (stock (cs_next c))"
    and "run_op (caching_GetItem redis getItem) (caching_ReserveStock redis reserveStock)
      (caching_RestockItem redis restockItem) x c = (res, c')"
  shows "cached_from {stock (cs_next c')} (view (cs_redis c'))"
proof (cases x)
  case (Op_Get sku)
  with assms(6) have g: "caching_GetItem redis getItem sku c = (res, c')" by simp
  with caching_GetItem_from(1) [OF assms(1,4) _ _ g] assms(5) wrapped.get_frame [of sku c]
  show ?thesis by simp
next
  case (Op_Reserve sku q)
  with assms(6) have g: "caching_ReserveStock redis reserveStock sku q c = (res, c')" by simp
  show ?thesis
  proof (cases res)
    case (Inl e)
    with caching_ReserveStock_eq [OF g] wrapped.reserve_error [OF assms(3) g [unfolded Inl]] assms(4)
    show ?thesis by simp
  next
    case (Inr it)
    with caching_ReserveStock_eq [OF g] wrapped.reserve_ok [OF g [unfolded Inr]]
      cached_from_moved [OF assms(1,2,4)] show ?thesis by simp
  qed
next
  case (Op_Restock sku q)
  with assms(6) have g: "caching_RestockItem redis restockItem sku q c = (res, c')" by simp
  show ?thesis
  proof (cases res)
    case (Inl e)
    with caching_RestockItem_eq [OF g] wrapped.restock_error [OF assms(3) g [unfolded Inl]] assms(4)
    show ?thesis by simp
  next
    case (Inr it)
    with caching_RestockItem_eq [OF g] wrapped.restock_ok [OF g [unfolded Inr]]
      cached_from_moved [OF assms(1,2,4)] show ?thesis by simp
  qed
qed

end

text \<open>The stocks a sequence of calls passes through.\<close>

fun stocks_seen ::
  "(store_op \<Rightarrow> 's \<Rightarrow> (go_error + item) \<times> 's) \<Rightarrow> ('s \<Rightarrow> stock) \<Rightarrow> store_op list \<Rightarrow> 's \<Rightarrow> stock list" where
  "stocks_seen op stock [] s = [stock s]"
| "stocks_seen op stock (x # xs) s = stock s # stocks_seen op stock xs (snd (op x s))"

lemma stocks_seen_first [simp]: "stock s \<in> set (stocks_seen op stock xs s)"
  by (cases xs) auto

context cached_store begin

lemma cached_run_ops:
  assumes "redis_contract redis view" and "cached_from H (view (cs_redis c))"
    and "stock (cs_next c) \<in> H" and "\<forall>st\<in>H. stock_utf8 st"
    and "run_ops (caching_GetItem redis getItem) (caching_ReserveStock redis reserveStock)
      (caching_RestockItem redis restockItem) xs c = (rs, c')"
    and "H' = H \<union> set (stocks_seen (run_op (caching_GetItem redis getItem)
        (caching_ReserveStock redis reserveStock) (caching_RestockItem redis restockItem))
        (\<lambda>c. stock (cs_next c)) xs c)"
  shows "cached_from H' (view (cs_redis c')) \<and> stock (cs_next c') \<in> H' \<and> (\<forall>st\<in>H'. stock_utf8 st)"
  using assms(2-)
proof (induction xs arbitrary: c rs H)
  case Nil
  then have "H' = H" by auto
  with Nil show ?case by simp
next
  case (Cons x xs)
  let ?op = "run_op (caching_GetItem redis getItem) (caching_ReserveStock redis reserveStock)
    (caching_RestockItem redis restockItem)"
  obtain r c1 where x: "?op x c = (r, c1)" by force
  obtain rs1 c2 where xs: "run_ops (caching_GetItem redis getItem) (caching_ReserveStock redis reserveStock)
      (caching_RestockItem redis restockItem) xs c1 = (rs1, c2)" by force
  from x xs Cons.prems(4) have "c2 = c'" by simp
  note step = cached_run_op [OF assms(1) Cons.prems(1-3) x]
  have "H' = insert (stock (cs_next c1)) H \<union> set (stocks_seen ?op (\<lambda>c. stock (cs_next c)) xs c1)"
    using Cons.prems(2,5) x stocks_seen_first [of "\<lambda>c. stock (cs_next c)" c1 ?op xs]
    by (auto simp: insert_absorb)
  with Cons.IH [OF step(1) _ _ xs [unfolded \<open>c2 = c'\<close>]] step(2) Cons.prems(3) show ?case by simp
qed

lemma coherent_run_ops:
  assumes "redis_contract redis view" and "del_works redis view" and "definite (cs_next c)"
    and "cached_from {stock (cs_next c)} (view (cs_redis c))" and "stock_utf8 (stock (cs_next c))"
    and "run_ops (caching_GetItem redis getItem) (caching_ReserveStock redis reserveStock)
      (caching_RestockItem redis restockItem) xs c = (rs, c')"
  shows "cached_from {stock (cs_next c')} (view (cs_redis c')) \<and> stock_utf8 (stock (cs_next c'))"
  using assms(3-)
proof (induction xs arbitrary: c rs)
  case (Cons x xs)
  obtain r c1 where x: "run_op (caching_GetItem redis getItem) (caching_ReserveStock redis reserveStock)
    (caching_RestockItem redis restockItem) x c = (r, c1)" by force
  obtain rs1 c2 where xs: "run_ops (caching_GetItem redis getItem) (caching_ReserveStock redis reserveStock)
      (caching_RestockItem redis restockItem) xs c1 = (rs1, c2)" by force
  from x xs Cons.prems(4) have "c2 = c'" by simp
  have "stock_utf8 (stock (cs_next c1))"
    using cached_run_op(2) [OF assms(1) Cons.prems(2) _ _ x] Cons.prems(3) by simp
  with Cons.IH [OF wrapped.run_op_exact(1) [OF x Cons.prems(1)]
      coherent_run_op [OF assms(1,2) Cons.prems(1-3) x]] xs \<open>c2 = c'\<close> show ?case by simp
qed simp

end

section \<open>CachingStore over PostgresStore\<close>

interpretation fpg: fresh_inventory_store pg_GetItem pg_ReserveStock pg_RestockItem tables no_lost_reply
proof
  show "pg_GetItem sku s = (Inr it, s') \<Longrightarrow> SKU it = sku \<and> tables s sku = Some (Name it, Quantity it)"
    for sku s it s'
    by (drule pg_GetItem_Inr) auto
qed

text \<open>The wiring of \<open>main.go\<close>: \<open>NewCachingStore(NewPostgresStore(pool), redisClient)\<close>.\<close>

interpretation cpg: cached_store pg_GetItem pg_ReserveStock pg_RestockItem tables no_lost_reply redis
  for redis
  by unfold_locales

section \<open>Interleaved requests\<close>

text \<open>
  Requests run concurrently: each is one of the three operations, cut at its calls to Redis and
  Postgres. A request's position in its code is a \<open>pc\<close>.
\<close>

datatype pc =
    Started store_op
  | Missed string
  | Read string item
  | Written store_op item
  | Done store_op "go_error + item"

fun op_sku :: "store_op \<Rightarrow> string" where
  "op_sku (Op_Get sku) = sku"
| "op_sku (Op_Reserve sku q) = sku"
| "op_sku (Op_Restock sku q) = sku"

fun caching_step ::
  "'r redis_client \<Rightarrow> (string \<Rightarrow> 's \<Rightarrow> (go_error + item) \<times> 's) \<Rightarrow>
   (string \<Rightarrow> int \<Rightarrow> 's \<Rightarrow> (go_error + item) \<times> 's) \<Rightarrow> (string \<Rightarrow> int \<Rightarrow> 's \<Rightarrow> (go_error + item) \<times> 's) \<Rightarrow>
   pc \<Rightarrow> ('s, 'r) caching \<Rightarrow> pc \<times> ('s, 'r) caching" where
  "caching_step redis get res rst (Started (Op_Get sku)) c =
     (let (reply, r) = redis_Get redis (cacheKey sku) (cs_redis c); c1 = c\<lparr>cs_redis := r\<rparr>;
          miss = (Missed sku, cacheResult ''miss'' c1)
      in case reply of
           Inl e \<Rightarrow> miss
         | Inr cached \<Rightarrow>
             (case unmarshal_item cached of
                Inl e \<Rightarrow> miss
              | Inr it \<Rightarrow> (Done (Op_Get sku) (Inr it), cacheResult ''hit'' c1)))"
| "caching_step redis get res rst (Missed sku) c =
     (let (r, s) = get sku (cs_next c)
      in (case r of Inl e \<Rightarrow> Done (Op_Get sku) (Inl e) | Inr it \<Rightarrow> Read sku it, c\<lparr>cs_next := s\<rparr>))"
| "caching_step redis get res rst (Read sku it) c = (Done (Op_Get sku) (Inr it), cache_set redis sku it c)"
| "caching_step redis get res rst (Started x) c =
     (let (r, s) = run_op get res rst x (cs_next c)
      in (case r of Inl e \<Rightarrow> Done x (Inl e) | Inr it \<Rightarrow> Written x it, c\<lparr>cs_next := s\<rparr>))"
| "caching_step redis get res rst (Written x it) c =
     (Done x (Inr it), c\<lparr>cs_redis := redis_Del redis (cacheKey (op_sku x)) (cs_redis c)\<rparr>)"
| "caching_step redis get res rst (Done x r) c = (Done x r, c)"

text \<open>A request that runs alone is the operation.\<close>

lemma caching_step_run_op:
  assumes "run_op (caching_GetItem redis get) (caching_ReserveStock redis res)
    (caching_RestockItem redis rst) x c = (r, c')"
  shows "((\<lambda>(p, c). caching_step redis get res rst p c) ^^ 3) (Started x, c) = (Done x r, c')"
proof (cases x)
  case (Op_Get sku)
  with assms show ?thesis
    by (auto simp: numeral_3_eq_3 caching_GetItem_def Let_def split: prod.splits sum.splits)
next
  case (Op_Reserve sku q)
  with assms show ?thesis
    by (auto simp: numeral_3_eq_3 caching_ReserveStock_def Let_def split: prod.splits sum.splits)
next
  case (Op_Restock sku q)
  with assms show ?thesis
    by (auto simp: numeral_3_eq_3 caching_RestockItem_def Let_def split: prod.splits sum.splits)
qed

inductive interleave ::
  "'r redis_client \<Rightarrow> (string \<Rightarrow> 's \<Rightarrow> (go_error + item) \<times> 's) \<Rightarrow>
   (string \<Rightarrow> int \<Rightarrow> 's \<Rightarrow> (go_error + item) \<times> 's) \<Rightarrow> (string \<Rightarrow> int \<Rightarrow> 's \<Rightarrow> (go_error + item) \<times> 's) \<Rightarrow>
   pc list \<times> ('s, 'r) caching \<Rightarrow> pc list \<times> ('s, 'r) caching \<Rightarrow> bool"
  for redis get res rst where
  step: "i < length ps \<Longrightarrow> caching_step redis get res rst (ps ! i) c = (p, c') \<Longrightarrow>
    interleave redis get res rst (ps, c) (ps[i := p], c')"

inductive_cases interleaveE: "interleave redis get res rst (ps, c) st"

text \<open>A schedule names the request that moves next.\<close>

fun run_schedule ::
  "(pc \<Rightarrow> 'c \<Rightarrow> pc \<times> 'c) \<Rightarrow> nat list \<Rightarrow> pc list \<times> 'c \<Rightarrow> pc list \<times> 'c" where
  "run_schedule stp [] st = st"
| "run_schedule stp (i # is) (ps, c) =
     (let (p, c') = stp (ps ! i) c in run_schedule stp is (ps[i := p], c'))"

lemma run_schedule_reachable:
  "list_all (\<lambda>i. i < length ps) is \<Longrightarrow>
     (interleave redis get res rst)\<^sup>*\<^sup>* (ps, c) (run_schedule (caching_step redis get res rst) is (ps, c))"
proof (induction "is" arbitrary: ps c)
  case (Cons i "is")
  obtain p c' where p: "caching_step redis get res rst (ps ! i) c = (p, c')" by force
  have "interleave redis get res rst (ps, c) (ps[i := p], c')"
    using Cons.prems p by (auto intro: interleave.step)
  with Cons.IH [of "ps[i := p]" c'] Cons.prems p show ?case
    by (auto intro: converse_rtranclp_into_rtranclp)
qed simp

lemma run_schedule_reaches:
  "run_schedule (caching_step redis get res rst) is (ps, c) = st \<Longrightarrow> list_all (\<lambda>i. i < length ps) is \<Longrightarrow>
     (interleave redis get res rst)\<^sup>*\<^sup>* (ps, c) st"
  using run_schedule_reachable by blast

text \<open>The moments of the run that a schedule gives.\<close>

lemma run_schedule_append: "run_schedule stp (is @ js) st = run_schedule stp js (run_schedule stp is st)"
  by (induction "is" arbitrary: st) (auto split: prod.splits)

lemma run_schedule_length: "length (fst (run_schedule stp is (ps, c))) = length ps"
  by (induction "is" arbitrary: ps c) (auto split: prod.splits)

lemma run_schedule_steps:
  assumes "list_all (\<lambda>i. i < length ps) is" and "t < length is"
  shows "interleave redis get res rst (run_schedule (caching_step redis get res rst) (take t is) (ps, c))
    (run_schedule (caching_step redis get res rst) (take (Suc t) is) (ps, c))"
proof -
  obtain ps1 c1 where now: "run_schedule (caching_step redis get res rst) (take t is) (ps, c) = (ps1, c1)" by force
  then have "length ps1 = length ps" using run_schedule_length [of _ "take t is" ps c] by (metis fst_conv)
  with assms have "is ! t < length ps1" by (simp add: list_all_length)
  with now assms(2) show ?thesis
    by (auto simp: take_Suc_conv_app_nth run_schedule_append split: prod.splits intro: interleave.step)
qed

text \<open>Units a request has been handed, and units it has asked to put in.\<close>

fun pc_sold :: "string \<Rightarrow> pc \<Rightarrow> int" where
  "pc_sold k (Written x it) = sold_by k (x, Inr it)"
| "pc_sold k (Done x r) = sold_by k (x, r)"
| "pc_sold k _ = 0"

fun pc_asked :: "string \<Rightarrow> pc \<Rightarrow> int" where
  "pc_asked k (Written x it) = restock_asked_by k (x, Inr it)"
| "pc_asked k (Done x r) = restock_asked_by k (x, r)"
| "pc_asked k _ = 0"

abbreviation pc_moved :: "string \<Rightarrow> pc \<Rightarrow> int" where
  "pc_moved k p \<equiv> pc_sold k p - pc_asked k p"

fun pc_positive :: "pc \<Rightarrow> bool" where
  "pc_positive (Started x) = positive_op x"
| "pc_positive (Written x it) = positive_op x"
| "pc_positive (Done x r) = positive_op x"
| "pc_positive _ = True"

context cached_store begin

lemma caching_step_stock:
  assumes "caching_step redis getItem reserveStock restockItem p c = (p', c')" and "pc_positive p"
    and "stock_ok (stock (cs_next c))"
  shows "stock_ok (stock (cs_next c')) \<and> pc_positive p' \<and>
    available (stock (cs_next c')) k + pc_moved k p' \<le> available (stock (cs_next c)) k + pc_moved k p"
proof (cases p)
  case (Started x)
  show ?thesis
  proof (cases x)
    case (Op_Get sku)
    with Started assms show ?thesis
      by (auto simp: Let_def split: prod.splits sum.splits)
  next
    case (Op_Reserve sku q)
    obtain r s where r: "run_op getItem reserveStock restockItem x (cs_next c) = (r, s)" by force
    from run_op_stock(1) [OF r] run_op_stock(2) [OF r, of k] Started Op_Reserve assms r show ?thesis
      by (auto simp: Let_def split: sum.splits)
  next
    case (Op_Restock sku q)
    obtain r s where r: "run_op getItem reserveStock restockItem x (cs_next c) = (r, s)" by force
    from run_op_stock(1) [OF r] run_op_stock(2) [OF r, of k] Started Op_Restock assms r show ?thesis
      by (auto simp: Let_def split: sum.splits)
  qed
next
  case (Missed sku)
  with assms get_frame [of sku "cs_next c"] show ?thesis by (auto split: prod.splits sum.splits)
qed (use assms in auto)

text \<open>However the requests interleave, the stock is never handed out twice.\<close>

lemma interleave_stock:
  assumes "(interleave redis getItem reserveStock restockItem)\<^sup>*\<^sup>* (ps, c) (ps', c')"
    and "list_all pc_positive ps" and "stock_ok (stock (cs_next c))"
  shows "stock_ok (stock (cs_next c')) \<and>
    available (stock (cs_next c')) k + total (pc_moved k) ps' \<le>
    available (stock (cs_next c)) k + total (pc_moved k) ps"
proof -
  from assms(1) have "list_all pc_positive ps' \<and> stock_ok (stock (cs_next c')) \<and>
    available (stock (cs_next c')) k + total (pc_moved k) ps' \<le>
    available (stock (cs_next c)) k + total (pc_moved k) ps"
  proof (induction rule: rtranclp_induct2)
    case refl
    with assms(2,3) show ?case by simp
  next
    case (step ps1 c1 ps2 c2)
    from step.hyps(2) obtain i p where i: "i < length ps1" "ps2 = ps1[i := p]"
      and p: "caching_step redis getItem reserveStock restockItem (ps1 ! i) c1 = (p, c2)"
      by (auto elim!: interleaveE)
    from caching_step_stock [OF p, of k] step.IH i(1) have
      "stock_ok (stock (cs_next c2))" "pc_positive p"
      "available (stock (cs_next c2)) k + pc_moved k p \<le> available (stock (cs_next c1)) k + pc_moved k (ps1 ! i)"
      by (auto simp: list_all_length)
    with step.IH i show ?case
      by (auto simp: sum_list_update_int list_all_length nth_list_update)
  qed
  then show ?thesis by blast
qed

end

text \<open>The row a request has been told of, held by one of the stocks in \<open>H\<close>.\<close>

fun told :: "stock set \<Rightarrow> pc \<Rightarrow> bool" where
  "told H (Read sku it) \<longleftrightarrow> (\<exists>st\<in>H. row st sku = Some it)"
| "told H (Written x it) \<longleftrightarrow> (\<exists>st\<in>H. row st (op_sku x) = Some it)"
| "told H (Done x (Inr it)) \<longleftrightarrow> (\<exists>st\<in>H. row st (op_sku x) = Some it)"
| "told H p \<longleftrightarrow> True"

lemma told_mono: "told H p \<Longrightarrow> H \<subseteq> H' \<Longrightarrow> told H' p"
  by (cases "(H, p)" rule: told.cases) auto

context cached_store begin

text \<open>A write: the new stock holds the row it returns, and its text is as before.\<close>

lemma run_op_told:
  assumes "run_op getItem reserveStock restockItem x s = (r, s')" and "stock_utf8 (stock s)"
  shows "stock_utf8 (stock s') \<and> (\<forall>it. r = Inr it \<longrightarrow> row (stock s') (op_sku x) = Some it)"
proof (cases x)
  case (Op_Get sku)
  with assms get_frame [of sku s] get_fresh [of sku s] show ?thesis by auto
next
  case (Op_Reserve sku q)
  show ?thesis
  proof (cases r)
    case (Inl e)
    with Op_Reserve assms reserve_failed [of sku q s e s'] moved_stock_utf8 show ?thesis by auto
  next
    case (Inr it)
    with Op_Reserve assms have "moved sku (- q) (stock s) (stock s') it" by (auto intro: reserve_ok)
    with moved_stock_utf8 [OF this assms(2)] Op_Reserve Inr show ?thesis by (auto simp: moved_def)
  qed
next
  case (Op_Restock sku q)
  show ?thesis
  proof (cases r)
    case (Inl e)
    with Op_Restock assms restock_failed [of sku q s e s'] moved_stock_utf8 show ?thesis by auto
  next
    case (Inr it)
    with Op_Restock assms have "moved sku q (stock s) (stock s') it" by (auto intro: restock_ok)
    with moved_stock_utf8 [OF this assms(2)] Op_Restock Inr show ?thesis by (auto simp: moved_def)
  qed
qed

lemma caching_step_told:
  assumes "caching_step redis getItem reserveStock restockItem p c = (p', c')"
    and "redis_contract redis view" and "cached_from H (view (cs_redis c))" and "stock (cs_next c) \<in> H"
    and "\<forall>st\<in>H. stock_utf8 st" and "told H p"
  shows "cached_from (insert (stock (cs_next c')) H) (view (cs_redis c')) \<and> stock_utf8 (stock (cs_next c')) \<and>
    told (insert (stock (cs_next c')) H) p'"
proof (cases p)
  case (Started x)
  show ?thesis
  proof (cases "\<exists>sku. x = Op_Get sku")
    case True
    then obtain sku where x: "x = Op_Get sku" by blast
    obtain reply r where g: "redis_Get redis (cacheKey sku) (cs_redis c) = (reply, r)" by force
    have c': "cached_from H (view r)" using cached_from_get [OF assms(2,3), of "cacheKey sku"] g by simp
    have "\<exists>st\<in>H. row st sku = Some it" if "reply = Inr cached" "unmarshal_item cached = Inr it" for cached it
    proof -
      from redis_contractD(1) [OF assms(2), of "cacheKey sku" "cs_redis c" cached r] g that(1)
      have "view (cs_redis c) (cacheKey sku) = Some cached" by simp
      with assms(3) obtain st i where i: "st \<in> H" "row st sku = Some i" "cached = render (item_json i)"
        unfolding cached_from_def by blast
      with assms(5) have "item_utf8 i" unfolding stock_utf8_def by blast
      with i that(2) show ?thesis by (auto simp: unmarshal_item_render simp del: row_Some)
    qed
    with Started x g c' assms(1,4,5) show ?thesis
      by (auto simp: Let_def insert_absorb simp del: row_Some split: sum.splits)
  next
    case False
    then have st: "caching_step redis getItem reserveStock restockItem p c =
        (let (r, s) = run_op getItem reserveStock restockItem x (cs_next c)
         in (case r of Inl e \<Rightarrow> Done x (Inl e) | Inr it \<Rightarrow> Written x it, c\<lparr>cs_next := s\<rparr>))"
      using Started by (cases x) (auto split: prod.splits sum.splits)
    obtain r s where r: "run_op getItem reserveStock restockItem x (cs_next c) = (r, s)" by force
    from run_op_told [OF r] assms(4,5) have
      "stock_utf8 (stock s)" "\<forall>it. r = Inr it \<longrightarrow> row (stock s) (op_sku x) = Some it" by blast+
    with st r assms(1,3) show ?thesis
      by (auto intro: cached_from_mono simp del: row_Some split: sum.splits)
  qed
next
  case (Missed sku)
  obtain r s where r: "getItem sku (cs_next c) = (r, s)" by force
  with get_frame [of sku "cs_next c"] have s: "stock s = stock (cs_next c)" by simp
  have "row (stock (cs_next c)) sku = Some it" if "r = Inr it" for it using get_fresh [of sku "cs_next c" it s] r that by simp
  with Missed r s assms(1,3-5) show ?thesis
    by (auto simp: insert_absorb simp del: row_Some split: sum.splits)
next
  case (Read sku it)
  with assms(6) obtain st where "st \<in> H" "row st sku = Some it" by auto
  from cached_from_set [OF assms(2,3) this] this Read assms(1,4,5) show ?thesis
    by (auto simp: insert_absorb simp del: row_Some)
next
  case (Written x it)
  with cached_from_del [OF assms(2,3)] assms(1,4-6) show ?thesis by (auto simp: insert_absorb simp del: row_Some)
next
  case (Done x r)
  with assms show ?thesis by (simp add: insert_absorb)
qed

text \<open>Along a run \<open>r\<close>, with the stocks seen up to now.\<close>

lemma run_told:
  assumes "\<forall>t < n. interleave redis getItem reserveStock restockItem (r t) (r (Suc t))"
    and "redis_contract redis view" and "fst (r 0) = map Started xs" and "view (cs_redis (snd (r 0))) = Map.empty"
    and "stock_utf8 (stock (cs_next (snd (r 0))))" and "H = (\<lambda>t. stock (cs_next (snd (r t)))) ` {..n}"
  shows "cached_from H (view (cs_redis (snd (r n)))) \<and> (\<forall>st\<in>H. stock_utf8 st) \<and> (\<forall>p\<in>set (fst (r n)). told H p)"
  using assms(1,6)
proof (induction n arbitrary: H)
  case 0
  with assms(3-5) show ?case by auto
next
  case (Suc n)
  let ?H = "(\<lambda>t. stock (cs_next (snd (r t)))) ` {..n}"
  have H: "H = insert (stock (cs_next (snd (r (Suc n))))) ?H" using Suc.prems(2) by (simp add: atMost_Suc)
  from Suc have IH: "cached_from ?H (view (cs_redis (snd (r n))))" "\<forall>st\<in>?H. stock_utf8 st" "\<forall>p\<in>set (fst (r n)). told ?H p"
    by auto
  have "interleave redis getItem reserveStock restockItem (fst (r n), snd (r n)) (r (Suc n))" using Suc.prems(1) by simp
  then obtain i p' c' where i: "i < length (fst (r n))" "r (Suc n) = ((fst (r n))[i := p'], c')"
    and p': "caching_step redis getItem reserveStock restockItem (fst (r n) ! i) (snd (r n)) = (p', c')"
    by (auto elim!: interleaveE simp del: prod.collapse)
  from caching_step_told [OF p' assms(2) IH(1) _ IH(2)] IH(3) i have
    "cached_from H (view (cs_redis c'))" "stock_utf8 (stock (cs_next c'))" "told H p'" by (simp_all add: H)
  moreover have "\<forall>p\<in>set (fst (r n)). told H p" using IH(3) told_mono [of ?H _ H] by (auto simp: H)
  ultimately show ?case using i IH(2) by (auto simp: H dest: set_update_subset_insert [THEN subsetD])
qed

end

section \<open>Properties\<close>

text \<open>A Redis that works, as a map; and one whose deletions are all lost.\<close>

definition map_redis :: "(string \<rightharpoonup> string) redis_client" where
  "map_redis =
     \<lparr>redis_Get = (\<lambda>k r. (case r k of None \<Rightarrow> Inl Redis_Nil | Some v \<Rightarrow> Inr v, r)),
      redis_Set = (\<lambda>k v ttl r. r(k \<mapsto> v)),
      redis_Del = (\<lambda>k r. r(k := None))\<rparr>"

definition deaf_redis :: "(string \<rightharpoonup> string) redis_client" where
  "deaf_redis = map_redis\<lparr>redis_Del := (\<lambda>k r. r)\<rparr>"

definition sample :: "io list \<Rightarrow> (stock pg, string \<rightharpoonup> string) caching" where
  "sample sc = \<lparr>cs_next = \<lparr>tables = [''A'' \<mapsto> (''a'', 10)], script = sc\<rparr>, cs_redis = Map.empty, cs_effects = []\<rparr>"

lemma map_redis_simps [simp]:
  "redis_Get map_redis k r = (case r k of None \<Rightarrow> Inl Redis_Nil | Some v \<Rightarrow> Inr v, r)"
  "redis_Set map_redis k v ttl r = r(k \<mapsto> v)"
  "redis_Del map_redis k r = r(k := None)"
  "redis_Get deaf_redis k r = (case r k of None \<Rightarrow> Inl Redis_Nil | Some v \<Rightarrow> Inr v, r)"
  "redis_Set deaf_redis k v ttl r = r(k \<mapsto> v)"
  "redis_Del deaf_redis k r = r"
  by (simp_all add: map_redis_def deaf_redis_def)

lemma redis_contract_maps:
  "redis_contract map_redis (\<lambda>r. r)" "del_works map_redis (\<lambda>r. r)" "redis_contract deaf_redis (\<lambda>r. r)"
  by (auto simp: redis_contract_def del_works_def map_le_def split: if_splits option.splits)

lemma sample_simps [simp]:
  "cs_next (sample sc) = \<lparr>tables = [''A'' \<mapsto> (''a'', 10)], script = sc\<rparr>"
  "cs_redis (sample sc) = Map.empty" "cs_effects (sample sc) = []"
  by (simp_all add: sample_def)

lemma sample_ok:
  "stock_ok (tables (cs_next (sample sc)))" "stock_utf8 (tables (cs_next (sample sc)))"
proof -
  show "stock_ok (tables (cs_next (sample sc)))"
    by (auto simp: stock_ok_def in_int32_def split: if_splits)
  have "valid_utf8 ''a''" "valid_utf8 ''A''" by (simp_all add: ascii_def)
  then show "stock_utf8 (tables (cs_next (sample sc)))"
    unfolding stock_utf8_def item_utf8_def
    by (auto simp: in_int64_def split: if_splits)
qed

text \<open>
  However many requests run, however they interleave at their calls to Redis and Postgres and
  whatever of those fails, the units handed out to successful reservations plus the units left never
  exceed the units that were there plus those the restocks asked to put in; and the stock table
  keeps its bounds.
\<close>

theorem cached_no_oversell:
  assumes "(interleave redis pg_GetItem pg_ReserveStock pg_RestockItem)\<^sup>*\<^sup>* (map Started xs, c) (ps, c')"
    and "list_all positive_op xs" and "stock_ok (tables (cs_next c))"
  shows "stock_ok (tables (cs_next c')) \<and>
    available (tables (cs_next c')) k + total (pc_sold k) ps
      \<le> available (tables (cs_next c)) k + total (pc_asked k) ps"
proof -
  have "total (pc_moved k) (map Started xs) = 0" by (induction xs) auto
  moreover have "list_all pc_positive (map Started xs)" using assms(2) by (simp add: list_all_length)
  ultimately show ?thesis
    using cpg.interleave_stock [OF assms(1) _ assms(3), of k] by (simp add: sum_list_subtractf)
qed

theorem cached_no_oversell_witness:
  "\<exists>ps c'. (interleave map_redis pg_GetItem pg_ReserveStock pg_RestockItem)\<^sup>*\<^sup>*
      (map Started [Op_Reserve ''A'' 7, Op_Reserve ''A'' 7, Op_Restock ''A'' 1], sample [Works, Fails_before]) (ps, c') \<and>
    total (pc_sold ''A'') ps = 7 \<and> available (tables (cs_next c')) ''A'' = 4 \<and>
    available (tables (cs_next c')) ''A'' + total (pc_sold ''A'') ps \<le> 10 + total (pc_asked ''A'') ps"
proof -
  let ?xs = "[Op_Reserve ''A'' 7, Op_Reserve ''A'' 7, Op_Restock ''A'' 1]"
  let ?c = "sample [Works, Fails_before]"
  obtain ps c' where st: "run_schedule (caching_step map_redis pg_GetItem pg_ReserveStock pg_RestockItem)
      [0, 1, 2, 0, 2] (map Started ?xs, ?c) = (ps, c')" by (rule prod.exhaust)
  have r: "(interleave map_redis pg_GetItem pg_ReserveStock pg_RestockItem)\<^sup>*\<^sup>* (map Started ?xs, ?c) (ps, c')"
    by (rule run_schedule_reaches [OF st]) simp
  have v: "total (pc_sold ''A'') ps = 7" "available (tables (cs_next c')) ''A'' = 4"
    using st by (auto simp: op_defs pg_query_def update_reserve_def update_restock_def set_quantity_def
        in_int32_def Let_def available_def)
  have p: "list_all positive_op ?xs" by simp
  have "available (tables (cs_next ?c)) ''A'' = 10" by (simp add: available_def)
  with cached_no_oversell [OF r p sample_ok(1), of "''A''"]
  have "available (tables (cs_next c')) ''A'' + total (pc_sold ''A'') ps \<le> 10 + total (pc_asked ''A'') ps"
    by linarith
  with r v show ?thesis by blast
qed

text \<open>The store of \<open>main.go\<close>, as a function of the operation and as one of a list of them.\<close>

abbreviation cpg_op ::
  "'r redis_client \<Rightarrow> store_op \<Rightarrow> (stock pg, 'r) caching \<Rightarrow> (go_error + item) \<times> (stock pg, 'r) caching" where
  "cpg_op redis \<equiv> run_op (caching_GetItem redis pg_GetItem) (caching_ReserveStock redis pg_ReserveStock)
     (caching_RestockItem redis pg_RestockItem)"

abbreviation cpg_ops ::
  "'r redis_client \<Rightarrow> store_op list \<Rightarrow> (stock pg, 'r) caching \<Rightarrow>
   (store_op \<times> (go_error + item)) list \<times> (stock pg, 'r) caching" where
  "cpg_ops redis \<equiv> run_ops (caching_GetItem redis pg_GetItem) (caching_ReserveStock redis pg_ReserveStock)
     (caching_RestockItem redis pg_RestockItem)"

text \<open>
  Whatever Redis does, the ledger of a sequence of requests balances when Postgres loses no
  reply of a write: units left plus units sold are the units there were plus the units restocked, per
  SKU, with nothing lost to the failed requests.
\<close>

theorem cached_ledger_exact:
  assumes "cpg_ops redis xs c = (rs, c')" and "no_lost_reply (cs_next c)"
  shows "available (tables (cs_next c')) k + total (sold_by k) rs =
    available (tables (cs_next c)) k + total (restocked_by k) rs"
  using cpg.wrapped.run_ops_exact [OF assms] .

theorem cached_ledger_exact_witness:
  "let (rs, c') = cpg_ops deaf_redis [Op_Reserve ''A'' 7, Op_Reserve ''A'' 7, Op_Restock ''A'' 1] (sample [Fails_before])
   in available (tables (cs_next c')) ''A'' + total (sold_by ''A'') rs = 10 + total (restocked_by ''A'') rs \<and>
      total (sold_by ''A'') rs = 7 \<and> total (restocked_by ''A'') rs = 1"
proof -
  obtain rs c' where r: "cpg_ops deaf_redis [Op_Reserve ''A'' 7, Op_Reserve ''A'' 7, Op_Restock ''A'' 1]
      (sample [Fails_before]) = (rs, c')" by (rule prod.exhaust)
  have "total (sold_by ''A'') rs = 7" "total (restocked_by ''A'') rs = 1"
    using r by (auto simp: op_defs pg_query_def update_reserve_def update_restock_def set_quantity_def
        in_int32_def Let_def)
  moreover have "no_lost_reply (cs_next (sample [Fails_before]))" by (simp add: no_lost_reply_def)
  note cached_ledger_exact [OF r this, of "''A''"]
  ultimately show ?thesis using r by (simp add: available_def)
qed

text \<open>
  C22. With nothing assumed but Redis's documented behaviour, a read after any sequence of requests,
  starting from an empty cache, returns a row the table held at some point of that sequence: a value
  may be old, it is never made up.
\<close>

theorem cached_read_was_once_true:
  assumes "redis_contract redis view" and "view (cs_redis c) = Map.empty"
    and "stock_utf8 (tables (cs_next c))" and "cpg_ops redis xs c = (rs, c')"
    and "caching_GetItem redis pg_GetItem sku c' = (Inr it, c'')"
  shows "\<exists>st \<in> set (stocks_seen (cpg_op redis) (\<lambda>c. tables (cs_next c)) xs c). row st sku = Some it"
proof -
  let ?H = "set (stocks_seen (cpg_op redis) (\<lambda>c. tables (cs_next c)) xs c)"
  have "?H = {tables (cs_next c)} \<union> ?H" by (cases xs) auto
  from cpg.cached_run_ops [OF assms(1) _ _ _ assms(4) this] assms(2,3)
  have "cached_from ?H (view (cs_redis c'))" "tables (cs_next c') \<in> ?H" "\<forall>st\<in>?H. stock_utf8 st"
    by auto
  from cpg.caching_GetItem_from(2) [OF assms(1) this assms(5) refl] show ?thesis .
qed

theorem cached_read_was_once_true_witness:
  "\<exists>c' c'' it. cpg_ops deaf_redis [Op_Get ''A'', Op_Reserve ''A'' 4] (sample []) =
      ([(Op_Get ''A'', Inr \<lparr>SKU = ''A'', Name = ''a'', Quantity = 10\<rparr>),
        (Op_Reserve ''A'' 4, Inr \<lparr>SKU = ''A'', Name = ''a'', Quantity = 6\<rparr>)], c') \<and>
    caching_GetItem deaf_redis pg_GetItem ''A'' c' = (Inr it, c'') \<and>
    (\<exists>st \<in> set (stocks_seen (cpg_op deaf_redis) (\<lambda>c. tables (cs_next c)) [Op_Get ''A'', Op_Reserve ''A'' 4]
        (sample [])). row st ''A'' = Some it)"
proof -
  obtain rs c' where r: "cpg_ops deaf_redis [Op_Get ''A'', Op_Reserve ''A'' 4] (sample []) = (rs, c')"
    by (rule prod.exhaust)
  have u: "item_utf8 \<lparr>SKU = ''A'', Name = ''a'', Quantity = 10\<rparr>"
    by (simp add: item_utf8_def ascii_def in_int64_def)
  have rs: "rs = [(Op_Get ''A'', Inr \<lparr>SKU = ''A'', Name = ''a'', Quantity = 10\<rparr>),
        (Op_Reserve ''A'' 4, Inr \<lparr>SKU = ''A'', Name = ''a'', Quantity = 6\<rparr>)]"
    and c: "cs_redis c' (cacheKey ''A'') = Some (render (item_json \<lparr>SKU = ''A'', Name = ''a'', Quantity = 10\<rparr>))"
    using r by (auto simp: op_defs pg_query_calm select_item_def update_reserve_def set_quantity_def
        in_int32_def Let_def)
  obtain it c'' where g: "caching_GetItem deaf_redis pg_GetItem ''A'' c' = (Inr it, c'')"
    using c u by (simp add: caching_GetItem_def unmarshal_item_render)
  from cached_read_was_once_true [OF redis_contract_maps(3) _ sample_ok(2) r g] r rs g show ?thesis
    by auto
qed

text \<open>
  Where no deletion and no reply of a write is lost, requests served one after the other never
  see the cache: a read returns the row the table holds now.
\<close>

theorem cached_read_is_fresh:
  assumes "redis_contract redis view" and "del_works redis view" and "no_lost_reply (cs_next c)"
    and "view (cs_redis c) = Map.empty" and "stock_utf8 (tables (cs_next c))"
    and "cpg_ops redis xs c = (rs, c')" and "caching_GetItem redis pg_GetItem sku c' = (Inr it, c'')"
  shows "row (tables (cs_next c')) sku = Some it"
proof -
  have "cached_from {tables (cs_next c)} (view (cs_redis c))" using assms(4) by simp
  from cpg.coherent_run_ops [OF assms(1-3) this assms(5,6)]
  have "cached_from {tables (cs_next c')} (view (cs_redis c'))" "stock_utf8 (tables (cs_next c'))"
    by blast+
  with cpg.caching_GetItem_from(2) [OF assms(1) this(1) _ _ assms(7) refl] show ?thesis by auto
qed

theorem cached_read_is_fresh_witness:
  "\<exists>rs c' c'' it. cpg_ops map_redis [Op_Get ''A'', Op_Reserve ''A'' 4, Op_Get ''A''] (sample []) = (rs, c') \<and>
    caching_GetItem map_redis pg_GetItem ''A'' c' = (Inr it, c'') \<and> Quantity it = 6 \<and>
    row (tables (cs_next c')) ''A'' = Some it"
proof -
  let ?i = "\<lparr>SKU = ''A'', Name = ''a'', Quantity = 6\<rparr>"
  obtain rs c' where r: "cpg_ops map_redis [Op_Get ''A'', Op_Reserve ''A'' 4, Op_Get ''A''] (sample []) = (rs, c')"
    by (rule prod.exhaust)
  have u: "item_utf8 ?i" by (simp add: item_utf8_def ascii_def in_int64_def)
  have c: "cs_redis c' (cacheKey ''A'') = Some (render (item_json ?i))"
    using r by (auto simp: op_defs pg_query_calm select_item_def update_reserve_def set_quantity_def
        in_int32_def Let_def)
  obtain c'' where g: "caching_GetItem map_redis pg_GetItem ''A'' c' = (Inr ?i, c'')"
    using c u by (simp add: caching_GetItem_def unmarshal_item_render)
  have n: "no_lost_reply (cs_next (sample []))" by (simp add: no_lost_reply_def)
  from cached_read_is_fresh [OF redis_contract_maps(1,2) n _ sample_ok(2) r g] r g show ?thesis
    by auto
qed

text \<open>
  The cache never makes a request fail, nor does it change what a write answers: a read fails
  only as the store below fails, and the writes return what the store below returns and leave it in
  the state it leaves itself.
\<close>

theorem cache_never_fails_a_request:
  "(fst (caching_GetItem redis get sku c) = Inl e \<longrightarrow>
      get sku (cs_next c) = (Inl e, cs_next (snd (caching_GetItem redis get sku c)))) \<and>
   fst (caching_ReserveStock redis res sku q c) = fst (res sku q (cs_next c)) \<and>
   cs_next (snd (caching_ReserveStock redis res sku q c)) = snd (res sku q (cs_next c)) \<and>
   fst (caching_RestockItem redis rst sku q c) = fst (rst sku q (cs_next c)) \<and>
   cs_next (snd (caching_RestockItem redis rst sku q c)) = snd (rst sku q (cs_next c))"
proof (intro conjI impI)
  assume "fst (caching_GetItem redis get sku c) = Inl e"
  then have "caching_GetItem redis get sku c = (Inl e, snd (caching_GetItem redis get sku c))"
    by (metis prod.collapse)
  then show "get sku (cs_next c) = (Inl e, cs_next (snd (caching_GetItem redis get sku c)))"
    by (rule caching_GetItem_cases) auto
qed (use caching_ReserveStock_eq [of redis res sku q c] caching_RestockItem_eq [of redis rst sku q c]
    in \<open>metis prod.collapse fst_conv snd_conv\<close>)+

theorem cache_never_fails_a_request_witness:
  "fst (caching_GetItem map_redis pg_GetItem ''B'' (sample [])) = Inl Inventory_ErrNotFound \<and>
   pg_GetItem ''B'' (cs_next (sample [])) =
     (Inl Inventory_ErrNotFound, cs_next (snd (caching_GetItem map_redis pg_GetItem ''B'' (sample []))))"
proof -
  have "fst (caching_GetItem map_redis pg_GetItem ''B'' (sample [])) = Inl Inventory_ErrNotFound"
    by (simp add: op_defs pg_query_calm select_item_def Let_def)
  with cache_never_fails_a_request [of map_redis pg_GetItem "''B''" "sample []" Inventory_ErrNotFound]
  show ?thesis by blast
qed

text \<open>
  C29. Requests served side by side, cut at their calls to Redis and Postgres and with any of those failing:
  every row that a read, a reservation or a restock has answered with is one the table held at some
  moment of the run. With nothing assumed but Redis's documented behaviour, a cache that starts empty and
  text that is valid UTF-8, no interleaving makes a row up or mixes up two SKUs.
\<close>

theorem interleaved_answers_were_once_true:
  assumes "\<forall>t < n. interleave redis pg_GetItem pg_ReserveStock pg_RestockItem (r t) (r (Suc t))"
    and "fst (r 0) = map Started xs" and "redis_contract redis view"
    and "view (cs_redis (snd (r 0))) = Map.empty" and "stock_utf8 (tables (cs_next (snd (r 0))))"
    and "Done x (Inr it) \<in> set (fst (r n))"
  shows "\<exists>t \<le> n. row (tables (cs_next (snd (r t)))) (op_sku x) = Some it"
proof -
  from cpg.run_told [OF assms(1,3,2,4,5) refl] assms(6)
  have "told ((\<lambda>t. tables (cs_next (snd (r t)))) ` {..n}) (Done x (Inr it))" by blast
  then show ?thesis by (auto simp del: row_Some)
qed

theorem interleaved_answers_were_once_true_witness:
  "\<exists>r it. r 0 = (map Started [Op_Get ''A'', Op_Reserve ''A'' 4], sample []) \<and>
     Done (Op_Get ''A'') (Inr it) \<in> set (fst (r (5 :: nat))) \<and> Quantity it = 10 \<and>
     (\<exists>t \<le> 5. row (tables (cs_next (snd (r t)))) (op_sku (Op_Get ''A'')) = Some it)"
proof -
  let ?is = "[0, 0, 1, 1, 0]" and ?ps = "map Started [Op_Get ''A'', Op_Reserve ''A'' 4]"
  let ?i = "\<lparr>SKU = ''A'', Name = ''a'', Quantity = 10\<rparr>"
  define r where "r t = run_schedule (caching_step map_redis pg_GetItem pg_ReserveStock pg_RestockItem) (take t ?is) (?ps, sample [])" for t
  have steps: "\<forall>t < 5. interleave map_redis pg_GetItem pg_ReserveStock pg_RestockItem (r t) (r (Suc t))"
    unfolding r_def by (intro allI impI run_schedule_steps) simp_all
  have r0: "r 0 = (?ps, sample [])" by (simp add: r_def)
  have d: "Done (Op_Get ''A'') (Inr ?i) \<in> set (fst (r 5))"
    by (simp add: r_def op_defs pg_query_calm select_item_def update_reserve_def set_quantity_def in_int32_def Let_def)
  have start: "fst (r 0) = ?ps" "cs_redis (snd (r 0)) = Map.empty" "stock_utf8 (tables (cs_next (snd (r 0))))"
    using sample_ok(2) [of "[]"] by (simp_all only: r0 fst_conv snd_conv sample_simps)
  from interleaved_answers_were_once_true [OF steps start(1) redis_contract_maps(1) start(2,3) d] d r0
  show ?thesis by (intro exI [of _ r] exI [of _ ?i]) (simp del: row_Some)
qed

text \<open>
  But the row may be an old one, and stay: a read that misses, a reservation that runs from its \<open>UPDATE\<close> to
  its \<open>DEL\<close> between that read's query and its \<open>SET\<close>, and nothing else and no failure, leave the row as it
  was before the reservation in the cache, and the next read returns it.
\<close>

theorem stale_read_after_race:
  "\<exists>ps c. (interleave map_redis pg_GetItem pg_ReserveStock pg_RestockItem)\<^sup>*\<^sup>*
      (map Started [Op_Get ''A'', Op_Reserve ''A'' 4], sample []) (ps, c) \<and>
    ps = [Done (Op_Get ''A'') (Inr \<lparr>SKU = ''A'', Name = ''a'', Quantity = 10\<rparr>),
          Done (Op_Reserve ''A'' 4) (Inr \<lparr>SKU = ''A'', Name = ''a'', Quantity = 6\<rparr>)] \<and>
    fst (caching_GetItem map_redis pg_GetItem ''A'' c) = Inr \<lparr>SKU = ''A'', Name = ''a'', Quantity = 10\<rparr> \<and>
    row (tables (cs_next c)) ''A'' = Some \<lparr>SKU = ''A'', Name = ''a'', Quantity = 6\<rparr>"
proof -
  let ?i = "\<lparr>SKU = ''A'', Name = ''a'', Quantity = 10\<rparr>"
  obtain ps c where st: "run_schedule (caching_step map_redis pg_GetItem pg_ReserveStock pg_RestockItem)
      [0, 0, 1, 1, 0] (map Started [Op_Get ''A'', Op_Reserve ''A'' 4], sample []) = (ps, c)"
    by (rule prod.exhaust)
  have u: "item_utf8 ?i" by (simp add: item_utf8_def ascii_def in_int64_def)
  have p: "ps = [Done (Op_Get ''A'') (Inr ?i), Done (Op_Reserve ''A'' 4) (Inr (?i\<lparr>Quantity := 6\<rparr>))]"
      "tables (cs_next c) ''A'' = Some (''a'', 6)"
    and v: "cs_redis c (cacheKey ''A'') = Some (render (item_json ?i))"
    using st by (auto simp: op_defs pg_query_calm select_item_def update_reserve_def set_quantity_def
        in_int32_def Let_def)
  have "fst (caching_GetItem map_redis pg_GetItem ''A'' c) = Inr ?i"
    using v u by (simp add: caching_GetItem_def unmarshal_item_render)
  with run_schedule_reaches [OF st] p show ?thesis by auto
qed

text \<open>
  When the reply of the reservation's \<open>UPDATE\<close> is lost, the units are gone and the handler
  returns before its \<open>DEL\<close>: with a Redis that never fails, the next read returns the old quantity.
\<close>

theorem stale_read_after_lost_reply:
  "let (rs, c) = cpg_ops map_redis [Op_Get ''A'', Op_Reserve ''A'' 4] (sample [Works, Fails_after])
   in map snd rs = [Inr \<lparr>SKU = ''A'', Name = ''a'', Quantity = 10\<rparr>, Inl (Wrapped ''reserve stock'' connection_lost)] \<and>
      fst (caching_GetItem map_redis pg_GetItem ''A'' c) = Inr \<lparr>SKU = ''A'', Name = ''a'', Quantity = 10\<rparr> \<and>
      row (tables (cs_next c)) ''A'' = Some \<lparr>SKU = ''A'', Name = ''a'', Quantity = 6\<rparr>"
proof -
  let ?i = "\<lparr>SKU = ''A'', Name = ''a'', Quantity = 10\<rparr>"
  obtain rs c where r: "cpg_ops map_redis [Op_Get ''A'', Op_Reserve ''A'' 4] (sample [Works, Fails_after]) = (rs, c)"
    by (rule prod.exhaust)
  have u: "item_utf8 ?i" by (simp add: item_utf8_def ascii_def in_int64_def)
  have p: "map snd rs = [Inr ?i, Inl (Wrapped ''reserve stock'' connection_lost)]"
    "tables (cs_next c) ''A'' = Some (''a'', 6)"
    and v: "cs_redis c (cacheKey ''A'') = Some (render (item_json ?i))"
    using r by (auto simp: op_defs pg_query_def select_item_def update_reserve_def set_quantity_def
        in_int32_def Let_def)
  have "fst (caching_GetItem map_redis pg_GetItem ''A'' c) = Inr ?i"
    using v u by (simp add: caching_GetItem_def unmarshal_item_render)
  with r p show ?thesis by simp
qed

end
