(* ===== verification/GoHttp.thy ===== *)
theory GoHttp
  imports GoJson
begin

text \<open>
  The part of \<open>net/http\<close> the services rest on: a handler as the sequence of its calls on the
  \<open>ResponseWriter\<close>, the status the client gets, and the routing of \<open>ServeMux\<close> (Go 1.22 patterns).
  Paths are clean and free of percent escapes; the redirects for other paths are not modelled.
\<close>

section \<open>Responses\<close>

datatype rw_call =
    SetHeader string string
  | WriteHeader int
  | Write string

text \<open>
  The status line is sent by the first \<open>WriteHeader\<close> that is not informational, or with 200 by the
  first \<open>Write\<close> or at the end.
\<close>

fun sent_status :: "rw_call list \<Rightarrow> int" where
  "sent_status [] = 200"
| "sent_status (SetHeader k v # cs) = sent_status cs"
| "sent_status (Write b # cs) = 200"
| "sent_status (WriteHeader n # cs) =
     (if 100 \<le> n \<and> n \<le> 199 \<and> n \<noteq> 101 then sent_status cs else n)"

fun sent_body :: "rw_call list \<Rightarrow> string" where
  "sent_body [] = []"
| "sent_body (Write b # cs) = b @ sent_body cs"
| "sent_body (c # cs) = sent_body cs"

text \<open>A handler that sets headers, then the status once, then writes.\<close>

fun no_status :: "rw_call list \<Rightarrow> bool" where
  "no_status [] = True"
| "no_status (WriteHeader n # cs) = False"
| "no_status (c # cs) = no_status cs"

fun one_status :: "rw_call list \<Rightarrow> bool" where
  "one_status [] = False"
| "one_status (SetHeader k v # cs) = one_status cs"
| "one_status (Write b # cs) = False"
| "one_status (WriteHeader n # cs) = (200 \<le> n \<and> no_status cs)"

section \<open>Requests and handlers\<close>

record request =
  req_Method :: string
  req_Path :: string
  req_Pattern :: string
  req_PathValues :: "(string \<times> string) list"
  req_Body :: string

definition PathValue :: "request \<Rightarrow> string \<Rightarrow> string" where
  "PathValue r k = (case map_of (req_PathValues r) k of Some v \<Rightarrow> v | None \<Rightarrow> [])"

text \<open>
  A handler reads a request in a world; it answers with calls on the writer, effects and the next
  world. A server handler also returns the request, whose \<open>Pattern\<close> the mux sets in place.
\<close>

type_synonym 's endpoint = "request \<Rightarrow> 's \<Rightarrow> rw_call list \<times> effect list \<times> 's"
type_synonym 's server = "request \<Rightarrow> 's \<Rightarrow> request \<times> rw_call list \<times> effect list \<times> 's"

section \<open>ServeMux\<close>

datatype seg = Lit string | Wild string | Multi

record 's route =
  rt_Text :: string
  rt_Method :: "string option"
  rt_Segs :: "seg list"
  rt_Handler :: "'s endpoint"

text \<open>\<open>firstSegment\<close>, repeated: a trailing slash is a segment \<open>/\<close> of its own.\<close>

function path_segs :: "string \<Rightarrow> string list" where
  "path_segs s =
     (if s = [] then []
      else if tl s = [] then [''/'']
      else takeWhile (\<lambda>c. c \<noteq> CHR ''/'') (tl s) # path_segs (dropWhile (\<lambda>c. c \<noteq> CHR ''/'') (tl s)))"
  by pat_completeness auto
termination
  by (relation "measure length")
    (auto simp: le_imp_less_Suc length_dropWhile_le,
      metis Suc_pred' length_dropWhile_le length_greater_0_conv le_imp_less_Suc length_tl)

declare path_segs.simps [simp del]

fun match_segs :: "seg list \<Rightarrow> string list \<Rightarrow> (string \<times> string) list option" where
  "match_segs [] [] = Some []"
| "match_segs (Multi # ps) xs = Some []"
| "match_segs (Lit l # ps) (x # xs) = (if x = l then match_segs ps xs else None)"
| "match_segs (Wild n # ps) (x # xs) =
     (if x = ''/'' then None else map_option (\<lambda>vs. (n, x) # vs) (match_segs ps xs))"
| "match_segs _ _ = None"

definition route_matches :: "string option \<Rightarrow> string list \<Rightarrow> 's route \<Rightarrow> bool" where
  "route_matches m segs rt \<longleftrightarrow> rt_Method rt = m \<and> match_segs (rt_Segs rt) segs \<noteq> None"

text \<open>
  The method's own routes first, then for HEAD those of GET, then routes without a method. The
  services register no two routes of one method that match a common path, so the first is the one.
\<close>

definition find_route :: "'s route list \<Rightarrow> string \<Rightarrow> string list \<Rightarrow> 's route option" where
  "find_route rts m segs =
     (case find (route_matches (Some m) segs) rts of
        Some rt \<Rightarrow> Some rt
      | None \<Rightarrow>
          (case (if m = ''HEAD'' then find (route_matches (Some ''GET'') segs) rts else None) of
             Some rt \<Rightarrow> Some rt
           | None \<Rightarrow> find (route_matches None segs) rts))"

definition http_Error :: "string \<Rightarrow> int \<Rightarrow> rw_call list" where
  "http_Error text status =
     [SetHeader ''Content-Type'' ''text/plain; charset=utf-8'',
      SetHeader ''X-Content-Type-Options'' ''nosniff'',
      WriteHeader status, Write (text @ [CHR 0x0A])]"

definition allowed_methods :: "'s route list \<Rightarrow> string list \<Rightarrow> string list" where
  "allowed_methods rts segs =
     (let ms = remdups (map (\<lambda>rt. the (rt_Method rt))
                 (filter (\<lambda>rt. rt_Method rt \<noteq> None \<and> match_segs (rt_Segs rt) segs \<noteq> None) rts))
      in if ''GET'' \<in> set ms then ''GET'' # ''HEAD'' # filter (\<lambda>m. m \<noteq> ''GET'' \<and> m \<noteq> ''HEAD'') ms else ms)"

definition join_comma :: "string list \<Rightarrow> string" where
  "join_comma ms = (case ms of [] \<Rightarrow> [] | m # r \<Rightarrow> m @ concat (map (\<lambda>x. '', '' @ x) r))"

definition ServeMux :: "'s route list \<Rightarrow> 's server" where
  "ServeMux rts r s =
     (let segs = path_segs (req_Path r) in
      case find_route rts (req_Method r) segs of
        Some rt \<Rightarrow>
          let r' = r\<lparr>req_Pattern := rt_Text rt, req_PathValues := the (match_segs (rt_Segs rt) segs)\<rparr>;
              (calls, effs, s') = rt_Handler rt r' s
          in (r', calls, effs, s')
      | None \<Rightarrow>
          if allowed_methods rts segs \<noteq> []
          then (r\<lparr>req_Pattern := []\<rparr>,
                SetHeader ''Allow'' (join_comma (allowed_methods rts segs)) # http_Error ''Method Not Allowed'' 405,
                [], s)
          else (r\<lparr>req_Pattern := []\<rparr>, http_Error ''404 page not found'' 404, [], s))"

lemma slash_free:
  assumes "CHR ''/'' \<notin> set a"
  shows "takeWhile (\<lambda>c. c \<noteq> CHR ''/'') (a @ CHR ''/'' # r) = a"
    and "dropWhile (\<lambda>c. c \<noteq> CHR ''/'') (a @ CHR ''/'' # r) = CHR ''/'' # r"
    and "takeWhile (\<lambda>c. c \<noteq> CHR ''/'') a = a" and "dropWhile (\<lambda>c. c \<noteq> CHR ''/'') a = []"
  using assms by (induction a) auto

lemma path_segs_Nil [simp]: "path_segs [] = []"
  by (simp add: path_segs.simps)

lemma path_segs_more [simp]:
  "CHR ''/'' \<notin> set a \<Longrightarrow> path_segs (CHR ''/'' # a @ CHR ''/'' # r) = a # path_segs (CHR ''/'' # r)"
  by (subst path_segs.simps) (simp add: slash_free)

lemma path_segs_last [simp]:
  "CHR ''/'' \<notin> set a \<Longrightarrow> a \<noteq> [] \<Longrightarrow> path_segs (CHR ''/'' # a) = [a]"
  by (subst path_segs.simps) (simp add: slash_free)

lemma find_route_mem: "find_route rts m segs = Some rt \<Longrightarrow> rt \<in> set rts \<and> match_segs (rt_Segs rt) segs \<noteq> None"
  by (auto simp: find_route_def route_matches_def find_Some_iff split: option.splits if_splits)

lemma one_status_http_Error [simp]: "200 \<le> n \<Longrightarrow> one_status (http_Error t n)"
  by (simp add: http_Error_def)

lemma ServeMux_one_status:
  assumes "\<And>rt r s. rt \<in> set rts \<Longrightarrow> one_status (fst (rt_Handler rt r s))"
  shows "one_status (fst (snd (ServeMux rts r s)))"
proof (cases "find_route rts (req_Method r) (path_segs (req_Path r))")
  case None
  then show ?thesis by (simp add: ServeMux_def Let_def)
next
  case (Some rt)
  with assms [of rt] find_route_mem [OF Some] show ?thesis
    by (auto simp: ServeMux_def Let_def split: prod.splits)
qed

lemma ServeMux_pattern:
  "req_Pattern (fst (ServeMux rts r s)) \<in> insert [] (rt_Text ` set rts)"
  using find_route_mem [of rts "req_Method r" "path_segs (req_Path r)"]
  by (auto simp: ServeMux_def Let_def split: option.splits prod.splits)

end
