(* ===== verification/HttpX.thy ===== *)
theory HttpX
  imports GoHttp
begin

text \<open>
  The \<open>httpx\<close> and \<open>metrics\<close> packages every service carries (identical copies; the lines are
  order-service's): JSON responses, the status recorder, the logging and the metrics middleware.
  Shown: whatever a handler that sets its status once is wrapped in, the recorder sees the status
  the client gets, and the metrics' path label is a registered pattern or \<open>unmatched\<close>.
\<close>

section \<open>JSON responses\<close>

text \<open>\<open>None\<close> stands for a value \<open>Encode\<close> refuses: nothing is written and the error is dropped.\<close>

definition WriteJSON :: "int \<Rightarrow> json option \<Rightarrow> rw_call list" where
  "WriteJSON status v =
     [SetHeader ''Content-Type'' ''application/json'', WriteHeader status] @
     (case v of None \<Rightarrow> [] | Some j \<Rightarrow> [Write (render j @ [CHR 0x0A])])"

definition WriteError :: "int \<Rightarrow> string \<Rightarrow> rw_call list" where
  "WriteError status message = WriteJSON status (Some (JObj [(''error'', JStr message)]))"

lemma one_status_WriteJSON [simp]: "200 \<le> n \<Longrightarrow> one_status (WriteJSON n v)"
  by (cases v) (simp_all add: WriteJSON_def)

lemma one_status_WriteError [simp]: "200 \<le> n \<Longrightarrow> one_status (WriteError n m)"
  by (simp add: WriteError_def)

lemma sent_status_WriteJSON [simp]: "200 \<le> n \<Longrightarrow> sent_status (WriteJSON n v) = n"
  by (cases v) (simp_all add: WriteJSON_def)

lemma sent_status_WriteError [simp]: "200 \<le> n \<Longrightarrow> sent_status (WriteError n m) = n"
  by (simp add: WriteError_def)

text \<open>A client that parses the body of an error response finds the message.\<close>

lemma WriteError_body:
  "valid_utf8 m \<Longrightarrow> parse_first (sent_body (WriteError n m)) = Some (JObj [(''error'', JStr m)])"
  using parse_first_render [of "JObj [(''error'', JStr m)]" "[CHR 0x0A]"]
  by (simp add: WriteError_def WriteJSON_def ascii_def)

section \<open>The status recorder\<close>

record statusRecorder =
  rec_status :: int
  rec_calls :: "rw_call list"

definition new_recorder :: statusRecorder where
  "new_recorder = \<lparr>rec_status = 200, rec_calls = []\<rparr>"

text \<open>The recorder overrides \<open>WriteHeader\<close>; every other call goes to the embedded writer.\<close>

fun recorder_call :: "rw_call \<Rightarrow> statusRecorder \<Rightarrow> statusRecorder" where
  "recorder_call (WriteHeader n) r = r\<lparr>rec_status := n, rec_calls := rec_calls r @ [WriteHeader n]\<rparr>"
| "recorder_call c r = r\<lparr>rec_calls := rec_calls r @ [c]\<rparr>"

definition record_calls :: "rw_call list \<Rightarrow> statusRecorder" where
  "record_calls cs = fold recorder_call cs new_recorder"

lemma fold_recorder_calls: "rec_calls (fold recorder_call cs r) = rec_calls r @ cs"
proof (induction cs arbitrary: r)
  case (Cons c cs)
  then show ?case by (cases c) auto
qed simp

lemma record_calls_forwards [simp]: "rec_calls (record_calls cs) = cs"
  by (simp add: record_calls_def fold_recorder_calls new_recorder_def)

lemma fold_recorder_no_status: "no_status cs \<Longrightarrow> rec_status (fold recorder_call cs r) = rec_status r"
  by (induction cs arbitrary: r rule: no_status.induct) auto

lemma fold_recorder_one_status: "one_status cs \<Longrightarrow> rec_status (fold recorder_call cs r) = sent_status cs"
  by (induction cs arbitrary: r rule: one_status.induct) (auto simp: fold_recorder_no_status)

lemma recorder_sees_sent_status: "one_status cs \<Longrightarrow> rec_status (record_calls cs) = sent_status cs"
  by (simp add: record_calls_def fold_recorder_one_status)

section \<open>Middleware\<close>

text \<open>
  What the environment supplies to one request: the milliseconds it took and the trace id of a
  valid span context.
\<close>

record req_env =
  env_ms :: int
  env_trace :: "string option"

definition LoggingMiddleware :: "req_env \<Rightarrow> 's server \<Rightarrow> 's server" where
  "LoggingMiddleware env next r s =
     (let (r', calls, effs, s') = next r s;
          rec = record_calls calls;
          attrs = [(''method'', req_Method r'), (''path'', req_Path r'),
                   (''status'', Itoa (rec_status rec)), (''duration_ms'', Itoa (env_ms env))];
          attrs' = (case env_trace env of
                      Some tid \<Rightarrow> attrs @ [(''trace_id'', tid)]
                    | None \<Rightarrow> attrs)
      in (r', rec_calls rec, effs @ [Log_Info ''request handled'' attrs'], s'))"

definition HTTPMiddleware :: "'s server \<Rightarrow> 's server" where
  "HTTPMiddleware next r s =
     (let (r', calls, effs, s') = next r s;
          rec = record_calls calls;
          path = (if req_Pattern r' = [] then ''unmatched'' else req_Pattern r');
          status = Itoa (rec_status rec);
          labels = [req_Method r', path, status]
      in (r', rec_calls rec,
          effs @ [Counter_Inc ''http_requests_total'' labels,
                  Observe ''http_request_duration_seconds'' labels], s'))"

text \<open>
  The chain every \<open>main\<close> builds: \<open>LoggingMiddleware(HTTPMiddleware(mux))\<close>, and the filter that
  keeps health checks and scrapes out of the traces.
\<close>

definition handler_chain :: "req_env \<Rightarrow> 's route list \<Rightarrow> 's server" where
  "handler_chain env rts = LoggingMiddleware env (HTTPMiddleware (ServeMux rts))"

definition otel_filter :: "request \<Rightarrow> bool" where
  "otel_filter r \<longleftrightarrow> req_Path r \<noteq> ''/healthz'' \<and> req_Path r \<noteq> ''/metrics''"

definition path_label :: "request \<Rightarrow> string" where
  "path_label r = (if req_Pattern r = [] then ''unmatched'' else req_Pattern r)"

lemma handler_chain_eq:
  "handler_chain env rts r s =
     (let (r', calls, effs, s') = ServeMux rts r s;
          st = Itoa (rec_status (record_calls calls));
          labels = [req_Method r', path_label r', st]
      in (r', calls,
          effs @ [Counter_Inc ''http_requests_total'' labels,
                  Observe ''http_request_duration_seconds'' labels,
                  Log_Info ''request handled''
                    ([(''method'', req_Method r'), (''path'', req_Path r'), (''status'', st),
                      (''duration_ms'', Itoa (env_ms env))] @
                     (case env_trace env of Some tid \<Rightarrow> [(''trace_id'', tid)] | None \<Rightarrow> []))], s'))"
  by (auto simp: handler_chain_def LoggingMiddleware_def HTTPMiddleware_def Let_def path_label_def
      split: prod.splits option.splits)

text \<open>The middleware adds metrics and a log line; calls and world are those of the mux.\<close>

lemma handler_chain_calls:
  "ServeMux rts r s = (r', calls, effs, s') \<Longrightarrow>
     \<exists>more. handler_chain env rts r s = (r', calls, effs @ more, s')"
  by (auto simp: handler_chain_eq Let_def split: prod.splits)

end
