(* ===== verification/InventoryServer.thy ===== *)
theory InventoryServer
  imports InventoryCache HttpX
begin

text \<open>
  inventory-service's two transports over its \<open>Store\<close>: the REST handler (\<open>handler.go\<close>) and the gRPC
  server (\<open>grpc_server.go\<close>) behind the generated dispatch code and the metrics interceptor. The
  store's operations are arguments; the lemmas are proved in the locale of the \<open>Store\<close> interface.
\<close>

section \<open>REST handler\<close>

definition log_failure :: "string \<Rightarrow> string \<Rightarrow> string \<Rightarrow> go_error \<Rightarrow> effect list" where
  "log_failure msg key v e = [Log_Error msg [(key, v), (''error'', err_text e)]]"

definition inventory_getItem ::
  "(string \<Rightarrow> 's \<Rightarrow> (go_error + item) \<times> 's) \<Rightarrow> 's endpoint" where
  "inventory_getItem getItem r s =
     (let sku = PathValue r ''sku''; (res, s') = getItem sku s in
      case res of
        Inl e \<Rightarrow>
          if errors_Is e Inventory_ErrNotFound then (WriteError 404 ''item not found'', [], s')
          else (WriteError 500 ''internal error'', log_failure ''get item failed'' ''sku'' sku e, s')
      | Inr it \<Rightarrow> (WriteJSON 200 (Some (item_json it)), [], s'))"

record restockRequest =
  rr_Quantity :: int

definition put_restock :: "string \<Rightarrow> json \<Rightarrow> restockRequest \<Rightarrow> restockRequest option" where
  "put_restock f v r = map_option (\<lambda>x. r\<lparr>rr_Quantity := x\<rparr>) (put_int v (rr_Quantity r))"

definition decode_restock :: "string \<Rightarrow> go_error + restockRequest" where
  "decode_restock = json_Decode [''quantity''] put_restock \<lparr>rr_Quantity = 0\<rparr>"

definition inventory_restockItem ::
  "(string \<Rightarrow> int \<Rightarrow> 's \<Rightarrow> (go_error + item) \<times> 's) \<Rightarrow> 's endpoint" where
  "inventory_restockItem restockItem r s =
     (let sku = PathValue r ''sku'' in
      case decode_restock (req_Body r) of
        Inl e \<Rightarrow> (WriteError 400 ''invalid request body'', [], s)
      | Inr req \<Rightarrow>
          if rr_Quantity req \<le> 0 then (WriteError 400 ''quantity must be positive'', [], s)
          else
            (let (res, s') = restockItem sku (rr_Quantity req) s in
             case res of
               Inl e \<Rightarrow>
                 if errors_Is e Inventory_ErrNotFound then (WriteError 404 ''item not found'', [], s')
                 else (WriteError 500 ''internal error'', log_failure ''restock item failed'' ''sku'' sku e, s')
             | Inr it \<Rightarrow>
                 (WriteJSON 200 (Some (item_json it)), [Counter_Inc ''items_restocked_total'' []], s')))"

text \<open>\<open>HealthHandler\<close> over the pool's \<open>Ping\<close>.\<close>

definition HealthHandler :: "('s \<Rightarrow> go_error option \<times> 's) \<Rightarrow> 's endpoint" where
  "HealthHandler ping r s =
     (case ping s of
        (Some e, s') \<Rightarrow> (WriteJSON 503 (Some (JObj [(''status'', JStr ''unavailable'')])), [], s')
      | (None, s') \<Rightarrow> (WriteJSON 200 (Some (JObj [(''status'', JStr ''ok'')])), [], s'))"

text \<open>\<open>Register\<close> and the two routes \<open>main\<close> adds; the scrape endpoint is the Prometheus library's.\<close>

definition inventory_Register ::
  "(string \<Rightarrow> 's \<Rightarrow> (go_error + item) \<times> 's) \<Rightarrow> (string \<Rightarrow> int \<Rightarrow> 's \<Rightarrow> (go_error + item) \<times> 's) \<Rightarrow>
   's route list" where
  "inventory_Register getItem restockItem =
     [\<lparr>rt_Text = ''GET /items/{sku}'', rt_Method = Some ''GET'',
       rt_Segs = [Lit ''items'', Wild ''sku''], rt_Handler = inventory_getItem getItem\<rparr>,
      \<lparr>rt_Text = ''POST /items/{sku}/restock'', rt_Method = Some ''POST'',
       rt_Segs = [Lit ''items'', Wild ''sku'', Lit ''restock''], rt_Handler = inventory_restockItem restockItem\<rparr>]"

definition service_routes ::
  "('s \<Rightarrow> go_error option \<times> 's) \<Rightarrow> 's endpoint \<Rightarrow> 's route list" where
  "service_routes ping scrape =
     [\<lparr>rt_Text = ''GET /healthz'', rt_Method = Some ''GET'', rt_Segs = [Lit ''healthz''],
       rt_Handler = HealthHandler ping\<rparr>,
      \<lparr>rt_Text = ''GET /metrics'', rt_Method = Some ''GET'', rt_Segs = [Lit ''metrics''],
       rt_Handler = scrape\<rparr>]"

definition inventory_http ::
  "(string \<Rightarrow> 's \<Rightarrow> (go_error + item) \<times> 's) \<Rightarrow> (string \<Rightarrow> int \<Rightarrow> 's \<Rightarrow> (go_error + item) \<times> 's) \<Rightarrow>
   ('s \<Rightarrow> go_error option \<times> 's) \<Rightarrow> 's endpoint \<Rightarrow> req_env \<Rightarrow> 's server" where
  "inventory_http getItem restockItem ping scrape env =
     handler_chain env (inventory_Register getItem restockItem @ service_routes ping scrape)"

section \<open>Protocol buffers and the gRPC server\<close>

record ReserveStockRequest =
  rq_Sku :: string
  rq_Quantity :: int

record ReserveStockResponse =
  rs_Sku :: string
  rs_Name :: string
  rs_Quantity :: int

text \<open>The generated getters: a nil message reads as the zero values.\<close>

definition rq_GetSku :: "ReserveStockRequest option \<Rightarrow> string" where
  "rq_GetSku x = (case x of Some m \<Rightarrow> rq_Sku m | None \<Rightarrow> [])"

definition rq_GetQuantity :: "ReserveStockRequest option \<Rightarrow> int" where
  "rq_GetQuantity x = (case x of Some m \<Rightarrow> rq_Quantity m | None \<Rightarrow> 0)"

definition rs_GetSku :: "ReserveStockResponse option \<Rightarrow> string" where
  "rs_GetSku x = (case x of Some m \<Rightarrow> rs_Sku m | None \<Rightarrow> [])"

definition rs_GetName :: "ReserveStockResponse option \<Rightarrow> string" where
  "rs_GetName x = (case x of Some m \<Rightarrow> rs_Name m | None \<Rightarrow> [])"

definition rs_GetQuantity :: "ReserveStockResponse option \<Rightarrow> int" where
  "rs_GetQuantity x = (case x of Some m \<Rightarrow> rs_Quantity m | None \<Rightarrow> 0)"

type_synonym 's rpc = "ReserveStockRequest option \<Rightarrow> 's \<Rightarrow> (go_error + ReserveStockResponse) \<times> effect list \<times> 's"

definition grpc_ReserveStock :: "(string \<Rightarrow> int \<Rightarrow> 's \<Rightarrow> (go_error + item) \<times> 's) \<Rightarrow> 's rpc" where
  "grpc_ReserveStock reserveStock req s =
     (if rq_GetSku req = [] \<or> rq_GetQuantity req \<le> 0
      then (Inl (Status_Error InvalidArgument ''sku is required and quantity must be positive''), [], s)
      else
        (let (res, s') = reserveStock (rq_GetSku req) (rq_GetQuantity req) s in
         case res of
           Inl e \<Rightarrow>
             if errors_Is e Inventory_ErrNotFound then (Inl (Status_Error NotFound ''item not found''), [], s')
             else if errors_Is e Inventory_ErrInsufficientStock
             then (Inl (Status_Error FailedPrecondition ''insufficient stock''), [], s')
             else (Inl (Status_Error Internal ''internal error''),
                   log_failure ''reserve stock failed'' ''sku'' (rq_GetSku req) e, s')
         | Inr it \<Rightarrow>
             (Inr \<lparr>rs_Sku = SKU it, rs_Name = Name it, rs_Quantity = to_int32 (Quantity it)\<rparr>, [], s')))"

abbreviation result_error :: "go_error + 'a \<Rightarrow> go_error option" where
  "result_error r \<equiv> (case r of Inl e \<Rightarrow> Some e | Inr _ \<Rightarrow> None)"

definition UnaryServerInterceptor :: "string \<Rightarrow> 's rpc \<Rightarrow> 's rpc" where
  "UnaryServerInterceptor FullMethod handler req s =
     (let (resp, effs, s') = handler req s;
          code = code_String (status_Code (result_error resp))
      in (resp, effs @ [Counter_Inc ''grpc_server_requests_total'' [FullMethod, code],
                        Observe ''grpc_server_request_duration_seconds'' [FullMethod, code]], s'))"

text \<open>The generated dispatcher: \<open>dec\<close> decodes the wire bytes, the interceptor may be nil.\<close>

definition ReserveStock_FullMethodName :: string where
  "ReserveStock_FullMethodName = ''/inventory.v1.InventoryService/ReserveStock''"

definition ReserveStock_Handler ::
  "'s rpc \<Rightarrow> go_error + ReserveStockRequest \<Rightarrow> (string \<Rightarrow> 's rpc \<Rightarrow> 's rpc) option \<Rightarrow> 's \<Rightarrow>
   (go_error + ReserveStockResponse) \<times> effect list \<times> 's" where
  "ReserveStock_Handler srv dec interceptor s =
     (case dec of
        Inl e \<Rightarrow> (Inl e, [], s)
      | Inr m \<Rightarrow>
          (case interceptor of
             None \<Rightarrow> srv (Some m) s
           | Some icpt \<Rightarrow> icpt ReserveStock_FullMethodName srv (Some m) s))"

text \<open>What \<open>main\<close> serves over gRPC.\<close>

definition inventory_grpc ::
  "(string \<Rightarrow> int \<Rightarrow> 's \<Rightarrow> (go_error + item) \<times> 's) \<Rightarrow> go_error + ReserveStockRequest \<Rightarrow> 's \<Rightarrow>
   (go_error + ReserveStockResponse) \<times> effect list \<times> 's" where
  "inventory_grpc reserveStock dec s =
     ReserveStock_Handler (grpc_ReserveStock reserveStock) dec (Some UnaryServerInterceptor) s"

lemmas [op_defs] = inventory_getItem_def inventory_restockItem_def grpc_ReserveStock_def
  UnaryServerInterceptor_def ReserveStock_Handler_def inventory_grpc_def

section \<open>Routing\<close>

lemma inventory_mux_restock:
  assumes "req_Method r = ''POST''" and "req_Path r = ''/items/'' @ sku @ ''/restock''"
    and "sku \<noteq> []" and "CHR ''/'' \<notin> set sku"
  shows "ServeMux (inventory_Register getItem restockItem @ service_routes ping scrape) r s =
    (let r' = r\<lparr>req_Pattern := ''POST /items/{sku}/restock'', req_PathValues := [(''sku'', sku)]\<rparr>;
         (calls, effs, s') = inventory_restockItem restockItem r' s in (r', calls, effs, s'))"
proof -
  have "path_segs (req_Path r) = [''items'', sku, ''restock'']"
    using assms path_segs_more [of "''items''" "sku @ ''/restock''"] path_segs_more [of sku "''restock''"]
    by simp
  moreover have "sku \<noteq> ''/''" using assms(4) by auto
  ultimately show ?thesis
    using assms(1,3) by (simp add: ServeMux_def find_route_def route_matches_def inventory_Register_def
        service_routes_def Let_def)
qed

lemma inventory_mux_get:
  assumes "req_Method r = ''GET''" and "req_Path r = ''/items/'' @ sku"
    and "sku \<noteq> []" and "CHR ''/'' \<notin> set sku"
  shows "ServeMux (inventory_Register getItem restockItem @ service_routes ping scrape) r s =
    (let r' = r\<lparr>req_Pattern := ''GET /items/{sku}'', req_PathValues := [(''sku'', sku)]\<rparr>;
         (calls, effs, s') = inventory_getItem getItem r' s in (r', calls, effs, s'))"
proof -
  have "path_segs (req_Path r) = [''items'', sku]"
    using assms path_segs_more [of "''items''" sku] by simp
  moreover have "sku \<noteq> ''/''" using assms(4) by auto
  ultimately show ?thesis
    using assms(1,3) by (simp add: ServeMux_def find_route_def route_matches_def inventory_Register_def
        service_routes_def Let_def)
qed

section \<open>What the transports promise\<close>

lemma errors_Is_disjoint:
  "errors_Is e Inventory_ErrNotFound \<Longrightarrow> \<not> errors_Is e Inventory_ErrInsufficientStock"
  by (induction e Inventory_ErrNotFound rule: errors_Is.induct) auto

context inventory_store begin

lemma restock_handler:
  assumes "inventory_restockItem restockItem r s = (calls, effs, s')"
  obtains (moved) q it where "sent_status calls = 200" "decode_restock (req_Body r) = Inr \<lparr>rr_Quantity = q\<rparr>"
      "0 < q" "moved (PathValue r ''sku'') q (stock s) (stock s') it"
      "calls = WriteJSON 200 (Some (item_json it))" "effs = [Counter_Inc ''items_restocked_total'' []]"
  | (bad) "sent_status calls = 400" "s' = s" "effs = []"
      "\<forall>req. decode_restock (req_Body r) = Inr req \<longrightarrow> rr_Quantity req \<le> 0"
  | (missing) "sent_status calls = 404" "stock s (PathValue r ''sku'') = None" "stock s' = stock s" "effs = []"
  | (failed) q e where "sent_status calls = 500" "decode_restock (req_Body r) = Inr \<lparr>rr_Quantity = q\<rparr>"
      "stock s' = stock s \<or> (\<exists>it. moved (PathValue r ''sku'') q (stock s) (stock s') it)"
      "effs = log_failure ''restock item failed'' ''sku'' (PathValue r ''sku'') e"
proof (cases "decode_restock (req_Body r)")
  case (Inl e)
  with assms show thesis by (intro bad) (auto simp: inventory_restockItem_def)
next
  case (Inr req)
  show thesis
  proof (cases "rr_Quantity req \<le> 0")
    case True
    with Inr assms show thesis by (intro bad) (auto simp: inventory_restockItem_def)
  next
    case False
    obtain res s1 where w: "restockItem (PathValue r ''sku'') (rr_Quantity req) s = (res, s1)" by force
    show thesis
    proof (cases res)
      case (Inl e)
      show thesis
      proof (cases "errors_Is e Inventory_ErrNotFound")
        case True
        with Inl \<open>decode_restock (req_Body r) = Inr req\<close> False w assms restock_missing [OF w [unfolded Inl] True]
        show thesis by (intro missing) (auto simp: inventory_restockItem_def Let_def)
      next
        case nf: False
        with Inl \<open>decode_restock (req_Body r) = Inr req\<close> False w assms restock_failed [OF w [unfolded Inl]]
        show thesis by (intro failed [of "rr_Quantity req" e]) (auto simp: inventory_restockItem_def Let_def)
      qed
    next
      case Inr': (Inr it)
      with \<open>decode_restock (req_Body r) = Inr req\<close> False w assms restock_ok [OF w [unfolded Inr']]
      show thesis by (intro moved [of "rr_Quantity req" it]) (auto simp: inventory_restockItem_def Let_def)
    qed
  qed
qed

lemma reserve_server:
  assumes "inventory_grpc reserveStock (Inr m) s = (res, effs, s')"
    and "code = status_Code (result_error res)"
  shows "code = OK \<Longrightarrow> \<exists>it. rq_Sku m \<noteq> [] \<and> 0 < rq_Quantity m \<and>
      moved (rq_Sku m) (- rq_Quantity m) (stock s) (stock s') it \<and>
      res = Inr \<lparr>rs_Sku = SKU it, rs_Name = Name it, rs_Quantity = Quantity it\<rparr>"
    and "code = InvalidArgument \<Longrightarrow> (rq_Sku m = [] \<or> rq_Quantity m \<le> 0) \<and> s' = s"
    and "code = NotFound \<Longrightarrow> stock s (rq_Sku m) = None \<and> stock s' = stock s"
    and "code = FailedPrecondition \<Longrightarrow> available (stock s) (rq_Sku m) < rq_Quantity m \<and> stock s' = stock s"
    and "code = Internal \<Longrightarrow> stock s' = stock s \<or> (\<exists>it. moved (rq_Sku m) (- rq_Quantity m) (stock s) (stock s') it)"
    and "code \<in> {OK, InvalidArgument, NotFound, FailedPrecondition, Internal}"
    and "Counter_Inc ''grpc_server_requests_total'' [ReserveStock_FullMethodName, code_String code] \<in> set effs"
proof -
  obtain r1 s1 where w: "reserveStock (rq_Sku m) (rq_Quantity m) s = (r1, s1)" by force
  note defs = op_defs rq_GetSku_def rq_GetQuantity_def Let_def status_Code_def
  show "code = OK \<Longrightarrow> \<exists>it. rq_Sku m \<noteq> [] \<and> 0 < rq_Quantity m \<and>
      moved (rq_Sku m) (- rq_Quantity m) (stock s) (stock s') it \<and>
      res = Inr \<lparr>rs_Sku = SKU it, rs_Name = Name it, rs_Quantity = Quantity it\<rparr>"
    using assms w
    by (cases r1) (auto simp: defs split: if_splits dest!: reserve_ok simp: moved_def)
  show "code = InvalidArgument \<Longrightarrow> (rq_Sku m = [] \<or> rq_Quantity m \<le> 0) \<and> s' = s"
    using assms w by (cases r1) (auto simp: defs split: if_splits)
  show "code = NotFound \<Longrightarrow> stock s (rq_Sku m) = None \<and> stock s' = stock s"
    using assms w by (cases r1) (auto simp: defs split: if_splits dest: reserve_missing reserve_refused)
  show "code = FailedPrecondition \<Longrightarrow> available (stock s) (rq_Sku m) < rq_Quantity m \<and> stock s' = stock s"
    using assms w
    by (cases r1)
      (auto simp: defs available_def split: if_splits option.splits dest: reserve_insufficient reserve_refused)
  show "code = Internal \<Longrightarrow> stock s' = stock s \<or> (\<exists>it. moved (rq_Sku m) (- rq_Quantity m) (stock s) (stock s') it)"
    using assms w by (cases r1) (auto simp: defs split: if_splits dest: reserve_failed)
  show "code \<in> {OK, InvalidArgument, NotFound, FailedPrecondition, Internal}"
    using assms w by (cases r1) (auto simp: defs split: if_splits)
  show "Counter_Inc ''grpc_server_requests_total'' [ReserveStock_FullMethodName, code_String code] \<in> set effs"
    using assms w by (cases r1) (auto simp: defs split: if_splits)
qed

end

section \<open>Properties\<close>

lemma one_status_inventory_handlers:
  "one_status (fst (inventory_restockItem restockItem r s))"
  "one_status (fst (inventory_getItem getItem r s))"
  by (auto simp: op_defs Let_def split: sum.splits prod.splits)

lemma handler_chain_counts:
  assumes "handler_chain env rts r s = (r', calls, effs, s')" and "one_status calls"
  shows "Counter_Inc ''http_requests_total'' [req_Method r', path_label r', Itoa (sent_status calls)] \<in> set effs"
  using assms by (auto simp: handler_chain_eq Let_def recorder_sees_sent_status split: prod.splits)

lemma inventory_http_restock:
  assumes "req_Method r = ''POST''" and "req_Path r = ''/items/'' @ sku @ ''/restock''"
    and "sku \<noteq> []" and "CHR ''/'' \<notin> set sku"
    and "inventory_http getItem restockItem ping scrape env r s = (r', calls, effs, s')"
  shows "\<exists>e1. inventory_restockItem restockItem r' s = (calls, e1, s') \<and> PathValue r' ''sku'' = sku \<and>
    req_Body r' = req_Body r \<and>
    Counter_Inc ''http_requests_total'' [''POST'', ''POST /items/{sku}/restock'', Itoa (sent_status calls)] \<in> set effs"
proof -
  define r1 where "r1 = r\<lparr>req_Pattern := ''POST /items/{sku}/restock'', req_PathValues := [(''sku'', sku)]\<rparr>"
  obtain c1 e1 s1 where h: "inventory_restockItem restockItem r1 s = (c1, e1, s1)" by (rule prod_cases3)
  have m: "ServeMux (inventory_Register getItem restockItem @ service_routes ping scrape) r s = (r1, c1, e1, s1)"
    using inventory_mux_restock [OF assms(1-4), of getItem restockItem ping scrape s] h
    by (simp add: r1_def)
  from handler_chain_calls [OF m, of env] assms(5) have eq: "r' = r1" "calls = c1" "s' = s1"
    by (auto simp: inventory_http_def)
  have simps: "PathValue r1 ''sku'' = sku" "req_Body r1 = req_Body r"
    "req_Method r1 = ''POST''" "path_label r1 = ''POST /items/{sku}/restock''"
    using assms(1) by (simp_all add: r1_def PathValue_def path_label_def)
  have "one_status calls"
    using one_status_inventory_handlers(1) [of restockItem r1 s] h eq by simp
  from handler_chain_counts [OF assms(5) [unfolded inventory_http_def] this] h eq simps
  show ?thesis by simp
qed

lemma inventory_http_get:
  assumes "req_Method r = ''GET''" and "req_Path r = ''/items/'' @ sku"
    and "sku \<noteq> []" and "CHR ''/'' \<notin> set sku"
    and "inventory_http getItem restockItem ping scrape env r s = (r', calls, effs, s')"
  shows "\<exists>e1. inventory_getItem getItem r' s = (calls, e1, s') \<and> PathValue r' ''sku'' = sku \<and>
    Counter_Inc ''http_requests_total'' [''GET'', ''GET /items/{sku}'', Itoa (sent_status calls)] \<in> set effs"
proof -
  define r1 where "r1 = r\<lparr>req_Pattern := ''GET /items/{sku}'', req_PathValues := [(''sku'', sku)]\<rparr>"
  obtain c1 e1 s1 where h: "inventory_getItem getItem r1 s = (c1, e1, s1)" by (rule prod_cases3)
  have m: "ServeMux (inventory_Register getItem restockItem @ service_routes ping scrape) r s = (r1, c1, e1, s1)"
    using inventory_mux_get [OF assms(1-4), of getItem restockItem ping scrape s] h
    by (simp add: r1_def)
  from handler_chain_calls [OF m, of env] assms(5) have eq: "r' = r1" "calls = c1" "s' = s1"
    by (auto simp: inventory_http_def)
  have simps: "PathValue r1 ''sku'' = sku" "req_Method r1 = ''GET''" "path_label r1 = ''GET /items/{sku}''"
    using assms(1) by (simp_all add: r1_def PathValue_def path_label_def)
  have "one_status calls"
    using one_status_inventory_handlers(2) [of getItem r1 s] h eq by simp
  from handler_chain_counts [OF assms(5) [unfolded inventory_http_def] this] h eq simps
  show ?thesis by simp
qed

text \<open>The HTTP and gRPC servers of \<open>main.go\<close>, over the cached store.\<close>

abbreviation inventory_service_http ::
  "'r redis_client \<Rightarrow> ((stock pg, 'r) caching \<Rightarrow> go_error option \<times> (stock pg, 'r) caching) \<Rightarrow>
   (stock pg, 'r) caching endpoint \<Rightarrow> req_env \<Rightarrow> (stock pg, 'r) caching server" where
  "inventory_service_http redis \<equiv>
     inventory_http (caching_GetItem redis pg_GetItem) (caching_RestockItem redis pg_RestockItem)"

abbreviation inventory_service_grpc ::
  "'r redis_client \<Rightarrow> go_error + ReserveStockRequest \<Rightarrow> (stock pg, 'r) caching \<Rightarrow>
   (go_error + ReserveStockResponse) \<times> effect list \<times> (stock pg, 'r) caching" where
  "inventory_service_grpc redis \<equiv> inventory_grpc (caching_ReserveStock redis pg_ReserveStock)"

text \<open>
  The answers as functions of the request, the row and the fate of the statements: \<open>net\<close> holds the
  outcomes of the round trips to Postgres to come.
\<close>

definition restock_status :: "go_error + restockRequest \<Rightarrow> (string \<times> int) option \<Rightarrow> io list \<Rightarrow> int" where
  "restock_status body found net =
     (case body of
        Inl e \<Rightarrow> 400
      | Inr req \<Rightarrow>
          if rr_Quantity req \<le> 0 then 400
          else if fst (next_io net) \<noteq> Works \<or> \<not> in_int32 (rr_Quantity req) then 500
          else case found of
                 None \<Rightarrow> 404
               | Some (n, h) \<Rightarrow> if 0 \<le> h + rr_Quantity req \<and> in_int32 (h + rr_Quantity req) then 200 else 500)"

definition reserve_code :: "ReserveStockRequest \<Rightarrow> (string \<times> int) option \<Rightarrow> io list \<Rightarrow> code" where
  "reserve_code m found net =
     (let (first, rest) = next_io net in
      if rq_Sku m = [] \<or> rq_Quantity m \<le> 0 then InvalidArgument
      else if first \<noteq> Works \<or> \<not> in_int32 (rq_Quantity m) then Internal
      else case found of
             None \<Rightarrow> if fst (next_io rest) = Works then NotFound else FailedPrecondition
           | Some (n, h) \<Rightarrow>
               if h < rq_Quantity m then FailedPrecondition
               else if in_int32 (h - rq_Quantity m) then OK else Internal)"

lemma restock_handler_status:
  assumes "inventory_restockItem (caching_RestockItem redis pg_RestockItem) r c = (calls, effs, c')"
  shows "sent_status calls =
    restock_status (decode_restock (req_Body r)) (tables (cs_next c) (PathValue r ''sku'')) (script (cs_next c))"
proof (cases "decode_restock (req_Body r)")
  case (Inl e)
  with assms show ?thesis by (auto simp: inventory_restockItem_def restock_status_def)
next
  case (Inr req)
  obtain x rest where x: "next_io (script (cs_next c)) = (x, rest)" by force
  show ?thesis
  proof (cases "0 < rr_Quantity req")
    case False
    with Inr assms show ?thesis by (auto simp: inventory_restockItem_def restock_status_def)
  next
    case True
    with Inr x assms show ?thesis
      by (cases x; cases "tables (cs_next c) (PathValue r ''sku'')")
        (auto simp: inventory_restockItem_def restock_status_def caching_RestockItem_def pg_RestockItem_def pg_query_def
          update_restock_def set_quantity_def Let_def split: if_splits)
  qed
qed

lemma inventory_grpc_code:
  "inventory_grpc reserveStock (Inr m) c = (res, effs, c') \<Longrightarrow> status_Code (result_error res) =
     (if rq_Sku m = [] \<or> rq_Quantity m \<le> 0 then InvalidArgument
      else case fst (reserveStock (rq_Sku m) (rq_Quantity m) c) of
             Inl e \<Rightarrow> if errors_Is e Inventory_ErrNotFound then NotFound
                     else if errors_Is e Inventory_ErrInsufficientStock then FailedPrecondition else Internal
           | Inr it \<Rightarrow> OK)"
  by (auto simp: inventory_grpc_def ReserveStock_Handler_def UnaryServerInterceptor_def grpc_ReserveStock_def
      rq_GetSku_def rq_GetQuantity_def status_Code_def Let_def split: prod.splits sum.splits if_splits)

lemma caching_ReserveStock_result:
  "fst (caching_ReserveStock redis reserveStock sku q c) = fst (reserveStock sku q (cs_next c))"
  by (simp add: caching_ReserveStock_def Let_def split: prod.splits sum.splits)

lemma pg_ReserveStock_result:
  assumes "next_io (script db) = (x, rest)" and "next_io rest = (y, rest')" and "0 < q"
  shows "fst (pg_ReserveStock sku q db) =
    (if x \<noteq> Works then Inl (Wrapped ''reserve stock'' connection_lost)
     else if \<not> in_int32 q then Inl (Wrapped ''reserve stock'' out_of_range)
     else case tables db sku of
            None \<Rightarrow> Inl (if y = Works then Inventory_ErrNotFound else Inventory_ErrInsufficientStock)
          | Some (n, h) \<Rightarrow>
              if h < q then Inl Inventory_ErrInsufficientStock
              else if in_int32 (h - q) then Inr \<lparr>SKU = sku, Name = n, Quantity = h - q\<rparr>
              else Inl (Wrapped ''reserve stock'' out_of_range))"
proof (cases x)
  case Works
  with assms show ?thesis
    by (cases y; cases "tables db sku")
      (auto simp: pg_ReserveStock_def pg_GetItem_def pg_query_def update_reserve_def select_item_def set_quantity_def)
qed (use assms in \<open>auto simp: pg_ReserveStock_def pg_query_def split: prod.splits\<close>)

lemma reserve_server_code:
  assumes "inventory_service_grpc redis (Inr m) c = (res, effs, c')"
  shows "status_Code (result_error res) =
    reserve_code m (tables (cs_next c) (rq_Sku m)) (script (cs_next c))"
proof -
  obtain x rest where x: "next_io (script (cs_next c)) = (x, rest)" by force
  obtain y rest' where y: "next_io rest = (y, rest')" by force
  show ?thesis
    unfolding inventory_grpc_code [OF assms] caching_ReserveStock_result
    using pg_ReserveStock_result [OF x y, of "rq_Quantity m" "rq_Sku m"] x y
    by (auto simp: reserve_code_def split: option.splits)
qed

text \<open>
  C19. Every answer of \<open>POST /items/{sku}/restock\<close>. The status is exactly: 400 for a body that does not
  decode or a quantity that is not positive; otherwise 500 when the round trip to Postgres fails or a
  quantity does not fit the column; otherwise 404 when there is no such row, and 200 when there is one.
  With 200 the row's quantity rose by the quantity of the body and the response is the new row; with 400
  and 404 nothing is touched; with 500 the row may or may not have moved. The request counter is
  labelled with the route pattern and the status the client got.
\<close>

theorem restock_endpoint:
  assumes "req_Method r = ''POST''" and "req_Path r = ''/items/'' @ sku @ ''/restock''"
    and "sku \<noteq> []" and "CHR ''/'' \<notin> set sku"
    and "inventory_service_http redis ping scrape env r c = (r', calls, effs, c')"
  shows "Counter_Inc ''http_requests_total'' [''POST'', ''POST /items/{sku}/restock'', Itoa (sent_status calls)] \<in> set effs
    \<and> sent_status calls = restock_status (decode_restock (req_Body r)) (tables (cs_next c) sku) (script (cs_next c))
    \<and> (sent_status calls = 200 \<and>
        (\<exists>q it. decode_restock (req_Body r) = Inr \<lparr>rr_Quantity = q\<rparr> \<and> 0 < q \<and>
          moved sku q (tables (cs_next c)) (tables (cs_next c')) it \<and> calls = WriteJSON 200 (Some (item_json it)))
      \<or> sent_status calls = 400 \<and> c' = c \<and>
        (\<forall>req. decode_restock (req_Body r) = Inr req \<longrightarrow> rr_Quantity req \<le> 0)
      \<or> sent_status calls = 404 \<and> tables (cs_next c) sku = None \<and> tables (cs_next c') = tables (cs_next c)
      \<or> sent_status calls = 500 \<and>
        (\<exists>q. decode_restock (req_Body r) = Inr \<lparr>rr_Quantity = q\<rparr> \<and>
          (tables (cs_next c') = tables (cs_next c) \<or>
            (\<exists>it. moved sku q (tables (cs_next c)) (tables (cs_next c')) it))))"
proof -
  from inventory_http_restock [OF assms] obtain e1 where
    h: "inventory_restockItem (caching_RestockItem redis pg_RestockItem) r' c = (calls, e1, c')"
    and simps: "PathValue r' ''sku'' = sku" "req_Body r' = req_Body r"
    and count: "Counter_Inc ''http_requests_total'' [''POST'', ''POST /items/{sku}/restock'', Itoa (sent_status calls)] \<in> set effs"
    by blast
  note status = restock_handler_status [OF h, unfolded simps]
  from h show ?thesis
  proof (cases rule: cpg.wrapped.restock_handler)
    case (moved q it)
    with count status show ?thesis unfolding simps by blast
  next
    case bad
    with count status show ?thesis unfolding simps by blast
  next
    case missing
    with count status show ?thesis unfolding simps by blast
  next
    case (failed q e)
    with count status show ?thesis unfolding simps by blast
  qed
qed

lemma decode_restock_render:
  assumes "in_int64 q" and "stop rest"
  shows "decode_restock (render (JObj [(''quantity'', JNum (Itoa q))]) @ rest) = Inr \<lparr>rr_Quantity = q\<rparr>"
  using parse_first_render [of "JObj [(''quantity'', JNum (Itoa q))]" rest] assms
  by (simp add: decode_restock_def json_Decode_def put_restock_def ascii_def ParseInt64_Itoa
      del: render.simps)

theorem restock_endpoint_witness:
  "let r = \<lparr>req_Method = ''POST'', req_Path = ''/items/A/restock'', req_Pattern = [], req_PathValues = [],
            req_Body = render (JObj [(''quantity'', JNum (Itoa 5))])\<rparr>;
       (r', calls, effs, c') = inventory_service_http map_redis (\<lambda>c. (None, c)) (\<lambda>r c. ([], [], c))
         \<lparr>env_ms = 3, env_trace = None\<rparr> r (sample [])
   in sent_status calls = 200 \<and>
      moved ''A'' 5 (tables (cs_next (sample []))) (tables (cs_next c')) \<lparr>SKU = ''A'', Name = ''a'', Quantity = 15\<rparr>"
proof -
  let ?r = "\<lparr>req_Method = ''POST'', req_Path = ''/items/A/restock'', req_Pattern = [], req_PathValues = [],
            req_Body = render (JObj [(''quantity'', JNum (Itoa 5))])\<rparr>"
  let ?http = "inventory_service_http map_redis (\<lambda>c. (None, c)) (\<lambda>r c. ([], [], c)) \<lparr>env_ms = 3, env_trace = None\<rparr>"
  obtain r' calls effs c' where h: "?http ?r (sample []) = (r', calls, effs, c')" by (rule prod_cases4)
  have pre: "req_Method ?r = ''POST''" "req_Path ?r = ''/items/'' @ ''A'' @ ''/restock''"
    "''A'' \<noteq> []" "CHR ''/'' \<notin> set ''A''" by simp_all
  have d: "decode_restock (req_Body ?r) = Inr \<lparr>rr_Quantity = 5\<rparr>"
    using decode_restock_render [of 5 "[]"] by (simp add: in_int64_def del: render.simps)
  from inventory_http_restock [OF pre h] obtain e1 where
    hd: "inventory_restockItem (caching_RestockItem map_redis pg_RestockItem) r' (sample []) = (calls, e1, c')"
    and v: "PathValue r' ''sku'' = ''A''" "req_Body r' = req_Body ?r" by blast
  from hd d have ok: "sent_status calls = 200"
    unfolding inventory_restockItem_def v
    by (auto simp: d op_defs pg_query_calm update_restock_def set_quantity_def in_int32_def Let_def
        simp del: render.simps)
  from restock_endpoint [OF pre h] ok d obtain it where
    "moved ''A'' 5 (tables (cs_next (sample []))) (tables (cs_next c')) it" by auto
  with h ok show ?thesis by (auto simp: moved_def simp del: render.simps)
qed

text \<open>
  C20. The gRPC contract the order service relies on, for every request that decodes, whatever fails
  below. The code is exactly: \<open>InvalidArgument\<close> for a request without a SKU or units; otherwise \<open>Internal\<close>
  when the round trip of the \<open>UPDATE\<close> fails or a quantity does not fit the column; otherwise \<open>NotFound\<close> when
  there is no such row (\<open>FailedPrecondition\<close> when the query that tells the two apart is lost),
  \<open>FailedPrecondition\<close> when there are too few units, and \<open>OK\<close> when there are enough. With \<open>OK\<close> the row fell
  by exactly the quantity asked for, and the answer is the new row, unharmed by the conversion to 32
  bits; with \<open>InvalidArgument\<close>, \<open>NotFound\<close> and \<open>FailedPrecondition\<close> the stock is as it was; with \<open>Internal\<close>
  the units may be gone. The handler itself never answers \<open>Unavailable\<close>, the code the client retries.
  The request counter carries the code.
\<close>

theorem reserve_rpc_contract:
  assumes "inventory_service_grpc redis (Inr m) c = (res, effs, c')"
  defines "code \<equiv> status_Code (result_error res)"
  shows "code = reserve_code m (tables (cs_next c) (rq_Sku m)) (script (cs_next c)) \<and>
    (code = OK \<longrightarrow> rq_Sku m \<noteq> [] \<and> 0 < rq_Quantity m \<and>
      (\<exists>it. moved (rq_Sku m) (- rq_Quantity m) (tables (cs_next c)) (tables (cs_next c')) it \<and>
        res = Inr \<lparr>rs_Sku = SKU it, rs_Name = Name it, rs_Quantity = Quantity it\<rparr>)) \<and>
    (code = InvalidArgument \<longrightarrow> (rq_Sku m = [] \<or> rq_Quantity m \<le> 0) \<and> c' = c) \<and>
    (code = NotFound \<longrightarrow> tables (cs_next c) (rq_Sku m) = None \<and> tables (cs_next c') = tables (cs_next c)) \<and>
    (code = FailedPrecondition \<longrightarrow> available (tables (cs_next c)) (rq_Sku m) < rq_Quantity m \<and>
      tables (cs_next c') = tables (cs_next c)) \<and>
    (code = Internal \<longrightarrow> tables (cs_next c') = tables (cs_next c) \<or>
      (\<exists>it. moved (rq_Sku m) (- rq_Quantity m) (tables (cs_next c)) (tables (cs_next c')) it)) \<and>
    code \<in> {OK, InvalidArgument, NotFound, FailedPrecondition, Internal} \<and>
    Counter_Inc ''grpc_server_requests_total'' [ReserveStock_FullMethodName, code_String code] \<in> set effs"
proof -
  note c = assms(2) [THEN meta_eq_to_obj_eq]
  note spec = cpg.wrapped.reserve_server [OF assms(1) c]
  show ?thesis
  proof (intro conjI impI)
    show "code = reserve_code m (tables (cs_next c) (rq_Sku m)) (script (cs_next c))"
      unfolding c by (rule reserve_server_code [OF assms(1)])
    assume "code = OK"
    then show "rq_Sku m \<noteq> []" "0 < rq_Quantity m"
      "\<exists>it. moved (rq_Sku m) (- rq_Quantity m) (tables (cs_next c)) (tables (cs_next c')) it \<and>
        res = Inr \<lparr>rs_Sku = SKU it, rs_Name = Name it, rs_Quantity = Quantity it\<rparr>"
      using spec(1) by blast+
  qed (use spec in blast)+
qed

theorem reserve_rpc_contract_witness:
  "let m = \<lparr>rq_Sku = ''A'', rq_Quantity = 4\<rparr>; (res, effs, c') = inventory_service_grpc deaf_redis (Inr m) (sample [])
   in status_Code (result_error res) = OK \<and> rq_Quantity m = 4 \<and>
      (\<exists>it. moved ''A'' (- 4) (tables (cs_next (sample []))) (tables (cs_next c')) it \<and>
         res = Inr \<lparr>rs_Sku = SKU it, rs_Name = Name it, rs_Quantity = Quantity it\<rparr>)"
proof -
  obtain res effs c' where r:
    "inventory_service_grpc deaf_redis (Inr \<lparr>rq_Sku = ''A'', rq_Quantity = 4\<rparr>) (sample []) = (res, effs, c')"
    by (rule prod_cases3)
  then have "status_Code (result_error res) = OK"
    by (auto simp: op_defs rq_GetSku_def rq_GetQuantity_def pg_query_calm update_reserve_def set_quantity_def
        in_int32_def Let_def status_Code_def)
  with reserve_rpc_contract [OF r] r show ?thesis by (auto simp: Let_def)
qed

end
