(* ===== verification/Retry.thy ===== *)
theory Retry
  imports Prelude
begin

text \<open>
  order-service's \<open>internal/retry\<close>: exponential backoff with equal jitter. Durations are
  nanoseconds in an \<open>int64\<close>, with the wrap-around of the multiplication and the shift written out.
  Shown: the delay's bounds on all inputs, that the random draw never panics, what \<open>Do\<close> returns and
  how often it calls.
\<close>

record retry_config =
  MaxAttempts :: int
  BaseDelay :: int
  MaxDelay :: int

section \<open>backoffDelay\<close>

text \<open>\<open>rand.Int64N(n)\<close> panics for \<open>n <= 0\<close>, else draws from \<open>[0, n)\<close>; \<open>None\<close> is the panic.\<close>

definition Int64N :: "(int \<Rightarrow> int) \<Rightarrow> int \<Rightarrow> int option" where
  "Int64N draw n = (if n \<le> 0 then None else Some (draw n))"

definition fair :: "(int \<Rightarrow> int) \<Rightarrow> bool" where
  "fair draw \<longleftrightarrow> (\<forall>n>0. 0 \<le> draw n \<and> draw n < n)"

definition backoffCap :: "retry_config \<Rightarrow> nat \<Rightarrow> int" where
  "backoffCap cfg attempt =
     (let d = to_int64 (BaseDelay cfg * to_int64 (2 ^ attempt))
      in if d \<le> 0 \<or> MaxDelay cfg < d then MaxDelay cfg else d)"

definition backoffDelay :: "retry_config \<Rightarrow> nat \<Rightarrow> (int \<Rightarrow> int) \<Rightarrow> int option" where
  "backoffDelay cfg attempt draw =
     (let d = backoffCap cfg attempt in
      if d \<le> 0 then Some 0
      else let half = d div 2 in
        map_option (\<lambda>r. half + r) (Int64N draw (to_int64 (to_int64 (d - half) + 1))))"

section \<open>Do\<close>

datatype do_result = Returned "go_error option" | Panicked

text \<open>
  \<open>fn\<close> acts on a state; \<open>ctx_done i = Some e\<close> when the context is done, with \<open>ctx.Err() = e\<close>, before
  the timer of the wait after attempt \<open>i\<close> fires (the \<open>select\<close> may also choose the timer: then it is
  \<open>None\<close>). The result carries the waits entered, the effects of \<open>OnRetry\<close> and the last state.
\<close>

record retry_env =
  env_draw :: "nat \<Rightarrow> int \<Rightarrow> int"
  env_ctx_done :: "nat \<Rightarrow> go_error option"

function Do_loop ::
  "retry_env \<Rightarrow> retry_config \<Rightarrow> (int \<Rightarrow> int \<Rightarrow> go_error \<Rightarrow> effect list) option \<Rightarrow>
   (go_error \<Rightarrow> bool) \<Rightarrow> ('s \<Rightarrow> go_error option \<times> 's) \<Rightarrow>
   nat \<Rightarrow> go_error option \<Rightarrow> 's \<Rightarrow> do_result \<times> int list \<times> effect list \<times> 's" where
  "Do_loop env cfg onRetry isRetryable fn attempt err s =
     (if int attempt < MaxAttempts cfg then
        (case fn s of
           (None, s') \<Rightarrow> (Returned None, [], [], s')
         | (Some e, s') \<Rightarrow>
             if \<not> isRetryable e \<or> int attempt = MaxAttempts cfg - 1 then (Returned (Some e), [], [], s')
             else
               (case backoffDelay cfg attempt (env_draw env attempt) of
                  None \<Rightarrow> (Panicked, [], [], s')
                | Some delay \<Rightarrow>
                    let effs = (case onRetry of None \<Rightarrow> [] | Some f \<Rightarrow> f (int attempt + 1) delay e) in
                    (case env_ctx_done env attempt of
                       Some ce \<Rightarrow> (Returned (Some ce), [delay], effs, s')
                     | None \<Rightarrow>
                         let (r, ws, effs', s'') =
                           Do_loop env cfg onRetry isRetryable fn (attempt + 1) (Some e) s'
                         in (r, delay # ws, effs @ effs', s''))))
      else (Returned err, [], [], s))"
  by pat_completeness auto
termination
  by (relation "measure (\<lambda>(env, cfg, onRetry, isRetryable, fn, attempt, err, s).
        nat (MaxAttempts cfg - int attempt))") auto

declare Do_loop.simps [simp del]

definition Do ::
  "retry_env \<Rightarrow> retry_config \<Rightarrow> (int \<Rightarrow> int \<Rightarrow> go_error \<Rightarrow> effect list) option \<Rightarrow>
   (go_error \<Rightarrow> bool) \<Rightarrow> ('s \<Rightarrow> go_error option \<times> 's) \<Rightarrow> 's \<Rightarrow>
   do_result \<times> int list \<times> effect list \<times> 's" where
  "Do env cfg onRetry isRetryable fn s = Do_loop env cfg onRetry isRetryable fn 0 None s"

section \<open>Bounds of the delay\<close>

text \<open>A configuration whose fields are \<open>int64\<close> values.\<close>

definition config_ok :: "retry_config \<Rightarrow> bool" where
  "config_ok cfg \<longleftrightarrow> in_int64 (BaseDelay cfg) \<and> in_int64 (MaxDelay cfg)"

lemma backoffCap_le: "0 \<le> MaxDelay cfg \<Longrightarrow> 0 \<le> backoffCap cfg n \<and> backoffCap cfg n \<le> MaxDelay cfg"
  by (auto simp: backoffCap_def Let_def)

lemma backoffCap_range: "config_ok cfg \<Longrightarrow> backoffCap cfg n < 2 ^ 63"
  by (auto simp: backoffCap_def Let_def config_ok_def in_int64_def)

lemma pow2_in_int64: "(2 :: int) ^ n < 2 ^ 63 \<Longrightarrow> in_int64 (2 ^ n)"
  by (simp add: in_int64_def) (smt (verit) zero_le_power)

text \<open>Where the exact product fits, the cap is what the comment says: \<open>base * 2^attempt\<close>, capped.\<close>

lemma backoffCap_exact:
  assumes "0 < BaseDelay cfg" and "BaseDelay cfg * 2 ^ n < 2 ^ 63"
  shows "backoffCap cfg n = min (BaseDelay cfg * 2 ^ n) (MaxDelay cfg)"
proof -
  have "1 * 2 ^ n \<le> BaseDelay cfg * 2 ^ n" using assms(1) by (intro mult_right_mono) auto
  with assms have "(2 :: int) ^ n < 2 ^ 63" by linarith
  then have p: "in_int64 (2 ^ n)" by (rule pow2_in_int64)
  have pos: "0 < BaseDelay cfg * 2 ^ n" using assms(1) by simp
  with assms(2) have "in_int64 (BaseDelay cfg * 2 ^ n)" by (simp add: in_int64_def)
  with p pos show ?thesis by (auto simp: backoffCap_def Let_def)
qed

lemma backoffDelay_bounds:
  assumes "config_ok cfg" and "fair draw" and "0 \<le> MaxDelay cfg"
  obtains d where "backoffDelay cfg n draw = Some d"
    and "backoffCap cfg n div 2 \<le> d" and "d \<le> backoffCap cfg n"
proof (cases "backoffCap cfg n \<le> 0")
  case True
  with backoffCap_le [OF assms(3), of n] have "backoffCap cfg n = 0" by simp
  then show ?thesis by (intro that [of 0]) (auto simp: backoffDelay_def)
next
  case False
  define c where "c = backoffCap cfg n"
  have c: "0 < c" "c < 2 ^ 63" using False backoffCap_range [OF assms(1)] by (auto simp: c_def)
  then have "in_int64 (c - c div 2)" "in_int64 (c - c div 2 + 1)" by (auto simp: in_int64_def)
  then have "backoffDelay cfg n draw = Some (c div 2 + draw (c - c div 2 + 1))"
    using c by (simp add: backoffDelay_def Let_def Int64N_def flip: c_def)
  moreover have "0 < c - c div 2 + 1" using c by linarith
  then have "0 \<le> draw (c - c div 2 + 1)" "draw (c - c div 2 + 1) < c - c div 2 + 1"
    using assms(2) by (auto simp: fair_def simp del: zle_add1_eq_le)
  ultimately show ?thesis by (intro that) (auto simp: c_def)
qed

text \<open>The same without a condition on \<open>MaxDelay\<close>: where the cap is negative, the wait is zero.\<close>

definition waitCap :: "retry_config \<Rightarrow> nat \<Rightarrow> int" where
  "waitCap cfg n = max 0 (backoffCap cfg n)"

lemma waitCap_le: "waitCap cfg n \<le> max 0 (MaxDelay cfg)"
  by (auto simp: waitCap_def backoffCap_def Let_def)

lemma backoffDelay_range:
  assumes "config_ok cfg" and "fair draw"
  obtains d where "backoffDelay cfg n draw = Some d" and "waitCap cfg n div 2 \<le> d" and "d \<le> waitCap cfg n"
proof (cases "0 \<le> MaxDelay cfg")
  case True
  from backoffDelay_bounds [OF assms True, of n] backoffCap_le [OF True, of n] that show thesis
    by (metis waitCap_def max_absorb2)
next
  case False
  then have "backoffCap cfg n \<le> 0" by (auto simp: backoffCap_def Let_def)
  then show thesis by (intro that [of 0]) (simp_all add: backoffDelay_def waitCap_def)
qed

section \<open>What Do returns\<close>

text \<open>The state after the first \<open>k\<close> calls of \<open>fn\<close>, and the outcome of call number \<open>k\<close> (from 0).\<close>

fun run_calls :: "('s \<Rightarrow> go_error option \<times> 's) \<Rightarrow> nat \<Rightarrow> 's \<Rightarrow> 's" where
  "run_calls fn 0 s = s"
| "run_calls fn (Suc k) s = run_calls fn k (snd (fn s))"

definition call_result :: "('s \<Rightarrow> go_error option \<times> 's) \<Rightarrow> nat \<Rightarrow> 's \<Rightarrow> go_error option" where
  "call_result fn k s = fst (fn (run_calls fn k s))"

lemma call_result_Suc: "call_result fn (Suc k) s = call_result fn k (snd (fn s))"
  by (simp add: call_result_def)

text \<open>
  The specification of a run of \<open>k\<close> calls that starts at attempt \<open>a\<close>: every call but the last
  failed with a retryable error and its wait ran out; the last one decides, unless its wait was cut
  short by the context.
\<close>

definition waited :: "retry_env \<Rightarrow> (go_error \<Rightarrow> bool) \<Rightarrow> ('s \<Rightarrow> go_error option \<times> 's) \<Rightarrow> nat \<Rightarrow> nat \<Rightarrow> 's \<Rightarrow> bool" where
  "waited env isRetryable fn a i s \<longleftrightarrow>
     (\<exists>e. call_result fn i s = Some e \<and> isRetryable e) \<and> env_ctx_done env (a + i) = None"

definition do_spec ::
  "retry_env \<Rightarrow> retry_config \<Rightarrow> (go_error \<Rightarrow> bool) \<Rightarrow> ('s \<Rightarrow> go_error option \<times> 's) \<Rightarrow>
   nat \<Rightarrow> nat \<Rightarrow> 's \<Rightarrow> go_error option \<Rightarrow> nat \<Rightarrow> bool" where
  "do_spec env cfg isRetryable fn a k s res waits \<longleftrightarrow>
     (\<forall>i < k. waited env isRetryable fn a i s) \<and> int (a + k) < MaxAttempts cfg \<and>
     ((res = call_result fn k s \<and> waits = k \<and>
         (\<forall>e. res = Some e \<longrightarrow> \<not> isRetryable e \<or> int (a + k) = MaxAttempts cfg - 1))
      \<or> (\<exists>e. call_result fn k s = Some e \<and> isRetryable e \<and> int (a + k) < MaxAttempts cfg - 1 \<and>
            env_ctx_done env (a + k) = res \<and> res \<noteq> None \<and> waits = Suc k))"

lemma do_spec_Suc:
  assumes "fn s = (Some e, s')" and "isRetryable e" and "env_ctx_done env a = None"
    and "do_spec env cfg isRetryable fn (Suc a) k s' res w"
  shows "do_spec env cfg isRetryable fn a (Suc k) s res (Suc w)"
proof -
  have "waited env isRetryable fn a 0 s"
    using assms(1-3) by (simp add: waited_def call_result_def)
  moreover have "waited env isRetryable fn a (Suc i) s = waited env isRetryable fn (Suc a) i s'" for i
    using assms(1) by (simp add: waited_def call_result_Suc)
  ultimately have "(\<forall>i < Suc k. waited env isRetryable fn a i s) =
      (\<forall>i < k. waited env isRetryable fn (Suc a) i s')"
    by (auto simp: less_Suc_eq_0_disj)
  with assms(1,4) show ?thesis by (auto simp: do_spec_def call_result_Suc)
qed

text \<open>What \<open>OnRetry\<close> emits over the waits, the first of which follows attempt \<open>a\<close>.\<close>

definition hook :: "(int \<Rightarrow> int \<Rightarrow> go_error \<Rightarrow> effect list) option \<Rightarrow> int \<Rightarrow> int \<Rightarrow> go_error \<Rightarrow> effect list" where
  "hook onRetry n d e = (case onRetry of None \<Rightarrow> [] | Some f \<Rightarrow> f n d e)"

fun retry_effects ::
  "(int \<Rightarrow> int \<Rightarrow> go_error \<Rightarrow> effect list) option \<Rightarrow> ('s \<Rightarrow> go_error option \<times> 's) \<Rightarrow>
   nat \<Rightarrow> 's \<Rightarrow> int list \<Rightarrow> effect list" where
  "retry_effects onRetry fn a s [] = []"
| "retry_effects onRetry fn a s (d # ds) =
     hook onRetry (int a + 1) d (the (fst (fn s))) @ retry_effects onRetry fn (Suc a) (snd (fn s)) ds"

lemma Do_loop_spec:
  assumes "config_ok cfg" and "\<And>i. fair (env_draw env i)" and "int a < MaxAttempts cfg"
  shows "\<exists>k res ws.
     Do_loop env cfg onRetry isRetryable fn a err s =
       (Returned res, ws, retry_effects onRetry fn a s ws, run_calls fn (Suc k) s)
     \<and> do_spec env cfg isRetryable fn a k s res (length ws)
     \<and> (\<forall>i < length ws. waitCap cfg (a + i) div 2 \<le> ws ! i \<and> ws ! i \<le> waitCap cfg (a + i))"
  using assms(3)
proof (induction "nat (MaxAttempts cfg - int a)" arbitrary: a err s rule: less_induct)
  case less
  obtain o1 s' where fn: "fn s = (o1, s')" by force
  then have o1: "call_result fn 0 s = o1" and run: "run_calls fn (Suc k) s = run_calls fn k s'" for k
    by (simp_all add: call_result_def)
  show ?case
  proof (cases "o1 = None \<or> (\<exists>e. o1 = Some e \<and> (\<not> isRetryable e \<or> int a = MaxAttempts cfg - 1))")
    case True
    then have "Do_loop env cfg onRetry isRetryable fn a err s = (Returned o1, [], [], s')"
      using fn less.prems by (auto simp: Do_loop.simps [of _ _ _ _ _ a])
    moreover have "do_spec env cfg isRetryable fn a 0 s o1 0"
      using True o1 less.prems by (auto simp: do_spec_def)
    ultimately show ?thesis using run [of 0] by (intro exI [of _ 0]) auto
  next
    case False
    then obtain e where e: "o1 = Some e" "isRetryable e" and a: "int a < MaxAttempts cfg - 1"
      using less.prems by (cases o1) auto
    obtain d where d: "backoffDelay cfg a (env_draw env a) = Some d"
      "waitCap cfg a div 2 \<le> d" "d \<le> waitCap cfg a"
      using backoffDelay_range [OF assms(1,2)] by metis
    show ?thesis
    proof (cases "env_ctx_done env a")
      case (Some ce)
      then have "Do_loop env cfg onRetry isRetryable fn a err s =
          (Returned (Some ce), [d], retry_effects onRetry fn a s [d], s')"
        using fn e a d(1) by (auto simp: Do_loop.simps [of _ _ _ _ _ a] Let_def hook_def)
      moreover have "do_spec env cfg isRetryable fn a 0 s (Some ce) (Suc 0)"
        using Some o1 e a by (auto simp: do_spec_def)
      ultimately show ?thesis using run [of 0] d(2,3) by (intro exI [of _ 0]) auto
    next
      case None
      from less.hyps [of "Suc a" "Some e" s'] a obtain k res ws where IH:
        "Do_loop env cfg onRetry isRetryable fn (Suc a) (Some e) s' =
           (Returned res, ws, retry_effects onRetry fn (Suc a) s' ws, run_calls fn (Suc k) s')"
        "do_spec env cfg isRetryable fn (Suc a) k s' res (length ws)"
        "\<forall>i < length ws. waitCap cfg (Suc a + i) div 2 \<le> ws ! i \<and> ws ! i \<le> waitCap cfg (Suc a + i)"
        by auto
      have "Do_loop env cfg onRetry isRetryable fn a err s =
          (Returned res, d # ws, retry_effects onRetry fn a s (d # ws), run_calls fn (Suc k) s')"
        using fn e a d(1) None IH(1) by (auto simp: Do_loop.simps [of _ _ _ _ _ a] Let_def hook_def)
      moreover have "do_spec env cfg isRetryable fn a (Suc k) s res (Suc (length ws))"
        using do_spec_Suc [where isRetryable = isRetryable] fn e None IH(2) by metis
      moreover have "\<forall>i < Suc (length ws). waitCap cfg (a + i) div 2 \<le> (d # ws) ! i
          \<and> (d # ws) ! i \<le> waitCap cfg (a + i)"
        using d(2,3) IH(3) by (auto simp: less_Suc_eq_0_disj)
      ultimately show ?thesis using run [of "Suc k"] by (intro exI [of _ "Suc k"]) auto
    qed
  qed
qed

lemma Do_spec_any:
  assumes "config_ok cfg" and "\<And>i. fair (env_draw env i)" and "0 < MaxAttempts cfg"
  shows "\<exists>k res ws.
     Do env cfg onRetry isRetryable fn s =
       (Returned res, ws, retry_effects onRetry fn 0 s ws, run_calls fn (Suc k) s)
     \<and> do_spec env cfg isRetryable fn 0 k s res (length ws)
     \<and> (\<forall>i < length ws. waitCap cfg i div 2 \<le> ws ! i \<and> ws ! i \<le> waitCap cfg i)"
  using Do_loop_spec [OF assms(1,2), of 0 onRetry isRetryable fn None s] assms(3)
  by (simp add: Do_def)

lemma Do_spec:
  assumes "config_ok cfg" and "0 \<le> MaxDelay cfg" and "\<And>i. fair (env_draw env i)"
    and "0 < MaxAttempts cfg"
  shows "\<exists>k res ws.
     Do env cfg onRetry isRetryable fn s =
       (Returned res, ws, retry_effects onRetry fn 0 s ws, run_calls fn (Suc k) s)
     \<and> do_spec env cfg isRetryable fn 0 k s res (length ws)
     \<and> (\<forall>i < length ws. backoffCap cfg i div 2 \<le> ws ! i \<and> ws ! i \<le> backoffCap cfg i)"
  using Do_spec_any [OF assms(1,3,4), of onRetry isRetryable fn s] backoffCap_le [OF assms(2)]
  by (simp add: waitCap_def)

lemma Do_no_attempts: "MaxAttempts cfg \<le> 0 \<Longrightarrow> Do env cfg onRetry isRetryable fn s = (Returned None, [], [], s)"
  by (simp add: Do_def Do_loop.simps)

text \<open>An invariant of the state that every call keeps holds after \<open>Do\<close>.\<close>

lemma run_calls_inv: "P s \<Longrightarrow> (\<And>s. P s \<Longrightarrow> P (snd (fn s))) \<Longrightarrow> P (run_calls fn k s)"
  by (induction k arbitrary: s) auto

lemma run_calls_last: "run_calls fn (Suc k) s = snd (fn (run_calls fn k s))"
  by (induction k arbitrary: s) simp_all

lemma do_spec_waits: "do_spec env cfg isRetryable fn a k s res w \<Longrightarrow> int (a + w) < MaxAttempts cfg"
  by (auto simp: do_spec_def)

section \<open>Properties\<close>

text \<open>
  C25. \<open>Do\<close> returns for every configuration of \<open>int64\<close> durations that allows an attempt, whatever \<open>fn\<close> does
  and whenever the context ends: after between one and \<open>MaxAttempts\<close> calls, having waited fewer than
  \<open>MaxAttempts\<close> times, each time at least zero and at most \<open>MaxDelay\<close> (not at all when that is negative);
  every call but the last failed with a retryable error; and it returns nil only if the last call did.
\<close>

theorem Do_terminates:
  assumes "config_ok cfg" and "\<And>i. fair (env_draw env i)" and "0 < MaxAttempts cfg"
  shows "\<exists>k res ws effs. Do env cfg onRetry isRetryable fn s = (Returned res, ws, effs, run_calls fn (Suc k) s) \<and>
    int (Suc k) \<le> MaxAttempts cfg \<and> int (length ws) < MaxAttempts cfg \<and>
    list_all (\<lambda>w. 0 \<le> w \<and> w \<le> max 0 (MaxDelay cfg)) ws \<and>
    sum_list ws \<le> (MaxAttempts cfg - 1) * max 0 (MaxDelay cfg) \<and>
    list_all (\<lambda>i. case call_result fn i s of None \<Rightarrow> False | Some e \<Rightarrow> isRetryable e) [0..<k] \<and>
    (res = None \<longleftrightarrow> call_result fn k s = None)"
proof -
  let ?m = "max 0 (MaxDelay cfg)"
  obtain k res ws where D: "Do env cfg onRetry isRetryable fn s =
      (Returned res, ws, retry_effects onRetry fn 0 s ws, run_calls fn (Suc k) s)"
    and spec: "do_spec env cfg isRetryable fn 0 k s res (length ws)"
    and ws: "\<forall>i < length ws. waitCap cfg i div 2 \<le> ws ! i \<and> ws ! i \<le> waitCap cfg i"
    using Do_spec_any [OF assms, of onRetry isRetryable fn s] by blast
  have "0 \<le> ws ! i \<and> ws ! i \<le> ?m" if "i < length ws" for i
  proof -
    have "0 \<le> waitCap cfg i div 2" by (simp add: waitCap_def)
    with ws that waitCap_le [of cfg i] show ?thesis by fastforce
  qed
  then have each: "list_all (\<lambda>w. 0 \<le> w \<and> w \<le> ?m) ws" by (simp add: list_all_length)
  then have "sum_list ws \<le> int (length ws) * ?m"
    by (induction ws) (auto simp: distrib_right)
  also have "\<dots> \<le> (MaxAttempts cfg - 1) * ?m"
    using do_spec_waits [OF spec] by (intro mult_right_mono) auto
  finally have "sum_list ws \<le> (MaxAttempts cfg - 1) * ?m" .
  moreover have "list_all (\<lambda>i. case call_result fn i s of None \<Rightarrow> False | Some e \<Rightarrow> isRetryable e) [0..<k]"
    using spec by (auto simp: do_spec_def waited_def list_all_iff)
  moreover have "int (Suc k) \<le> MaxAttempts cfg" "res = None \<longleftrightarrow> call_result fn k s = None"
    using spec by (auto simp: do_spec_def)
  ultimately show ?thesis using D do_spec_waits [OF spec] each by auto
qed

text \<open>Three attempts from 100 ms, at most 1 s apart; two failures, then success.\<close>

definition sample_config :: retry_config where
  "sample_config = \<lparr>MaxAttempts = 3, BaseDelay = 100000000, MaxDelay = 1000000000\<rparr>"

definition sample_fn :: "nat \<Rightarrow> go_error option \<times> nat" where
  "sample_fn n = (if n < 2 then Some (Driver_Error ''busy'') else None, n + 1)"

theorem Do_terminates_witness:
  "\<exists>k res ws effs. Do \<lparr>env_draw = (\<lambda>i n. 0), env_ctx_done = (\<lambda>i. None)\<rparr> sample_config None (\<lambda>e. True) sample_fn 0 =
      (Returned res, ws, effs, run_calls sample_fn (Suc k) 0) \<and>
    int (Suc k) \<le> 3 \<and> int (length ws) < 3 \<and> list_all (\<lambda>w. 0 \<le> w \<and> w \<le> 1000000000) ws \<and>
    sum_list ws \<le> (3 - 1) * 1000000000 \<and>
    list_all (\<lambda>i. case call_result sample_fn i 0 of None \<Rightarrow> False | Some e \<Rightarrow> True) [0..<k] \<and>
    (res = None \<longleftrightarrow> call_result sample_fn k 0 = None)"
proof -
  have c: "config_ok sample_config" "0 < MaxAttempts sample_config"
    by (simp_all add: config_ok_def sample_config_def in_int64_def)
  have m: "MaxAttempts sample_config = 3" "max 0 (MaxDelay sample_config) = 1000000000"
    by (simp_all add: sample_config_def)
  have f: "fair (env_draw \<lparr>env_draw = (\<lambda>i n. 0), env_ctx_done = (\<lambda>i. None)\<rparr> i)" for i by (simp add: fair_def)
  show ?thesis
    by (rule Do_terminates [OF c(1) f c(2), of None "\<lambda>e. True" sample_fn 0, unfolded m])
qed

text \<open>
  C26. The schedule the comment of \<open>backoffDelay\<close> promises: the random draw never panics; while
  \<open>base * 2^attempt\<close> fits in 64 bits, the wait lies between half of \<open>min(base * 2^attempt, MaxDelay)\<close> and
  all of it; and when the multiplication or the shift overflows, whatever it wraps to, the wait still
  lies between 0 and \<open>MaxDelay\<close>.
\<close>

theorem backoff_schedule:
  assumes "config_ok cfg" and "fair draw" and "0 \<le> MaxDelay cfg" and "0 < BaseDelay cfg"
  shows "\<exists>d. backoffDelay cfg n draw = Some d \<and> 0 \<le> d \<and> d \<le> MaxDelay cfg \<and>
    (2 ^ 63 \<le> BaseDelay cfg * 2 ^ n \<or>
     min (BaseDelay cfg * 2 ^ n) (MaxDelay cfg) div 2 \<le> d \<and> d \<le> min (BaseDelay cfg * 2 ^ n) (MaxDelay cfg))"
proof -
  obtain d where d: "backoffDelay cfg n draw = Some d" "backoffCap cfg n div 2 \<le> d" "d \<le> backoffCap cfg n"
    by (rule backoffDelay_bounds [OF assms(1-3)])
  have "0 \<le> backoffCap cfg n" "backoffCap cfg n \<le> MaxDelay cfg" using backoffCap_le [OF assms(3)] by auto
  with d(2,3) have "0 \<le> d" "d \<le> MaxDelay cfg" by linarith+
  with d backoffCap_exact [OF assms(4), of n] show ?thesis by fastforce
qed

theorem backoff_schedule_witness:
  "\<exists>d. backoffDelay sample_config 2 (\<lambda>n. n div 2) = Some d \<and> 200000000 \<le> d \<and> d \<le> 400000000"
proof -
  have "config_ok sample_config" "fair (\<lambda>n. n div 2)" "0 \<le> MaxDelay sample_config" "0 < BaseDelay sample_config"
    by (auto simp: config_ok_def sample_config_def in_int64_def fair_def)
  from backoff_schedule [OF this, of 2] show ?thesis by (auto simp: sample_config_def)
qed

end
