(* ===== verification/InventoryClient.thy ===== *)
theory InventoryClient
  imports InventoryServer Retry
begin

text \<open>
  order-service's \<open>internal/inventoryclient\<close>: the reservation over gRPC, its retries and the mapping
  of status codes to errors, with the client interceptor of \<open>internal/metrics\<close>. The connection is a
  round trip to the remote server. The Go interface \<open>InventoryReserver\<close> of the order handler is the
  locale \<open>inventory_reserver\<close>; the client over any correct \<open>Store\<close> is an instance.
\<close>

section \<open>The connection\<close>

text \<open>
  One outcome per call: it works, the request is lost, or the reply is; a lost call fails with the
  status code the transport chooses, among those the gRPC library documents that it generates.
\<close>

record 's remote =
  peer :: 's
  net :: "(io \<times> code) list"

definition library_code :: "code \<Rightarrow> bool" where
  "library_code c \<longleftrightarrow> c \<notin> {OK, InvalidArgument, NotFound, AlreadyExists, FailedPrecondition, Aborted, OutOfRange, DataLoss}"

definition transport_error :: "code \<Rightarrow> go_error" where
  "transport_error c = Status_Error (if library_code c then c else Unknown) ''transport''"

definition grpc_Invoke ::
  "(go_error + ReserveStockRequest \<Rightarrow> 's \<Rightarrow> (go_error + ReserveStockResponse) \<times> effect list \<times> 's) \<Rightarrow>
   ReserveStockRequest \<Rightarrow> 's remote \<Rightarrow> (go_error + ReserveStockResponse) \<times> 's remote" where
  "grpc_Invoke server m n =
     (let (res, effs, s') = server (Inr m) (peer n) in
      case net n of
        [] \<Rightarrow> (res, n\<lparr>peer := s'\<rparr>)
      | (Works, c) # rest \<Rightarrow> (res, \<lparr>peer = s', net = rest\<rparr>)
      | (Fails_before, c) # rest \<Rightarrow> (Inl (transport_error c), \<lparr>peer = peer n, net = rest\<rparr>)
      | (Fails_after, c) # rest \<Rightarrow> (Inl (transport_error c), \<lparr>peer = s', net = rest\<rparr>))"

text \<open>What the comment at \<open>isRetryableStatus\<close> counts on: an \<open>Unavailable\<close> call never ran.\<close>

definition unavailable_never_ran :: "'s remote \<Rightarrow> bool" where
  "unavailable_never_ran n \<longleftrightarrow> (Fails_after, Unavailable) \<notin> set (net n)"

section \<open>Metrics\<close>

definition UnaryClientInterceptor ::
  "string \<Rightarrow> ('n \<Rightarrow> (go_error + 'a) \<times> 'n) \<Rightarrow> 'n \<Rightarrow> (go_error + 'a) \<times> effect list \<times> 'n" where
  "UnaryClientInterceptor FullMethod invoker n =
     (let (res, n') = invoker n; code = code_String (status_Code (result_error res))
      in (res, [Counter_Inc ''grpc_client_requests_total'' [FullMethod, code],
                Observe ''grpc_client_request_duration_seconds'' [FullMethod, code]], n'))"

definition RecordGRPCClientRetry :: "string \<Rightarrow> effect" where
  "RecordGRPCClientRetry m = Counter_Inc ''grpc_client_retries_total'' [m]"

section \<open>Reserve\<close>

record client_item =
  ci_SKU :: string
  ci_Name :: string
  ci_Quantity :: int

definition reserveStockMethod :: string where
  "reserveStockMethod = ''ReserveStock''"

definition millisecond :: int where
  "millisecond = 1000000"

definition reserveRetryConfig :: retry_config where
  "reserveRetryConfig = \<lparr>MaxAttempts = 6, BaseDelay = 300 * millisecond, MaxDelay = 2 * 1000 * millisecond\<rparr>"

definition isRetryableStatus :: "go_error \<Rightarrow> bool" where
  "isRetryableStatus e \<longleftrightarrow> status_Code (Some e) = Unavailable"

definition reserve_OnRetry :: "int \<Rightarrow> int \<Rightarrow> go_error \<Rightarrow> effect list" where
  "reserve_OnRetry attempt delay retryErr =
     [Log_Warn ''retrying inventory-service call''
        [(''method'', reserveStockMethod), (''attempt'', Itoa attempt),
         (''delay_ms'', Itoa (delay div millisecond)), (''error'', err_text retryErr)],
      RecordGRPCClientRetry reserveStockMethod,
      Span_Event ''retry'' attempt]"

text \<open>
  The closure handed to \<open>retry.Do\<close>, on the connection, the variable \<open>resp\<close> and the metrics so far.
  The generated stub returns a nil response with an error.
\<close>

definition reserve_call ::
  "(go_error + ReserveStockRequest \<Rightarrow> 's \<Rightarrow> (go_error + ReserveStockResponse) \<times> effect list \<times> 's) \<Rightarrow>
   string \<Rightarrow> int \<Rightarrow> 's remote \<times> ReserveStockResponse option \<times> effect list \<Rightarrow>
   go_error option \<times> 's remote \<times> ReserveStockResponse option \<times> effect list" where
  "reserve_call server sku q st =
     (let (n, resp, effs) = st;
          (res, effs', n') = UnaryClientInterceptor ReserveStock_FullMethodName
            (grpc_Invoke server \<lparr>rq_Sku = sku, rq_Quantity = to_int32 q\<rparr>) n
      in case res of
           Inl e \<Rightarrow> (Some e, n', None, effs @ effs')
         | Inr m \<Rightarrow> (None, n', Some m, effs @ effs'))"

text \<open>\<open>None\<close> is a panic. The effects are those of the calls, then those of the retries.\<close>

definition Client_Reserve ::
  "(go_error + ReserveStockRequest \<Rightarrow> 's \<Rightarrow> (go_error + ReserveStockResponse) \<times> effect list \<times> 's) \<Rightarrow>
   retry_env \<Rightarrow> string \<Rightarrow> int \<Rightarrow> 's remote \<Rightarrow>
   (go_error + client_item) option \<times> effect list \<times> 's remote" where
  "Client_Reserve server env sku q n =
     (let (r, waits, retries, (n', resp, effs)) =
        Do env reserveRetryConfig (Some reserve_OnRetry) isRetryableStatus (reserve_call server sku q) (n, None, [])
      in (case r of
            Panicked \<Rightarrow> None
          | Returned (Some err) \<Rightarrow>
              Some (Inl (if status_Code (Some err) = NotFound then Client_ErrNotFound
                         else if status_Code (Some err) = FailedPrecondition then Client_ErrInsufficientStock
                         else Wrapped ''call inventory-service'' err))
          | Returned None \<Rightarrow>
              Some (Inr \<lparr>ci_SKU = rs_GetSku resp, ci_Name = rs_GetName resp, ci_Quantity = rs_GetQuantity resp\<rparr>),
          effs @ retries, n'))"

lemmas [op_defs] = reserve_call_def UnaryClientInterceptor_def grpc_Invoke_def

lemma reserveRetryConfig_ok:
  "config_ok reserveRetryConfig" "0 \<le> MaxDelay reserveRetryConfig" "0 < MaxAttempts reserveRetryConfig"
  by (simp_all add: reserveRetryConfig_def config_ok_def in_int64_def millisecond_def)

lemma reserve_call_Some:
  "reserve_call server sku q (n, resp, effs) = (Some e, n', resp', effs') \<Longrightarrow>
     grpc_Invoke server \<lparr>rq_Sku = sku, rq_Quantity = to_int32 q\<rparr> n = (Inl e, n')"
  by (auto simp: reserve_call_def UnaryClientInterceptor_def Let_def split: prod.splits sum.splits)

lemma reserve_call_None:
  "reserve_call server sku q (n, resp, effs) = (None, n', resp', effs') \<Longrightarrow>
     \<exists>m. resp' = Some m \<and> grpc_Invoke server \<lparr>rq_Sku = sku, rq_Quantity = to_int32 q\<rparr> n = (Inr m, n')"
  by (auto simp: reserve_call_def UnaryClientInterceptor_def Let_def split: prod.splits sum.splits)

text \<open>A call delivers the server's answer, or fails with the request or the reply lost.\<close>

lemma grpc_Invoke_cases:
  assumes "grpc_Invoke server m n = (res, n')" and "server (Inr m) (peer n) = (sres, effs, s')"
  obtains (delivered) "res = sres" "peer n' = s'" "set (net n') \<subseteq> set (net n)"
  | (no_request) c where "res = Inl (transport_error c)" "peer n' = peer n" "set (net n') \<subseteq> set (net n)"
      "(Fails_before, c) \<in> set (net n)"
  | (no_reply) c where "res = Inl (transport_error c)" "peer n' = s'" "set (net n') \<subseteq> set (net n)"
      "(Fails_after, c) \<in> set (net n)"
proof (cases "net n")
  case Nil
  with assms show thesis by (intro delivered) (auto simp: grpc_Invoke_def)
next
  case (Cons xc rest)
  obtain x c where "xc = (x, c)" by force
  with Cons have n: "net n = (x, c) # rest" by simp
  show thesis
  proof (cases x)
    case Works
    with n assms show thesis by (intro delivered) (auto simp: grpc_Invoke_def)
  next
    case Fails_before
    with n assms show thesis by (intro no_request [of c]) (auto simp: grpc_Invoke_def)
  next
    case Fails_after
    with n assms show thesis by (intro no_reply [of c]) (auto simp: grpc_Invoke_def)
  qed
qed

lemma grpc_Invoke_net:
  assumes "grpc_Invoke server m n = (res, n')"
  shows "unavailable_never_ran n \<Longrightarrow> unavailable_never_ran n'"
proof -
  obtain sres effs s' where s: "server (Inr m) (peer n) = (sres, effs, s')" by (rule prod_cases3)
  have "set (net n') \<subseteq> set (net n)" by (rule grpc_Invoke_cases [OF assms s]) auto
  then show "unavailable_never_ran n \<Longrightarrow> unavailable_never_ran n'"
    by (auto simp: unavailable_never_ran_def)
qed

section \<open>The InventoryReserver interface\<close>

definition fair_env :: "retry_env \<Rightarrow> bool" where
  "fair_env env \<longleftrightarrow> (\<forall>i. fair (env_draw env i))"

locale inventory_reserver =
  fixes reserve :: "retry_env \<Rightarrow> string \<Rightarrow> int \<Rightarrow> 'i \<Rightarrow> (go_error + client_item) option \<times> effect list \<times> 'i"
    and istock :: "'i \<Rightarrow> stock"
    and safe :: "'i \<Rightarrow> bool"
  assumes reserve_returns: "fair_env env \<Longrightarrow> fst (reserve env sku q w) \<noteq> None"
    and reserve_safe: "fair_env env \<Longrightarrow> safe w \<Longrightarrow> safe (snd (snd (reserve env sku q w)))"
    and reserve_done: "fair_env env \<Longrightarrow> safe w \<Longrightarrow>
      reserve env sku q w = (Some (Inr it), effs, w') \<Longrightarrow>
      0 < to_int32 q \<and> (\<exists>i. moved sku (- to_int32 q) (istock w) (istock w') i)"
    and reserve_not_done: "fair_env env \<Longrightarrow> safe w \<Longrightarrow>
      reserve env sku q w = (Some (Inl e), effs, w') \<Longrightarrow>
      errors_Is e Client_ErrNotFound \<or> errors_Is e Client_ErrInsufficientStock \<Longrightarrow> istock w' = istock w"
    and reserve_maybe: "fair_env env \<Longrightarrow> safe w \<Longrightarrow>
      reserve env sku q w = (Some (Inl e), effs, w') \<Longrightarrow>
      istock w' = istock w \<or> 0 < to_int32 q \<and> (\<exists>i. moved sku (- to_int32 q) (istock w) (istock w') i)"

section \<open>The client keeps the laws\<close>

text \<open>The metrics aside, the world of the closure is the connection.\<close>

abbreviation conn :: "'s remote \<times> ReserveStockResponse option \<times> effect list \<Rightarrow> 's remote" where
  "conn \<equiv> fst"

text \<open>
  For what is taken when a call that ran may be reported as \<open>Unavailable\<close>: \<open>took st st' sku q j\<close> says that \<open>j\<close> calls took the quantity, and \<open>lost_replies\<close> counts the
  calls to come that run and are reported as \<open>Unavailable\<close>.
\<close>

definition took :: "stock \<Rightarrow> stock \<Rightarrow> string \<Rightarrow> int \<Rightarrow> nat \<Rightarrow> bool" where
  "took st st' sku q j \<longleftrightarrow> (0 < j \<longrightarrow> 0 < q) \<and>
     (\<forall>k. available st' k = available st k - (if k = sku then int j * q else 0))"

definition lost_replies :: "'x remote \<Rightarrow> nat" where
  "lost_replies n = count_list (net n) (Fails_after, Unavailable)"

lemma took_none: "st' = st \<Longrightarrow> took st st' sku q 0"
  by (simp add: took_def)

lemma took_once: "0 < q \<Longrightarrow> \<exists>i. moved sku (- q) st st' i \<Longrightarrow> took st st' sku q 1"
  by (auto simp: took_def moved_available)

lemma took_more: "took st st1 sku q j \<Longrightarrow> took st1 st2 sku q j' \<Longrightarrow> took st st2 sku q (j + j')"
  by (auto simp: took_def distrib_right)

context inventory_store begin

abbreviation "server \<equiv> inventory_grpc reserveStock"

lemma invoke_stock:
  assumes "grpc_Invoke server m n = (res, n')"
  shows "res = Inr r \<Longrightarrow> 0 < rq_Quantity m \<and>
      (\<exists>i. moved (rq_Sku m) (- rq_Quantity m) (stock (peer n)) (stock (peer n')) i)"
    and "res = Inl e \<Longrightarrow> stock (peer n') = stock (peer n) \<or> 0 < rq_Quantity m \<and>
      (\<exists>i. moved (rq_Sku m) (- rq_Quantity m) (stock (peer n)) (stock (peer n')) i)"
    and "res = Inl e \<Longrightarrow> status_Code_err e = Unavailable \<Longrightarrow> unavailable_never_ran n \<Longrightarrow>
      stock (peer n') = stock (peer n)"
    and "res = Inl e \<Longrightarrow> status_Code_err e \<in> {NotFound, FailedPrecondition} \<Longrightarrow>
      stock (peer n') = stock (peer n)"
    and "res = Inl e \<Longrightarrow> \<exists>c t. e = Status_Error c t"
proof -
  obtain sres effs s' where s: "server (Inr m) (peer n) = (sres, effs, s')" by (rule prod_cases3)
  note spec = reserve_server [OF s refl]
  have code: "status_Code (result_error sres) = OK \<longleftrightarrow> (\<exists>r. sres = Inr r)"
    using spec(6) s by (auto simp: status_Code_def op_defs Let_def split: sum.splits if_splits prod.splits)
  have ran: "stock s' = stock (peer n) \<or> 0 < rq_Quantity m \<and>
      (\<exists>i. moved (rq_Sku m) (- rq_Quantity m) (stock (peer n)) (stock s') i)"
    using spec(1-6) s by (auto simp: op_defs rq_GetSku_def rq_GetQuantity_def Let_def split: if_splits sum.splits prod.splits)
  show "res = Inr r \<Longrightarrow> 0 < rq_Quantity m \<and>
      (\<exists>i. moved (rq_Sku m) (- rq_Quantity m) (stock (peer n)) (stock (peer n')) i)"
    using spec(1) code by (rule_tac grpc_Invoke_cases [OF assms s]) auto
  show "res = Inl e \<Longrightarrow> stock (peer n') = stock (peer n) \<or> 0 < rq_Quantity m \<and>
      (\<exists>i. moved (rq_Sku m) (- rq_Quantity m) (stock (peer n)) (stock (peer n')) i)"
    using ran by (rule_tac grpc_Invoke_cases [OF assms s]) auto
  show "res = Inl e \<Longrightarrow> status_Code_err e = Unavailable \<Longrightarrow> unavailable_never_ran n \<Longrightarrow>
      stock (peer n') = stock (peer n)"
    using spec(6)
    by (rule_tac grpc_Invoke_cases [OF assms s])
      (auto simp: status_Code_def transport_error_def unavailable_never_ran_def split: if_splits)
  show "res = Inl e \<Longrightarrow> status_Code_err e \<in> {NotFound, FailedPrecondition} \<Longrightarrow>
      stock (peer n') = stock (peer n)"
    using spec(3,4)
    by (rule_tac grpc_Invoke_cases [OF assms s])
      (auto simp: status_Code_def transport_error_def library_code_def split: if_splits)
  show "res = Inl e \<Longrightarrow> \<exists>c t. e = Status_Error c t"
    using s by (rule_tac grpc_Invoke_cases [OF assms s])
      (auto simp: transport_error_def op_defs Let_def split: sum.splits if_splits prod.splits)
qed

lemma waited_calls_stock:
  assumes "\<forall>i < k. waited env isRetryableStatus (reserve_call server sku q) 0 i st"
    and "unavailable_never_ran (conn st)"
  shows "stock (peer (conn (run_calls (reserve_call server sku q) k st))) = stock (peer (conn st)) \<and>
    unavailable_never_ran (conn (run_calls (reserve_call server sku q) k st))"
  using assms(1)
proof (induction k)
  case (Suc k)
  let ?fn = "reserve_call server sku q"
  obtain n resp effs where st: "run_calls ?fn k st = (n, resp, effs)" by (rule prod_cases3)
  from Suc have IH: "stock (peer n) = stock (peer (conn st))" "unavailable_never_ran n"
    using st by auto
  from Suc.prems obtain e where e: "fst (?fn (run_calls ?fn k st)) = Some e" "isRetryableStatus e"
    by (auto simp: waited_def call_result_def)
  obtain n' resp' effs' where "?fn (n, resp, effs) = (Some e, n', resp', effs')"
    using e st by (metis prod.collapse)
  note inv = reserve_call_Some [OF this] and next' = this
  have "stock (peer n') = stock (peer n)"
    using invoke_stock(3) [OF inv refl] IH e by (auto simp: isRetryableStatus_def status_Code_def)
  with grpc_Invoke_net [OF inv IH(2)] IH next' st show ?case
    by (simp add: run_calls_last del: run_calls.simps)
qed (use assms(2) in simp)

text \<open>How a reservation ends: in its last call, after at most five calls that were retried.\<close>

lemma Client_Reserve_calls:
  assumes "fair_env env" and "Client_Reserve server env sku q n = (r, effs, n')"
  obtains k n1 res where "n1 = conn (run_calls (reserve_call server sku q) k (n, None, []))" "k < 6"
    "\<forall>i < k. waited env isRetryableStatus (reserve_call server sku q) 0 i (n, None, [])"
    "grpc_Invoke server \<lparr>rq_Sku = sku, rq_Quantity = to_int32 q\<rparr> n1 = (res, n')"
    "(\<exists>m it. res = Inr m \<and> r = Some (Inr it)) \<or>
     (\<exists>e. res = Inl e \<and> status_Code_err e = Unavailable \<and> (\<exists>e'. r = Some (Inl e'))) \<or>
     (\<exists>e. res = Inl e \<and> r = Some (Inl (if status_Code_err e = NotFound then Client_ErrNotFound
        else if status_Code_err e = FailedPrecondition then Client_ErrInsufficientStock
        else Wrapped ''call inventory-service'' e)))"
proof -
  let ?fn = "reserve_call server sku q"
  from Do_spec [OF reserveRetryConfig_ok(1,2) _ reserveRetryConfig_ok(3), of env "Some reserve_OnRetry"
      isRetryableStatus ?fn "(n, None, [])"] assms(1)
  obtain k res ws where D: "Do env reserveRetryConfig (Some reserve_OnRetry) isRetryableStatus ?fn (n, None, []) =
       (Returned res, ws, retry_effects (Some reserve_OnRetry) ?fn 0 (n, None, []) ws, run_calls ?fn (Suc k) (n, None, []))"
    and spec: "do_spec env reserveRetryConfig isRetryableStatus ?fn 0 k (n, None, []) res (length ws)"
    by (auto simp: fair_env_def)
  obtain n1 resp1 effs1 where st: "run_calls ?fn k (n, None, []) = (n1, resp1, effs1)" by (rule prod_cases3)
  obtain o1 n2 resp2 effs2 where fn: "?fn (n1, resp1, effs1) = (o1, n2, resp2, effs2)" by (rule prod_cases4)
  have last: "run_calls ?fn (Suc k) (n, None, []) = (n2, resp2, effs2)" "call_result ?fn k (n, None, []) = o1"
    using st fn by (simp_all add: run_calls_last call_result_def del: run_calls.simps)
  have n1: "n1 = conn (run_calls ?fn k (n, None, []))" "k < 6"
    "\<forall>i < k. waited env isRetryableStatus ?fn 0 i (n, None, [])"
    using spec st by (auto simp: do_spec_def reserveRetryConfig_def)
  have n': "n' = n2" using assms(2) D last by (auto simp: Client_Reserve_def Let_def)
  show thesis
  proof (cases o1)
    case None
    with spec last have "res = None" by (auto simp: do_spec_def)
    with D last assms(2) have "\<exists>it. r = Some (Inr it)" by (auto simp: Client_Reserve_def Let_def)
    with reserve_call_None [OF fn [unfolded None]] n1 n' show thesis by (auto intro: that)
  next
    case (Some e)
    note inv = reserve_call_Some [OF fn [unfolded Some]]
    from spec last Some have "res = Some e \<or> isRetryableStatus e \<and> res \<noteq> None" by (auto simp: do_spec_def)
    then show thesis
    proof
      assume "res = Some e"
      with D last assms(2) have "r = Some (Inl (if status_Code_err e = NotFound then Client_ErrNotFound
          else if status_Code_err e = FailedPrecondition then Client_ErrInsufficientStock
          else Wrapped ''call inventory-service'' e))"
        by (auto simp: Client_Reserve_def Let_def)
      with n1 inv n' show thesis by (intro that) auto
    next
      assume "isRetryableStatus e \<and> res \<noteq> None"
      with D last assms(2) n1 inv n' show thesis
        by (intro that) (auto simp: Client_Reserve_def Let_def isRetryableStatus_def status_Code_def)
    qed
  qed
qed

text \<open>Where no call that ran is reported as \<open>Unavailable\<close>, the retried ones did not run.\<close>

lemma Client_Reserve_last:
  assumes "fair_env env" and "unavailable_never_ran n"
    and "Client_Reserve server env sku q n = (r, effs, n')"
  obtains n1 res where "stock (peer n1) = stock (peer n)" "unavailable_never_ran n1"
    "grpc_Invoke server \<lparr>rq_Sku = sku, rq_Quantity = to_int32 q\<rparr> n1 = (res, n')"
    "(\<exists>m it. res = Inr m \<and> r = Some (Inr it)) \<or>
     (\<exists>e. res = Inl e \<and> status_Code_err e = Unavailable \<and> (\<exists>e'. r = Some (Inl e'))) \<or>
     (\<exists>e. res = Inl e \<and> r = Some (Inl (if status_Code_err e = NotFound then Client_ErrNotFound
        else if status_Code_err e = FailedPrecondition then Client_ErrInsufficientStock
        else Wrapped ''call inventory-service'' e)))"
proof (rule Client_Reserve_calls [OF assms(1,3)], goal_cases)
  case (1 k n1 res)
  from waited_calls_stock [OF 1(4)] assms(2) 1(2) have "stock (peer n1) = stock (peer n)" "unavailable_never_ran n1" by simp_all
  from 1(1) [OF this 1(5,6)] show ?case .
qed

lemma invoke_took:
  assumes "grpc_Invoke server m n = (res, n')"
  shows "\<exists>j \<le> 1. took (stock (peer n)) (stock (peer n')) (rq_Sku m) (rq_Quantity m) j \<and>
    ((\<exists>r. res = Inr r) \<longrightarrow> j = 1)"
  using invoke_stock(1,2) [OF assms] took_none took_once by (cases res) (metis le_refl zero_le_one sum.distinct(1))+

text \<open>A call that took the units and is retried all the same used up a lost reply.\<close>

lemma retried_call_took:
  assumes "grpc_Invoke server m n = (Inl e, n')" and "status_Code_err e = Unavailable"
  shows "\<exists>j. took (stock (peer n)) (stock (peer n')) (rq_Sku m) (rq_Quantity m) j \<and>
    j \<le> 1 \<and> j + lost_replies n' \<le> lost_replies n"
proof (cases "stock (peer n') = stock (peer n)")
  case True
  have "lost_replies n' \<le> lost_replies n"
    using assms(1) by (auto simp: grpc_Invoke_def lost_replies_def split: list.splits prod.splits io.splits)
  with True took_none show ?thesis by (intro exI [of _ 0]) simp
next
  case False
  with invoke_stock(2) [OF assms(1) refl] have "took (stock (peer n)) (stock (peer n')) (rq_Sku m) (rq_Quantity m) 1"
    by (metis took_once)
  moreover obtain sres effs s' where s: "server (Inr m) (peer n) = (sres, effs, s')" by (rule prod_cases3)
  have "hd (net n) = (Fails_after, Unavailable)" "net n = hd (net n) # net n'"
    using False assms invoke_stock(3) [OF assms(1) refl assms(2)] s reserve_server(6) [OF s refl] s
    by (auto simp: grpc_Invoke_def unavailable_never_ran_def transport_error_def status_Code_def library_code_def
        split: list.splits prod.splits io.splits if_splits)
  then have "1 + lost_replies n' = lost_replies n" by (metis count_list.simps(2) lost_replies_def add.commute)
  ultimately show ?thesis by (intro exI [of _ 1]) simp
qed

lemma waited_calls_took:
  assumes "\<forall>i < k. waited env isRetryableStatus (reserve_call server sku q) 0 i st"
  shows "\<exists>j. took (stock (peer (conn st))) (stock (peer (conn (run_calls (reserve_call server sku q) k st)))) sku (to_int32 q) j \<and>
    j \<le> k \<and> j + lost_replies (conn (run_calls (reserve_call server sku q) k st)) \<le> lost_replies (conn st)"
  using assms
proof (induction k)
  case (Suc k)
  let ?fn = "reserve_call server sku q"
  obtain n resp effs where st: "run_calls ?fn k st = (n, resp, effs)" by (rule prod_cases3)
  from Suc obtain j where j: "took (stock (peer (conn st))) (stock (peer n)) sku (to_int32 q) j" "j \<le> k"
    "j + lost_replies n \<le> lost_replies (conn st)" using st by auto
  from Suc.prems obtain e where e: "fst (?fn (run_calls ?fn k st)) = Some e" "isRetryableStatus e"
    by (auto simp: waited_def call_result_def)
  then obtain n' resp' effs' where next': "?fn (n, resp, effs) = (Some e, n', resp', effs')"
    using st by (metis prod.collapse)
  have "status_Code_err e = Unavailable" using e(2) by (simp add: isRetryableStatus_def status_Code_def)
  from retried_call_took [OF reserve_call_Some [OF next'] this] obtain j' where
    j': "took (stock (peer n)) (stock (peer n')) sku (to_int32 q) j'" "j' \<le> 1" "j' + lost_replies n' \<le> lost_replies n"
    by auto
  have "conn (run_calls ?fn (Suc k) st) = n'" using next' st by (simp add: run_calls_last del: run_calls.simps)
  with took_more [OF j(1) j'(1)] j(2,3) j'(2,3) show ?case by (intro exI [of _ "j + j'"]) simp
qed (auto intro: took_none)

lemma Client_Reserve_took:
  assumes "fair_env env" and "Client_Reserve server env sku q n = (r, effs, n')"
  shows "\<exists>j. took (stock (peer n)) (stock (peer n')) sku (to_int32 q) j \<and> j \<le> 6 \<and> j \<le> 1 + lost_replies n \<and>
    ((\<exists>it. r = Some (Inr it)) \<longrightarrow> 1 \<le> j)"
proof (rule Client_Reserve_calls [OF assms], goal_cases)
  case (1 k n1 res)
  from waited_calls_took [OF 1(3)] 1(1) obtain j where
    j: "took (stock (peer n)) (stock (peer n1)) sku (to_int32 q) j" "j \<le> k" "j + lost_replies n1 \<le> lost_replies n" by auto
  from invoke_took [OF 1(4)] obtain j' where
    j': "took (stock (peer n1)) (stock (peer n')) sku (to_int32 q) j'" "j' \<le> 1" "(\<exists>r. res = Inr r) \<longrightarrow> j' = 1" by auto
  from 1(5) have "(\<exists>it. r = Some (Inr it)) \<longrightarrow> (\<exists>m. res = Inr m)" by auto
  with took_more [OF j(1) j'(1)] j(2,3) j'(2,3) 1(2) show ?case by (intro exI [of _ "j + j'"]) auto
qed

lemma Client_Reserve_refused:
  assumes "fair_env env" and "unavailable_never_ran n"
    and "Client_Reserve server env sku q n = (Some (Inl e), effs, n')"
    and "errors_Is e Client_ErrNotFound \<or> errors_Is e Client_ErrInsufficientStock"
  shows "stock (peer n') = stock (peer n)"
  using assms(1-3)
proof (rule Client_Reserve_last, goal_cases)
  case (1 n1 res)
  from 1(4) show ?case
  proof (elim disjE exE conjE)
    fix e1 assume r: "res = Inl e1"
      and e: "Some (Inl e) = Some (Inl (if status_Code_err e1 = NotFound then Client_ErrNotFound
        else if status_Code_err e1 = FailedPrecondition then Client_ErrInsufficientStock
        else Wrapped ''call inventory-service'' e1))"
    from invoke_stock(5) [OF 1(3) r] e assms(4) have "status_Code_err e1 \<in> {NotFound, FailedPrecondition}"
      by (auto split: if_splits)
    with invoke_stock(4) [OF 1(3) r] 1(1) show ?thesis by simp
  qed (use 1 invoke_stock(3) [OF 1(3)] in auto)
qed

lemma Client_Reserve_once:
  assumes "fair_env env" and "unavailable_never_ran n"
    and "Client_Reserve server env sku q n = (r, effs, n')"
  shows "stock (peer n') = stock (peer n) \<or>
    0 < to_int32 q \<and> (\<exists>i. moved sku (- to_int32 q) (stock (peer n)) (stock (peer n')) i)"
proof -
  obtain n1 res where n1: "stock (peer n1) = stock (peer n)"
    "grpc_Invoke server \<lparr>rq_Sku = sku, rq_Quantity = to_int32 q\<rparr> n1 = (res, n')"
    using Client_Reserve_last [OF assms] by metis
  then show ?thesis
    using invoke_stock(1) [OF n1(2)] invoke_stock(2) [OF n1(2)] by (cases res) auto
qed

end

lemma Client_Reserve_safe:
  "fair_env env \<Longrightarrow> fst (Client_Reserve srv env sku q n) \<noteq> None"
  using Do_spec [OF reserveRetryConfig_ok(1,2) _ reserveRetryConfig_ok(3), of env "Some reserve_OnRetry"
      isRetryableStatus "reserve_call srv sku q" "(n, None, [])"]
  by (auto simp: fair_env_def Client_Reserve_def Let_def split: prod.splits option.splits)

sublocale inventory_store \<subseteq> client: inventory_reserver
  "Client_Reserve (inventory_grpc reserveStock)" "\<lambda>n. stock (peer n)" unavailable_never_ran
proof unfold_locales
  fix env :: retry_env and sku q and n n' :: "'s remote" and it e effs
  show "fair_env env \<Longrightarrow> fst (Client_Reserve (inventory_grpc reserveStock) env sku q n) \<noteq> None"
    by (rule Client_Reserve_safe)
  show "fair_env env \<Longrightarrow> unavailable_never_ran n \<Longrightarrow>
      unavailable_never_ran (snd (snd (Client_Reserve (inventory_grpc reserveStock) env sku q n)))"
  proof -
    assume f: "fair_env env" and n: "unavailable_never_ran n"
    obtain r effs n' where R: "Client_Reserve (inventory_grpc reserveStock) env sku q n = (r, effs, n')"
      by (rule prod_cases3)
    obtain n1 res where "unavailable_never_ran n1" "grpc_Invoke (inventory_grpc reserveStock) \<lparr>rq_Sku = sku, rq_Quantity = to_int32 q\<rparr> n1 = (res, n')"
      using Client_Reserve_last [OF f n R] by metis
    with grpc_Invoke_net R show ?thesis by fastforce
  qed
  assume f: "fair_env env" and n: "unavailable_never_ran n"
  show "Client_Reserve (inventory_grpc reserveStock) env sku q n = (Some (Inr it), effs, n') \<Longrightarrow>
      0 < to_int32 q \<and> (\<exists>i. moved sku (- to_int32 q) (stock (peer n)) (stock (peer n')) i)"
    by (rule Client_Reserve_last [OF f n], assumption) (auto dest!: invoke_stock(1))
  show "Client_Reserve (inventory_grpc reserveStock) env sku q n = (Some (Inl e), effs, n') \<Longrightarrow>
      errors_Is e Client_ErrNotFound \<or> errors_Is e Client_ErrInsufficientStock \<Longrightarrow>
      stock (peer n') = stock (peer n)"
    by (rule Client_Reserve_refused [OF f n])
  show "Client_Reserve (inventory_grpc reserveStock) env sku q n = (Some (Inl e), effs, n') \<Longrightarrow>
      stock (peer n') = stock (peer n) \<or>
      0 < to_int32 q \<and> (\<exists>i. moved sku (- to_int32 q) (stock (peer n)) (stock (peer n')) i)"
    by (rule Client_Reserve_once [OF f n])
qed

section \<open>Properties\<close>

definition calm_env :: retry_env where
  "calm_env = \<lparr>env_draw = (\<lambda>i n. 0), env_ctx_done = (\<lambda>i. None)\<rparr>"

lemma fair_calm_env: "fair_env calm_env"
  by (simp add: fair_env_def calm_env_def fair_def)

text \<open>
  C15. Where \<open>Unavailable\<close> means that the call never ran, a reservation with its retries takes the
  units at most once: it returns (no panic, no endless retrying); a success means exactly one
  removal of the 32-bit quantity; \<open>ErrNotFound\<close> and \<open>ErrInsufficientStock\<close> mean none; any other error
  means none or one.
\<close>

theorem reserve_at_most_once:
  assumes "fair_env env" and "unavailable_never_ran n"
    and "Client_Reserve (inventory_service_grpc redis) env sku q n = (r, effs, n')"
  shows "r \<noteq> None \<and>
    (\<forall>it. r = Some (Inr it) \<longrightarrow> 0 < to_int32 q \<and>
      (\<exists>i. moved sku (- to_int32 q) (tables (cs_next (peer n))) (tables (cs_next (peer n'))) i)) \<and>
    (\<forall>e. r = Some (Inl e) \<longrightarrow>
      (errors_Is e Client_ErrNotFound \<or> errors_Is e Client_ErrInsufficientStock \<longrightarrow>
        tables (cs_next (peer n')) = tables (cs_next (peer n))) \<and>
      (tables (cs_next (peer n')) = tables (cs_next (peer n)) \<or>
        0 < to_int32 q \<and>
        (\<exists>i. moved sku (- to_int32 q) (tables (cs_next (peer n))) (tables (cs_next (peer n'))) i)))"
proof (intro conjI allI impI)
  show "r \<noteq> None" using cpg.wrapped.client.reserve_returns [OF assms(1), of redis sku q n] assms(3) by simp
next
  fix it assume "r = Some (Inr it)"
  with cpg.wrapped.client.reserve_done [OF assms(1,2)] assms(3)
  show "0 < to_int32 q"
    "\<exists>i. moved sku (- to_int32 q) (tables (cs_next (peer n))) (tables (cs_next (peer n'))) i" by blast+
next
  fix e assume "r = Some (Inl e)"
  with assms(3) have R: "Client_Reserve (inventory_service_grpc redis) env sku q n = (Some (Inl e), effs, n')"
    by simp
  show "tables (cs_next (peer n')) = tables (cs_next (peer n)) \<or> 0 < to_int32 q \<and>
      (\<exists>i. moved sku (- to_int32 q) (tables (cs_next (peer n))) (tables (cs_next (peer n'))) i)"
    by (rule cpg.wrapped.client.reserve_maybe [OF assms(1,2) R])
  assume "errors_Is e Client_ErrNotFound \<or> errors_Is e Client_ErrInsufficientStock"
  then show "tables (cs_next (peer n')) = tables (cs_next (peer n))"
    by (rule cpg.wrapped.client.reserve_not_done [OF assms(1,2) R])
qed

text \<open>A run of the client on the sample stock, one or two calls long.\<close>

lemma backoff_first: "backoffDelay reserveRetryConfig 0 (\<lambda>n. 0) = Some (150 * millisecond)"
  by (simp add: backoffDelay_def backoffCap_def reserveRetryConfig_def millisecond_def Int64N_def
      Let_def in_int64_def)

lemma Do_first:
  "fn s = (None, s') \<Longrightarrow> Do calm_env reserveRetryConfig h isR fn s = (Returned None, [], [], s')"
  by (simp add: Do_def Do_loop.simps [of _ _ _ _ _ 0] reserveRetryConfig_def)

lemma Do_second:
  assumes "fn s = (Some e, s1)" and "isR e" and "fn s1 = (None, s2)"
  shows "Do calm_env reserveRetryConfig (Some h) isR fn s =
    (Returned None, [150 * millisecond], h 1 (150 * millisecond) e, s2)"
proof -
  have "Do_loop calm_env reserveRetryConfig (Some h) isR fn (Suc 0) (Some e) s1 = (Returned None, [], [], s2)"
    using assms(3) by (simp add: Do_loop.simps [of _ _ _ _ _ "Suc 0"] reserveRetryConfig_def)
  moreover have "int 0 < MaxAttempts reserveRetryConfig" "int 0 \<noteq> MaxAttempts reserveRetryConfig - 1"
    by (simp_all add: reserveRetryConfig_def)
  ultimately show ?thesis
    using assms(1,2) backoff_first
    by (simp add: Do_def Do_loop.simps [of _ _ _ _ _ 0] calm_env_def Let_def)
qed

lemmas run_reserve = Client_Reserve_def op_defs rq_GetSku_def rq_GetQuantity_def pg_query_calm
  update_reserve_def set_quantity_def Let_def

theorem reserve_at_most_once_witness:
  "\<exists>it effs n'. Client_Reserve (inventory_service_grpc map_redis) calm_env ''A'' 4
       \<lparr>peer = sample [], net = [(Fails_before, Unavailable)]\<rparr> = (Some (Inr it), effs, n') \<and>
     (\<exists>i. moved ''A'' (- 4) (tables (cs_next (sample []))) (tables (cs_next (peer n'))) i)"
proof -
  let ?n = "\<lparr>peer = sample [], net = [(Fails_before, Unavailable)]\<rparr>"
  let ?fn = "reserve_call (inventory_service_grpc map_redis) ''A'' 4"
  obtain r effs n' where R: "Client_Reserve (inventory_service_grpc map_redis) calm_env ''A'' 4 ?n = (r, effs, n')"
    by (rule prod_cases3)
  have q: "to_int32 4 = 4" "in_int32 4" "in_int32 6" by (simp_all add: in_int32_def)
  obtain e s1 where 1: "?fn (?n, None, []) = (Some e, s1)" "isRetryableStatus e"
    and s1: "peer (fst s1) = sample []" "net (fst s1) = []" "fst (snd s1) = None"
    by (simp add: run_reserve q transport_error_def library_code_def isRetryableStatus_def)
  obtain s2 where 2: "?fn s1 = (None, s2)"
    using s1 by (cases s1) (auto simp: run_reserve q)
  have "\<exists>it. r = Some (Inr it)"
    using R Do_second [where isR = isRetryableStatus, OF 1 2, of reserve_OnRetry] by (auto simp: Client_Reserve_def Let_def split: prod.splits)
  moreover have "unavailable_never_ran ?n" by (simp add: unavailable_never_ran_def)
  from reserve_at_most_once [OF fair_calm_env this R] calculation
  have "\<exists>i. moved ''A'' (- 4) (tables (cs_next (sample []))) (tables (cs_next (peer n'))) i"
    by (auto simp: q(1))
  ultimately show ?thesis using R by blast
qed

text \<open>
  That bound is reached with two: the first call runs, its reply is lost with \<open>Unavailable\<close>, and the retry
  runs again.
\<close>

theorem reservation_taken_twice:
  "let (r, effs, n') = Client_Reserve (inventory_service_grpc map_redis) calm_env ''A'' 4
         \<lparr>peer = sample [], net = [(Fails_after, Unavailable)]\<rparr>
   in r = Some (Inr \<lparr>ci_SKU = ''A'', ci_Name = ''a'', ci_Quantity = 2\<rparr>) \<and>
      available (tables (cs_next (sample []))) ''A'' - available (tables (cs_next (peer n'))) ''A'' = 2 * 4"
proof -
  let ?n = "\<lparr>peer = sample [], net = [(Fails_after, Unavailable)]\<rparr>"
  let ?fn = "reserve_call (inventory_service_grpc map_redis) ''A'' 4"
  have q: "to_int32 4 = 4" "in_int32 4" "in_int32 6" "in_int32 2" "to_int32 2 = 2"
    by (simp_all add: in_int32_def)
  obtain e s1 where 1: "?fn (?n, None, []) = (Some e, s1)" "isRetryableStatus e"
    and s1: "tables (cs_next (peer (fst s1))) = [''A'' \<mapsto> (''a'', 6)]" "script (cs_next (peer (fst s1))) = []"
      "net (fst s1) = []"
    by (simp add: run_reserve q transport_error_def library_code_def isRetryableStatus_def)
  obtain s2 where 2: "?fn s1 = (None, s2)"
    and s2: "tables (cs_next (peer (fst s2))) ''A'' = Some (''a'', 2)"
      "fst (snd s2) = Some \<lparr>rs_Sku = ''A'', rs_Name = ''a'', rs_Quantity = 2\<rparr>"
    using s1 by (cases s1) (auto simp: run_reserve q)
  have "Client_Reserve (inventory_service_grpc map_redis) calm_env ''A'' 4 ?n =
      (Some (Inr \<lparr>ci_SKU = ''A'', ci_Name = ''a'', ci_Quantity = 2\<rparr>),
       snd (snd s2) @ reserve_OnRetry 1 (150 * millisecond) e, fst s2)"
    using s2 Do_second [where isR = isRetryableStatus, OF 1 2, of reserve_OnRetry]
    by (cases s2) (simp add: Client_Reserve_def rs_GetSku_def rs_GetName_def rs_GetQuantity_def)
  with s2 show ?thesis by (simp add: available_def)
qed

text \<open>
  C27. Whatever the connection does, with nothing assumed of the codes it reports: one reservation takes
  its 32-bit quantity a whole number of times, at most six, at most once more than there are calls that
  ran and were reported as \<open>Unavailable\<close>, at least once when it reports success; and it touches no other
  SKU.
\<close>

theorem reservation_takes_bounded:
  assumes "fair_env env" and "Client_Reserve (inventory_service_grpc redis) env sku q n = (r, effs, n')"
  shows "\<exists>times. times \<le> 6 \<and> times \<le> 1 + count_list (net n) (Fails_after, Unavailable) \<and>
    ((\<exists>it. r = Some (Inr it)) \<longrightarrow> 1 \<le> times) \<and> (0 < times \<longrightarrow> 0 < to_int32 q) \<and>
    (\<forall>k. available (tables (cs_next (peer n'))) k =
      available (tables (cs_next (peer n))) k - (if k = sku then int times * to_int32 q else 0))"
  using cpg.wrapped.Client_Reserve_took [OF assms] unfolding took_def lost_replies_def by blast

theorem reservation_takes_bounded_witness:
  "\<exists>r effs n' times. Client_Reserve (inventory_service_grpc map_redis) calm_env ''A'' 4
       \<lparr>peer = sample [], net = [(Fails_after, Unavailable)]\<rparr> = (r, effs, n') \<and>
     times \<le> 1 + count_list [(Fails_after, Unavailable)] (Fails_after, Unavailable) \<and>
     available (tables (cs_next (peer n'))) ''A'' = 10 - int times * 4"
proof -
  let ?n = "\<lparr>peer = sample [], net = [(Fails_after, Unavailable)]\<rparr>"
  obtain r effs n' where R: "Client_Reserve (inventory_service_grpc map_redis) calm_env ''A'' 4 ?n = (r, effs, n')"
    by (rule prod_cases3)
  have q: "to_int32 4 = 4" by (simp add: in_int32_def)
  from reservation_takes_bounded [OF fair_calm_env R] obtain times where
    "times \<le> 1 + count_list (net ?n) (Fails_after, Unavailable)"
    "\<forall>k. available (tables (cs_next (peer n'))) k =
       available (tables (cs_next (peer ?n))) k - (if k = ''A'' then int times * to_int32 4 else 0)"
    by blast
  with R q show ?thesis
    by (intro exI [of _ r] exI [of _ effs] exI [of _ n'] exI [of _ times]) (simp add: available_def)
qed

text \<open>
  The quantity is cut to 32 bits on its way out: for an order of \<open>2 ^ 32 + 4\<close> units the client
  reports success after 4 were reserved.
\<close>

theorem reservation_truncated:
  "let (r, effs, n') = Client_Reserve (inventory_service_grpc map_redis) calm_env ''A'' (2 ^ 32 + 4)
         \<lparr>peer = sample [], net = []\<rparr>
   in r = Some (Inr \<lparr>ci_SKU = ''A'', ci_Name = ''a'', ci_Quantity = 6\<rparr>) \<and>
      available (tables (cs_next (peer n'))) ''A'' = available (tables (cs_next (sample []))) ''A'' - 4"
proof -
  let ?n = "\<lparr>peer = sample [], net = []\<rparr>"
  let ?fn = "reserve_call (inventory_service_grpc map_redis) ''A'' (2 ^ 32 + 4)"
  have q: "to_int32 4294967300 = 4" "in_int32 4" "in_int32 6" "to_int32 6 = 6"
    by (simp_all add: in_int32_def to_int32_mod)
  obtain s2 where 2: "?fn (?n, None, []) = (None, s2)"
    and s2: "tables (cs_next (peer (fst s2))) ''A'' = Some (''a'', 6)"
      "fst (snd s2) = Some \<lparr>rs_Sku = ''A'', rs_Name = ''a'', rs_Quantity = 6\<rparr>"
    by (simp add: run_reserve q del: power_Suc)
  have "Client_Reserve (inventory_service_grpc map_redis) calm_env ''A'' (2 ^ 32 + 4) ?n =
      (Some (Inr \<lparr>ci_SKU = ''A'', ci_Name = ''a'', ci_Quantity = 6\<rparr>), snd (snd s2), fst s2)"
    using s2 Do_first [of ?fn "(?n, None, [])" s2 "Some reserve_OnRetry" isRetryableStatus, OF 2]
    by (cases s2) (simp add: Client_Reserve_def rs_GetSku_def rs_GetName_def rs_GetQuantity_def)
  with s2 show ?thesis by (simp add: available_def)
qed

text \<open>
  C21. The retry budget of a reservation: whatever the calls return and however the jitter falls, the
  retries end without a panic after at most five waits, 6.1 seconds in all; and when all five waits
  were needed they took at least 3.05 seconds, the "roughly 3-6s" the configuration is sized for.
\<close>

theorem reserve_retry_budget:
  assumes "fair_env env"
    and "Do env reserveRetryConfig h isR fn s = (r, ws, effs, s')"
  shows "r \<noteq> Panicked \<and> length ws \<le> 5 \<and> sum_list ws \<le> 6100 * millisecond \<and>
    (length ws = 5 \<longrightarrow> 3050 * millisecond \<le> sum_list ws)"
proof -
  from Do_spec [OF reserveRetryConfig_ok(1,2) _ reserveRetryConfig_ok(3), of env h isR fn s] assms
  obtain k res where spec: "do_spec env reserveRetryConfig isR fn 0 k s res (length ws)" and r: "r = Returned res"
    and w: "\<forall>i < length ws. backoffCap reserveRetryConfig i div 2 \<le> ws ! i \<and> ws ! i \<le> backoffCap reserveRetryConfig i"
    by (auto simp: fair_env_def)
  from do_spec_waits [OF spec] have len: "length ws \<le> 5" by (simp add: reserveRetryConfig_def)
  have caps: "backoffCap reserveRetryConfig 0 = 300 * millisecond" "backoffCap reserveRetryConfig 1 = 600 * millisecond"
    "backoffCap reserveRetryConfig 2 = 1200 * millisecond" "backoffCap reserveRetryConfig 3 = 2000 * millisecond"
    "backoffCap reserveRetryConfig 4 = 2000 * millisecond"
    by (subst backoffCap_exact; simp add: reserveRetryConfig_def millisecond_def)+
  from len consider "length ws = 0" | "length ws = 1" | "length ws = 2" | "length ws = 3" | "length ws = 4" | "length ws = 5"
    by linarith
  then have "sum_list ws \<le> 6100 * millisecond \<and> (length ws = 5 \<longrightarrow> 3050 * millisecond \<le> sum_list ws)"
    using w caps by cases
      (auto simp: length_Suc_conv numeral_eq_Suc millisecond_def All_less_Suc)
  with r len show ?thesis by simp
qed

theorem reserve_retry_budget_witness:
  "let (r, ws, effs, s') = Do calm_env reserveRetryConfig None (\<lambda>e. True)
         (\<lambda>n. if n = 0 then (Some (Status_Error Unavailable []), Suc n) else (None, Suc n)) (0 :: nat)
   in r = Returned None \<and> ws = [150 * millisecond] \<and> length ws \<le> 5 \<and> sum_list ws \<le> 6100 * millisecond"
proof -
  let ?fn = "\<lambda>n. if n = 0 then (Some (Status_Error Unavailable []), Suc n) else (None, Suc n)"
  obtain r ws effs s' where D: "Do calm_env reserveRetryConfig None (\<lambda>e. True) ?fn 0 = (r, ws, effs, s')"
    by (rule prod_cases4)
  have "r = Returned None \<and> ws = [150 * millisecond]"
    using D backoff_first
    by (auto simp: Do_def Do_loop.simps [of _ _ _ _ _ 0] Do_loop.simps [of _ _ _ _ _ "Suc 0"]
        calm_env_def reserveRetryConfig_def Let_def)
  with reserve_retry_budget [OF fair_calm_env D] D show ?thesis by simp
qed

end
