(* ===== verification/GoTime.thy ===== *)
theory GoTime
  imports GoStrconv "HOL-Library.Monad_Syntax"
begin

text \<open>
  \<open>time.Time\<close> as its civil fields and zone offset, the RFC 3339 text \<open>MarshalJSON\<close> writes and
  \<open>UnmarshalJSON\<close> reads, and the microsecond resolution of a Postgres \<open>timestamptz\<close> column.
\<close>

record go_time =
  year :: int
  month :: nat
  day :: nat
  hour :: nat
  minute :: nat
  second :: nat
  nanos :: nat
  zone :: int

definition days_in :: "nat \<Rightarrow> nat \<Rightarrow> nat" where
  "days_in m y =
     (if m = 2 then (if y mod 4 = 0 \<and> (y mod 100 \<noteq> 0 \<or> y mod 400 = 0) then 29 else 28)
      else if m \<in> {4, 6, 9, 11} then 30 else 31)"

text \<open>Field ranges as the parser checks them; \<open>time.Now().UTC()\<close> has offset 0.\<close>

definition valid_fields :: "nat \<Rightarrow> nat \<Rightarrow> nat \<Rightarrow> nat \<Rightarrow> nat \<Rightarrow> nat \<Rightarrow> bool" where
  "valid_fields y mo d h mi s \<longleftrightarrow>
     1 \<le> mo \<and> mo \<le> 12 \<and> 1 \<le> d \<and> d \<le> days_in mo y \<and> h \<le> 23 \<and> mi \<le> 59 \<and> s \<le> 59"

definition valid_utc :: "go_time \<Rightarrow> bool" where
  "valid_utc t \<longleftrightarrow> 0 \<le> year t \<and> year t \<le> 9999
     \<and> valid_fields (nat (year t)) (month t) (day t) (hour t) (minute t) (second t)
     \<and> nanos t < 10 ^ 9 \<and> zone t = 0"

section \<open>Writing\<close>

definition frac_text :: "nat \<Rightarrow> string" where
  "frac_text n =
     (if n = 0 then [] else CHR ''.'' # rev (dropWhile (\<lambda>c. c = CHR ''0'') (rev (pad_text 9 n))))"

definition zone_text :: "int \<Rightarrow> string" where
  "zone_text z =
     (if z = 0 then ''Z''
      else (if z < 0 then CHR ''-'' else CHR ''+'') #
        pad_text 2 (nat \<bar>z\<bar> div 60) @ CHR '':'' # pad_text 2 (nat \<bar>z\<bar> mod 60))"

text \<open>\<open>Time.MarshalJSON\<close> without the quotes: an error for a year outside 0..9999 or a zone hour past 23.\<close>

definition time_text :: "go_time \<Rightarrow> string option" where
  "time_text t =
     (if year t < 0 \<or> 9999 < year t \<or> 24 * 60 \<le> \<bar>zone t\<bar> then None
      else Some (pad_text 4 (nat (year t)) @ CHR ''-'' # pad_text 2 (month t) @ CHR ''-'' # pad_text 2 (day t)
        @ CHR ''T'' # pad_text 2 (hour t) @ CHR '':'' # pad_text 2 (minute t) @ CHR '':'' # pad_text 2 (second t)
        @ frac_text (nanos t) @ zone_text (zone t)))"

section \<open>Reading\<close>

text \<open>A fraction keeps nine digits; further digits are read and dropped.\<close>

definition read_frac :: "string \<Rightarrow> (nat \<times> string) option" where
  "read_frac s =
     (if s \<noteq> [] \<and> hd s = CHR ''.'' then
        (let ds = takeWhile is_digit (tl s); d9 = take 9 ds
         in if ds = [] then None
            else Some (text_val 0 d9 * 10 ^ (9 - length d9), drop (length ds) (tl s)))
      else Some (0, s))"

definition read_zone :: "string \<Rightarrow> (int \<times> string) option" where
  "read_zone s =
     (case s of
        [] \<Rightarrow> None
      | c # r \<Rightarrow>
          if c = CHR ''Z'' then Some (0, r)
          else if c = CHR ''+'' \<or> c = CHR ''-'' then
            do { (h, r) \<leftarrow> read_digits 2 r; r \<leftarrow> expect (CHR '':'') r; (m, r) \<leftarrow> read_digits 2 r;
                 if h \<le> 23 \<and> m \<le> 59
                 then Some ((if c = CHR ''-'' then - 1 else 1) * int (60 * h + m), r) else None }
          else None)"

definition parse_time :: "string \<Rightarrow> go_time option" where
  "parse_time s =
     do { (y, s) \<leftarrow> read_digits 4 s; s \<leftarrow> expect (CHR ''-'') s;
          (mo, s) \<leftarrow> read_digits 2 s; s \<leftarrow> expect (CHR ''-'') s;
          (d, s) \<leftarrow> read_digits 2 s; s \<leftarrow> expect (CHR ''T'') s;
          (h, s) \<leftarrow> read_digits 2 s; s \<leftarrow> expect (CHR '':'') s;
          (mi, s) \<leftarrow> read_digits 2 s; s \<leftarrow> expect (CHR '':'') s;
          (se, s) \<leftarrow> read_digits 2 s;
          (n, s) \<leftarrow> read_frac s;
          (z, s) \<leftarrow> read_zone s;
          if s = [] \<and> valid_fields y mo d h mi se
          then Some \<lparr>year = int y, month = mo, day = d, hour = h, minute = mi, second = se,
                     nanos = n, zone = z\<rparr>
          else None }"

section \<open>Round trip\<close>

lemma text_val_zeros: "list_all (\<lambda>c. c = CHR ''0'') zs \<Longrightarrow> text_val a zs = a * 10 ^ length zs"
  by (induction zs arbitrary: a) (auto simp: digit_val_def)

lemma read_frac_text:
  assumes "n < 10 ^ 9" and "r \<noteq> []" and "\<not> is_digit (hd r)" and "hd r \<noteq> CHR ''.''"
  shows "read_frac (frac_text n @ r) = Some (n, r)"
proof (cases "n = 0")
  case True
  with assms show ?thesis by (cases r) (auto simp: read_frac_def frac_text_def)
next
  case False
  define p where "p = pad_text 9 n"
  define ds where "ds = rev (dropWhile (\<lambda>c. c = CHR ''0'') (rev p))"
  define zs where "zs = rev (takeWhile (\<lambda>c. c = CHR ''0'') (rev p))"
  have p: "p = ds @ zs"
    unfolding ds_def zs_def by (metis rev_append rev_rev_ident takeWhile_dropWhile_id)
  have z: "list_all (\<lambda>c. c = CHR ''0'') zs"
    by (auto simp: zs_def list_all_iff dest: set_takeWhileD)
  have len: "length ds + length zs = 9" using p by (metis length_append length_pad_text p_def)
  have val: "text_val 0 p = n" using assms(1) by (simp add: p_def text_val_pad_text)
  with p z have n: "text_val 0 ds * 10 ^ length zs = n"
    by (simp add: text_val_append text_val_zeros)
  have ne: "ds \<noteq> []" using n False by auto
  have dig: "list_all is_digit ds" using p by (metis list_all_append p_def pad_text_digits)
  have "takeWhile is_digit (ds @ r) = ds"
    using dig assms(2,3) by (cases r) (auto simp: takeWhile_append2 list_all_iff)
  moreover have "frac_text n = CHR ''.'' # ds" using False by (simp add: frac_text_def ds_def p_def)
  moreover have "9 - length ds = length zs" and "length ds \<le> 9" using len by auto
  ultimately show ?thesis using ne n by (simp add: read_frac_def Let_def)
qed

lemma read_frac_zone:
  "n < 10 ^ 9 \<Longrightarrow> read_frac (frac_text n @ zone_text 0) = Some (n, zone_text 0)"
  by (rule read_frac_text) (simp_all add: zone_text_def is_digit_def)

lemma parse_time_text:
  assumes "valid_utc t"
  obtains s where "time_text t = Some s" and "parse_time s = Some t"
proof -
  let ?s = "pad_text 4 (nat (year t)) @ CHR ''-'' # pad_text 2 (month t) @ CHR ''-'' # pad_text 2 (day t)
        @ CHR ''T'' # pad_text 2 (hour t) @ CHR '':'' # pad_text 2 (minute t) @ CHR '':'' # pad_text 2 (second t)
        @ frac_text (nanos t) @ zone_text 0"
  from assms have v: "valid_fields (nat (year t)) (month t) (day t) (hour t) (minute t) (second t)"
    and y: "nat (year t) < 10 ^ 4" "int (nat (year t)) = year t" and n: "nanos t < 10 ^ 9" and z: "zone t = 0"
    by (auto simp: valid_utc_def)
  from v have b: "month t < 10 ^ 2" "day t < 10 ^ 2" "hour t < 10 ^ 2" "minute t < 10 ^ 2" "second t < 10 ^ 2"
    by (auto simp: valid_fields_def days_in_def split: if_splits)
  have "time_text t = Some ?s" using assms by (simp add: time_text_def valid_utc_def)
  moreover have "read_zone (zone_text 0) = Some (0, [])" by (simp add: read_zone_def zone_text_def)
  then have "parse_time ?s = Some t"
    using y z v
    by (simp add: parse_time_def read_digits_pad [OF b(1)] read_digits_pad [OF b(2)] read_digits_pad [OF b(3)]
        read_digits_pad [OF b(4)] read_digits_pad [OF b(5)] read_digits_pad [OF y(1)] read_frac_zone [OF n]
        del: pad_text.simps)
  ultimately show ?thesis by (rule that)
qed

lemma pad_text_ascii: "c \<in> set (pad_text k n) \<Longrightarrow> is_digit c"
  using pad_text_digits [of k n] by (auto simp: list_all_iff)

section \<open>timestamptz\<close>

text \<open>A \<open>timestamptz\<close> value has microsecond resolution: the driver drops the rest.\<close>

definition timestamptz :: "go_time \<Rightarrow> go_time" where
  "timestamptz t = t\<lparr>nanos := nanos t - nanos t mod 1000\<rparr>"

lemma timestamptz_idem [simp]: "timestamptz (timestamptz t) = timestamptz t"
  by (simp add: timestamptz_def minus_mod_eq_mult_div)

end
