(* ===== verification/OrderStore.thy ===== *)
theory OrderStore
  imports Postgres GoJson GoTime
begin

text \<open>
  order-service's database: the orders and the transactional outbox (\<open>order/model.go\<close>,
  \<open>order/store.go\<close>, \<open>outbox/store.go\<close>, \<open>db/schema.sql\<close>). The Go interface \<open>order.Store\<close> is the locale
  \<open>order_store\<close>, the relay's \<open>eventStore\<close> the locale \<open>event_store\<close>; both are interpreted here. The
  process runs in UTC, so times read from the database have offset 0.
\<close>

section \<open>Data\<close>

record order =
  o_ID :: string
  o_SKU :: string
  o_Quantity :: int
  o_Status :: string
  o_CreatedAt :: go_time

definition StatusConfirmed :: string where
  "StatusConfirmed = ''confirmed''"

record OutboxEvent =
  evt_Subject :: string
  evt_Payload :: string
  evt_TraceParent :: string

text \<open>A row of \<open>outbox_events\<close>; of \<open>published_at\<close> the code uses only whether it is null.\<close>

record outbox_row =
  ob_id :: int
  ob_subject :: string
  ob_payload :: json
  ob_trace_parent :: "string option"
  ob_published :: bool

text \<open>The tables, and the sequence behind \<open>BIGSERIAL\<close>, which a rollback leaves where it is.\<close>

record order_db =
  orders :: "string \<rightharpoonup> order"
  outbox_events :: "outbox_row list"
  next_id :: int

definition keep_sequence :: "order_db \<Rightarrow> order_db \<Rightarrow> order_db" where
  "keep_sequence tx db = db\<lparr>next_id := max (next_id tx) (next_id db)\<rparr>"

section \<open>Statements\<close>

abbreviation unique_violation :: go_error where
  "unique_violation \<equiv> Driver_Error ''duplicate key value violates unique constraint''"

abbreviation invalid_json :: go_error where
  "invalid_json \<equiv> Driver_Error ''invalid input syntax for type json''"

definition insert_order :: "order \<Rightarrow> order_db \<Rightarrow> go_error option \<times> order_db" where
  "insert_order ord t =
     (if \<not> in_int32 (o_Quantity ord) then (Some out_of_range, t)
      else if o_Quantity ord \<le> 0 then (Some check_violation, t)
      else if orders t (o_ID ord) \<noteq> None then (Some unique_violation, t)
      else (None, t\<lparr>orders := (orders t)(o_ID ord \<mapsto> ord\<lparr>o_CreatedAt := timestamptz (o_CreatedAt ord)\<rparr>)\<rparr>))"

definition insert_event ::
  "string \<Rightarrow> string \<Rightarrow> string option \<Rightarrow> order_db \<Rightarrow> go_error option \<times> order_db" where
  "insert_event subject payload traceParent t =
     (case parse_all payload of
        None \<Rightarrow> (Some invalid_json, t)
      | Some j \<Rightarrow>
          (None, t\<lparr>next_id := next_id t + 1,
                   outbox_events := outbox_events t @
                     [\<lparr>ob_id = next_id t, ob_subject = subject, ob_payload = j,
                       ob_trace_parent = traceParent, ob_published = False\<rparr>]\<rparr>))"

definition select_order :: "string \<Rightarrow> order_db \<Rightarrow> (go_error + order) \<times> order_db" where
  "select_order i t = (case orders t i of None \<Rightarrow> Inl Pgx_ErrNoRows | Some ord \<Rightarrow> Inr ord, t)"

text \<open>\<open>WHERE published_at IS NULL ORDER BY id LIMIT $1\<close>.\<close>

definition select_unpublished :: "nat \<Rightarrow> order_db \<Rightarrow> (go_error + outbox_row list) \<times> order_db" where
  "select_unpublished limit t =
     (Inr (take limit (sort_key ob_id (filter (\<lambda>r. \<not> ob_published r) (outbox_events t)))), t)"

definition update_published :: "int \<Rightarrow> order_db \<Rightarrow> (go_error + unit) \<times> order_db" where
  "update_published i t =
     (Inr (), t\<lparr>outbox_events := map (\<lambda>r. if ob_id r = i then r\<lparr>ob_published := True\<rparr> else r) (outbox_events t)\<rparr>)"

section \<open>order.PostgresStore\<close>

definition CreateOrder :: "order \<Rightarrow> OutboxEvent \<Rightarrow> order_db pg \<Rightarrow> go_error option \<times> order_db pg" where
  "CreateOrder ord evt db =
     (case tx_begin db of
        (Inl err, db) \<Rightarrow> (Some (Wrapped ''begin transaction'' err), db)
      | (Inr tx, db) \<Rightarrow>
          (case tx_exec (insert_order ord) tx db of
             ((Some err, tx), db) \<Rightarrow> (Some (Wrapped ''create order'' err), tx_rollback keep_sequence tx db)
           | ((None, tx), db) \<Rightarrow>
               let traceParent = (if evt_TraceParent evt \<noteq> [] then Some (evt_TraceParent evt) else None) in
               (case tx_exec (insert_event (evt_Subject evt) (evt_Payload evt) traceParent) tx db of
                  ((Some err, tx), db) \<Rightarrow>
                    (Some (Wrapped ''create outbox event'' err), tx_rollback keep_sequence tx db)
                | ((None, tx), db) \<Rightarrow>
                    (case tx_commit tx db of
                       (Some err, db) \<Rightarrow>
                         (Some (Wrapped ''commit transaction'' err), tx_rollback keep_sequence tx db)
                     | (None, db) \<Rightarrow> (None, db)))))"

definition GetOrder :: "string \<Rightarrow> order_db pg \<Rightarrow> (go_error + order) \<times> order_db pg" where
  "GetOrder i db =
     (case pg_query (select_order i) db of
        (Inl err, db') \<Rightarrow>
          (if errors_Is err Pgx_ErrNoRows then Inl Order_ErrNotFound else Inl (Wrapped ''get order'' err), db')
      | (Inr ord, db') \<Rightarrow> (Inr ord, db'))"

section \<open>outbox.Store\<close>

record event =
  ev_ID :: int
  ev_Subject :: string
  ev_Payload :: string
  ev_TraceParent :: string

text \<open>
  \<open>jsonb\<close> is the text Postgres writes for a stored document (it keeps neither white space nor the
  order of members), a parameter.
\<close>

definition scan_event :: "(json \<Rightarrow> string) \<Rightarrow> outbox_row \<Rightarrow> event" where
  "scan_event jsonb r =
     \<lparr>ev_ID = ob_id r, ev_Subject = ob_subject r, ev_Payload = jsonb (ob_payload r),
      ev_TraceParent = (case ob_trace_parent r of None \<Rightarrow> [] | Some t \<Rightarrow> t)\<rparr>"

text \<open>The query is one round trip; \<open>CollectRows\<close> then reads the rows off the connection.\<close>

definition FetchUnpublished :: "(json \<Rightarrow> string) \<Rightarrow> nat \<Rightarrow> order_db pg \<Rightarrow> (go_error + event list) \<times> order_db pg" where
  "FetchUnpublished jsonb limit db =
     (case pg_query (select_unpublished limit) db of
        (Inl err, db') \<Rightarrow> (Inl (Wrapped ''fetch unpublished outbox events'' err), db')
      | (Inr rows, db') \<Rightarrow>
          (case pg_query (\<lambda>t. (Inr (map (scan_event jsonb) rows), t)) db' of
             (Inl err, db'') \<Rightarrow> (Inl (Wrapped ''scan outbox events'' err), db'')
           | (Inr events, db'') \<Rightarrow> (Inr events, db'')))"

definition MarkPublished :: "int \<Rightarrow> order_db pg \<Rightarrow> go_error option \<times> order_db pg" where
  "MarkPublished i db =
     (case pg_query (update_published i) db of
        (Inl err, db') \<Rightarrow> (Some (Wrapped ''mark outbox event published'' err), db')
      | (Inr u, db') \<Rightarrow> (None, db'))"

lemmas [op_defs] = CreateOrder_def GetOrder_def FetchUnpublished_def MarkPublished_def

section \<open>The order.Store interface\<close>

text \<open>The order and its event are both in, and nothing else changed.\<close>

definition created :: "order \<Rightarrow> OutboxEvent \<Rightarrow> order_db \<Rightarrow> order_db \<Rightarrow> bool" where
  "created ord evt t t' \<longleftrightarrow>
     (\<exists>j i. parse_all (evt_Payload evt) = Some j \<and> next_id t \<le> i \<and> i < next_id t' \<and>
        orders t (o_ID ord) = None \<and> 0 < o_Quantity ord \<and> in_int32 (o_Quantity ord) \<and>
        orders t' = (orders t)(o_ID ord \<mapsto> ord\<lparr>o_CreatedAt := timestamptz (o_CreatedAt ord)\<rparr>) \<and>
        outbox_events t' = outbox_events t @
          [\<lparr>ob_id = i, ob_subject = evt_Subject evt, ob_payload = j,
            ob_trace_parent = (if evt_TraceParent evt \<noteq> [] then Some (evt_TraceParent evt) else None),
            ob_published = False\<rparr>])"

text \<open>Neither is in; the sequence may have moved on.\<close>

definition nothing_new :: "order_db \<Rightarrow> order_db \<Rightarrow> bool" where
  "nothing_new t t' \<longleftrightarrow>
     orders t' = orders t \<and> outbox_events t' = outbox_events t \<and> next_id t \<le> next_id t'"

lemma nothing_new_refl [simp]: "nothing_new t t"
  by (simp add: nothing_new_def)

locale order_store =
  fixes createOrder :: "order \<Rightarrow> OutboxEvent \<Rightarrow> 'd \<Rightarrow> go_error option \<times> 'd"
    and getOrder :: "string \<Rightarrow> 'd \<Rightarrow> (go_error + order) \<times> 'd"
    and db :: "'d \<Rightarrow> order_db"
    and certain :: "'d \<Rightarrow> bool"
  assumes create_ok: "createOrder ord evt d = (None, d') \<Longrightarrow> created ord evt (db d) (db d')"
    and create_failed: "createOrder ord evt d = (Some e, d') \<Longrightarrow>
      nothing_new (db d) (db d') \<or> created ord evt (db d) (db d')"
    and create_error: "certain d \<Longrightarrow> createOrder ord evt d = (Some e, d') \<Longrightarrow> nothing_new (db d) (db d')"
    and create_certain: "certain d \<Longrightarrow> certain (snd (createOrder ord evt d))"
    and getOrder_frame: "db (snd (getOrder i d)) = db d"
    and getOrder_ok: "getOrder i d = (Inr ord, d') \<Longrightarrow> orders (db d) i = Some ord"
    and getOrder_missing: "getOrder i d = (Inl e, d') \<Longrightarrow> errors_Is e Order_ErrNotFound \<Longrightarrow> orders (db d) i = None"
    and getOrder_certain: "certain d \<Longrightarrow> certain (snd (getOrder i d))"

section \<open>The eventStore interface\<close>

definition unpublished :: "order_db \<Rightarrow> outbox_row list" where
  "unpublished t = sort_key ob_id (filter (\<lambda>r. \<not> ob_published r) (outbox_events t))"

lemma set_unpublished [simp]: "set (unpublished t) = {r \<in> set (outbox_events t). \<not> ob_published r}"
  by (auto simp: unpublished_def)

lemma unpublished_Nil: "unpublished t = [] \<longleftrightarrow> (\<forall>r \<in> set (outbox_events t). ob_published r)"
  using set_unpublished [of t] by (metis (mono_tags, lifting) empty_Collect_eq set_empty)

lemma length_unpublished: "length (unpublished t) \<le> length (outbox_events t)"
  by (simp add: unpublished_def)

definition mark :: "int \<Rightarrow> order_db \<Rightarrow> order_db" where
  "mark i t = snd (update_published i t)"

text \<open>
  No two rows have one id, and the sequence has passed them all. Transactions that run side by side may
  commit in another order than they drew their ids, so the rows need not stand in the order of the ids.
\<close>

definition outbox_ok :: "order_db \<Rightarrow> bool" where
  "outbox_ok t \<longleftrightarrow> distinct (map ob_id (outbox_events t)) \<and> (\<forall>r \<in> set (outbox_events t). ob_id r < next_id t)"

locale event_store =
  fixes fetch :: "nat \<Rightarrow> 'd \<Rightarrow> (go_error + event list) \<times> 'd"
    and markPublished :: "int \<Rightarrow> 'd \<Rightarrow> go_error option \<times> 'd"
    and edb :: "'d \<Rightarrow> order_db"
    and jsonb :: "json \<Rightarrow> string"
    and eup :: "'d \<Rightarrow> bool"
  assumes fetch_frame: "edb (snd (fetch k d)) = edb d"
    and fetch_ok: "fetch k d = (Inr evs, d') \<Longrightarrow>
      evs = map (scan_event jsonb) (take k (unpublished (edb d)))"
    and mark_ok: "markPublished i d = (None, d') \<Longrightarrow> edb d' = mark i (edb d)"
    and mark_failed: "markPublished i d = (Some e, d') \<Longrightarrow> edb d' = edb d \<or> edb d' = mark i (edb d)"
    and fetch_up: "eup d \<Longrightarrow> eup (snd (fetch k d)) \<and> (\<exists>evs. fst (fetch k d) = Inr evs)"
    and mark_up: "eup d \<Longrightarrow> eup (snd (markPublished i d)) \<and> fst (markPublished i d) = None"

section \<open>The stores keep the laws\<close>

lemma tx_begin_tables [simp]: "tables (snd (tx_begin db)) = tables db"
  by (auto simp: tx_begin_def Let_def split: prod.splits)

lemma tx_begin_Inr: "tx_begin db = (Inr tx, db') \<Longrightarrow> tx = tables db \<and> tables db' = tables db"
  by (auto simp: tx_begin_def Let_def split: prod.splits if_splits)

lemma tx_begin_Inl: "tx_begin db = (Inl e, db') \<Longrightarrow> tables db' = tables db"
  by (auto simp: tx_begin_def Let_def split: prod.splits if_splits)

lemma tx_exec_cases:
  assumes "tx_exec stmt tx db = ((r, tx'), db')"
  shows "tables db' = tables db" and "tx' = tx \<or> tx' = snd (stmt tx)" and "r = None \<Longrightarrow> stmt tx = (None, tx')"
  using assms by (auto simp: tx_exec_def Let_def split: prod.splits io.splits)

lemma tx_commit_cases:
  assumes "tx_commit tx db = (r, db')"
  shows "r = None \<Longrightarrow> tables db' = tx" and "tables db' = tables db \<or> tables db' = tx"
    and "no_lost_reply db \<Longrightarrow> r \<noteq> None \<Longrightarrow> tables db' = tables db"
  using assms
  by (cases "script db"; auto simp: tx_commit_def Let_def no_lost_reply_def split: prod.splits io.splits)+

lemma tx_no_lost_reply:
  "no_lost_reply db \<Longrightarrow> no_lost_reply (snd (tx_begin db))"
  "no_lost_reply db \<Longrightarrow> no_lost_reply (snd (tx_exec stmt tx db))"
  "no_lost_reply db \<Longrightarrow> no_lost_reply (snd (tx_commit tx db))"
  "no_lost_reply (tx_rollback keep tx db) = no_lost_reply db"
  by (cases "script db";
      auto simp: tx_begin_def tx_exec_def tx_commit_def tx_rollback_def Let_def no_lost_reply_def
        split: prod.splits io.splits)+

lemma nothing_new_keep: "next_id t \<le> next_id tx \<Longrightarrow> nothing_new t (keep_sequence tx t)"
  by (simp add: nothing_new_def keep_sequence_def)

lemma insert_order_next_id [simp]: "next_id (snd (insert_order ord t)) = next_id t"
  by (simp add: insert_order_def)

lemma insert_event_next_id: "next_id t \<le> next_id (snd (insert_event s p tp t))"
  by (simp add: insert_event_def split: option.splits)

lemma tx_exec_next_id:
  assumes "tx_exec stmt tx db = ((r, tx'), db')" and "\<And>t. next_id t \<le> next_id (snd (stmt t))"
  shows "next_id tx \<le> next_id tx'"
  using tx_exec_cases(2) [OF assms(1)] assms(2) [of tx] by auto

lemma insert_both:
  assumes "insert_order ord t = (None, t1)"
    and "insert_event (evt_Subject evt) (evt_Payload evt)
      (if evt_TraceParent evt \<noteq> [] then Some (evt_TraceParent evt) else None) t1 = (None, t2)"
  shows "created ord evt t t2"
  using assms by (auto simp: insert_order_def insert_event_def created_def split: if_splits option.splits)

text \<open>How \<open>CreateOrder\<close> ends.\<close>

lemma CreateOrder_cases:
  assumes "CreateOrder ord evt d = (r, d')"
  shows "r = None \<Longrightarrow> created ord evt (tables d) (tables d')"
    and "nothing_new (tables d) (tables d') \<or> created ord evt (tables d) (tables d')"
    and "no_lost_reply d \<Longrightarrow> r \<noteq> None \<Longrightarrow> nothing_new (tables d) (tables d')"
    and "no_lost_reply d \<Longrightarrow> no_lost_reply d'"
proof -
  let ?tp = "if evt_TraceParent evt \<noteq> [] then Some (evt_TraceParent evt) else None"
  let ?ins = "insert_event (evt_Subject evt) (evt_Payload evt) ?tp"
  have "(r = None \<longrightarrow> created ord evt (tables d) (tables d')) \<and>
    (nothing_new (tables d) (tables d') \<or> created ord evt (tables d) (tables d')) \<and>
    (no_lost_reply d \<longrightarrow> (r \<noteq> None \<longrightarrow> nothing_new (tables d) (tables d')) \<and> no_lost_reply d')"
    (is "?P r d'")
  proof (cases "tx_begin d")
    case (Pair b d1)
    show ?thesis
    proof (cases b)
      case (Inl e)
      with Pair assms tx_begin_Inl [of d e d1] tx_no_lost_reply(1) [of d] show ?thesis
        by (auto simp: CreateOrder_def nothing_new_def)
    next
      case (Inr tx)
      with Pair have b: "tx_begin d = (Inr tx, d1)" by simp
      note T = tx_begin_Inr [OF b]
      have L1: "no_lost_reply d \<Longrightarrow> no_lost_reply d1" using tx_no_lost_reply(1) [of d] b by simp
      obtain r1 tx1 d2 where x1: "tx_exec (insert_order ord) tx d1 = ((r1, tx1), d2)"
        by (metis prod.collapse)
      have L2: "no_lost_reply d \<Longrightarrow> no_lost_reply d2"
        using L1 tx_no_lost_reply(2) [of d1 "insert_order ord" tx] x1 by simp
      have n1: "next_id tx \<le> next_id tx1" by (rule tx_exec_next_id [OF x1]) simp
      show ?thesis
      proof (cases r1)
        case (Some e)
        with b x1 assms have "d' = tx_rollback keep_sequence tx1 d2" "r \<noteq> None"
          by (auto simp: CreateOrder_def)
        with T n1 L2 tx_exec_cases(1) [OF x1] show ?thesis
          by (auto simp: tx_rollback_def nothing_new_keep no_lost_reply_def)
      next
        case None
        obtain r2 tx2 d3 where x2: "tx_exec ?ins tx1 d2 = ((r2, tx2), d3)" by (metis prod.collapse)
        have L3: "no_lost_reply d \<Longrightarrow> no_lost_reply d3"
          using L2 tx_no_lost_reply(2) [of d2 ?ins tx1] x2 by simp
        have n2: "next_id tx1 \<le> next_id tx2" by (rule tx_exec_next_id [OF x2 insert_event_next_id])
        have t3: "tables d3 = tables d"
          using tx_exec_cases(1) [OF x1] tx_exec_cases(1) [OF x2] T by simp
        show ?thesis
        proof (cases r2)
          case (Some e)
          with b x1 x2 None assms have "d' = tx_rollback keep_sequence tx2 d3" "r \<noteq> None"
            by (auto simp: CreateOrder_def Let_def)
          with T t3 n1 n2 L3 show ?thesis
            by (auto simp: tx_rollback_def nothing_new_keep no_lost_reply_def)
        next
          case r2: None
          from tx_exec_cases(3) [OF x1 None] tx_exec_cases(3) [OF x2 r2] T
          have new: "created ord evt (tables d) tx2" by (auto intro: insert_both)
          obtain r3 d4 where c: "tx_commit tx2 d3 = (r3, d4)" by force
          note C = tx_commit_cases [OF c]
          have L4: "no_lost_reply d \<Longrightarrow> no_lost_reply d4"
            using L3 tx_no_lost_reply(3) [of d3 tx2] c by simp
          show ?thesis
          proof (cases r3)
            case r3: None
            with b x1 x2 c None r2 assms have "d' = d4" "r = None" by (auto simp: CreateOrder_def Let_def)
            with C(1) r3 new L4 show ?thesis by auto
          next
            case (Some e)
            with b x1 x2 c None r2 assms have d': "d' = tx_rollback keep_sequence tx2 d4" "r \<noteq> None"
              by (auto simp: CreateOrder_def Let_def)
            moreover have "keep_sequence tx2 tx2 = tx2" by (simp add: keep_sequence_def)
            ultimately show ?thesis
              using C(2,3) Some new L3 L4 t3 T n1 n2
              by (auto simp: tx_rollback_def nothing_new_keep no_lost_reply_def)
          qed
        qed
      qed
    qed
  qed
  then show "r = None \<Longrightarrow> created ord evt (tables d) (tables d')"
    "nothing_new (tables d) (tables d') \<or> created ord evt (tables d) (tables d')"
    "no_lost_reply d \<Longrightarrow> r \<noteq> None \<Longrightarrow> nothing_new (tables d) (tables d')"
    "no_lost_reply d \<Longrightarrow> no_lost_reply d'" by blast+
qed

lemma GetOrder_cases:
  assumes "GetOrder i d = (r, d')"
  shows "tables d' = tables d" and "r = Inr ord \<Longrightarrow> orders (tables d) i = Some ord"
    and "r = Inl e \<Longrightarrow> errors_Is e Order_ErrNotFound \<Longrightarrow> orders (tables d) i = None"
    and "no_lost_reply d \<Longrightarrow> no_lost_reply d'"
proof -
  obtain q d1 where q: "pg_query (select_order i) d = (q, d1)" by force
  with assms have d': "d' = d1" by (auto simp: GetOrder_def split: sum.splits)
  show "tables d' = tables d"
    using pg_query_tables [of "select_order i" d] q d' by (auto simp: select_order_def)
  show "r = Inr ord \<Longrightarrow> orders (tables d) i = Some ord"
    using assms q pg_query_Inr [of "select_order i" d ord d1]
    by (auto simp: GetOrder_def select_order_def split: sum.splits option.splits if_splits)
  show "r = Inl e \<Longrightarrow> errors_Is e Order_ErrNotFound \<Longrightarrow> orders (tables d) i = None"
    using assms q pg_query_Inl [of "select_order i" d _ d1]
    by (auto simp: GetOrder_def select_order_def split: sum.splits option.splits if_splits)
  show "no_lost_reply d \<Longrightarrow> no_lost_reply d'"
    using pg_query_no_lost_reply [of d "select_order i"] q d' by simp
qed

interpretation pgo: order_store CreateOrder GetOrder tables no_lost_reply
proof unfold_locales
  fix ord evt e i and d d' :: "order_db pg"
  show "CreateOrder ord evt d = (None, d') \<Longrightarrow> created ord evt (tables d) (tables d')"
    by (rule CreateOrder_cases(1)) auto
  show "CreateOrder ord evt d = (Some e, d') \<Longrightarrow>
      nothing_new (tables d) (tables d') \<or> created ord evt (tables d) (tables d')"
    by (rule CreateOrder_cases(2))
  show "no_lost_reply d \<Longrightarrow> CreateOrder ord evt d = (Some e, d') \<Longrightarrow> nothing_new (tables d) (tables d')"
    by (rule CreateOrder_cases(3)) auto
  show "no_lost_reply d \<Longrightarrow> no_lost_reply (snd (CreateOrder ord evt d))"
    using CreateOrder_cases(4) [of ord evt d] by (metis prod.collapse)
  show "tables (snd (GetOrder i d)) = tables d"
    using GetOrder_cases(1) [of i d] by (metis prod.collapse)
  show "GetOrder i d = (Inr ord, d') \<Longrightarrow> orders (tables d) i = Some ord"
    by (rule GetOrder_cases(2)) auto
  show "GetOrder i d = (Inl e, d') \<Longrightarrow> errors_Is e Order_ErrNotFound \<Longrightarrow> orders (tables d) i = None"
    by (rule GetOrder_cases(3)) auto
  show "no_lost_reply d \<Longrightarrow> no_lost_reply (snd (GetOrder i d))"
    using GetOrder_cases(4) [of i d] by (metis prod.collapse)
qed

lemma mark_outbox:
  "outbox_events (mark i t) = map (\<lambda>r. if ob_id r = i then r\<lparr>ob_published := True\<rparr> else r) (outbox_events t)"
  "orders (mark i t) = orders t" "next_id (mark i t) = next_id t"
  by (simp_all add: mark_def update_published_def)

lemma outbox_ok_ids:
  "outbox_ok t \<longleftrightarrow> (let is = map ob_id (outbox_events t) in distinct is \<and> (\<forall>i \<in> set is. i < next_id t))"
  by (simp add: outbox_ok_def)

lemma outbox_ok_mark [inv_intros]: "outbox_ok t \<Longrightarrow> outbox_ok (mark i t)"
proof -
  have "map ob_id (outbox_events (mark i t)) = map ob_id (outbox_events t)" by (auto simp: mark_outbox)
  then show "outbox_ok t \<Longrightarrow> outbox_ok (mark i t)" by (simp only: outbox_ok_ids mark_outbox(3))
qed

lemma outbox_ok_created [inv_intros]: "created ord evt t t' \<Longrightarrow> outbox_ok t \<Longrightarrow> outbox_ok t'"
  by (fastforce simp: created_def outbox_ok_def)

lemma outbox_ok_nothing_new [inv_intros]: "nothing_new t t' \<Longrightarrow> outbox_ok t \<Longrightarrow> outbox_ok t'"
  by (fastforce simp: nothing_new_def outbox_ok_def)

lemma FetchUnpublished_cases:
  assumes "FetchUnpublished jsonb k d = (r, d')"
  shows "tables d' = tables d"
    and "r = Inr evs \<Longrightarrow> evs = map (scan_event jsonb) (take k (unpublished (tables d)))"
proof -
  let ?rd = "\<lambda>rows t. (Inr (map (scan_event jsonb) rows), t)"
  obtain q d1 where q: "pg_query (select_unpublished k) d = (q, d1)" by force
  have t1: "tables d1 = tables d"
    using pg_query_tables [of "select_unpublished k" d] q by (auto simp: select_unpublished_def)
  have t2: "tables (snd (pg_query (?rd rows) d1)) = tables d" for rows
    using pg_query_tables [of "?rd rows" d1] t1 by auto
  show "tables d' = tables d"
    using assms q t1 t2 by (auto simp: FetchUnpublished_def split: sum.splits prod.splits) (metis snd_conv)+
  assume r: "r = Inr evs"
  then obtain rows where rows: "q = Inr rows" "pg_query (?rd rows) d1 = (Inr evs, d')"
    using assms q by (auto simp: FetchUnpublished_def split: sum.splits prod.splits)
  from pg_query_Inr [OF rows(2)] have "evs = map (scan_event jsonb) rows" by simp
  moreover have "rows = take k (unpublished (tables d))"
    using pg_query_Inr [OF q [unfolded rows(1)]] by (auto simp: select_unpublished_def unpublished_def)
  ultimately show "evs = map (scan_event jsonb) (take k (unpublished (tables d)))" by simp
qed

lemma MarkPublished_cases:
  assumes "MarkPublished i d = (r, d')"
  shows "r = None \<Longrightarrow> tables d' = mark i (tables d)"
    and "tables d' = tables d \<or> tables d' = mark i (tables d)"
  using assms pg_query_tables [of "update_published i" d]
  by (auto simp: MarkPublished_def mark_def split: prod.splits sum.splits dest!: pg_query_Inr)

interpretation pge: event_store "FetchUnpublished jsonb" MarkPublished tables jsonb "\<lambda>d. script d = []"
  for jsonb
proof unfold_locales
  fix k i evs e and d d' :: "order_db pg"
  show "tables (snd (FetchUnpublished jsonb k d)) = tables d"
    using FetchUnpublished_cases(1) [of jsonb k d] by (metis prod.collapse)
  show "FetchUnpublished jsonb k d = (Inr evs, d') \<Longrightarrow>
      evs = map (scan_event jsonb) (take k (unpublished (tables d)))"
    by (rule FetchUnpublished_cases(2)) auto
  show "MarkPublished i d = (None, d') \<Longrightarrow> tables d' = mark i (tables d)"
    by (rule MarkPublished_cases(1)) auto
  show "MarkPublished i d = (Some e, d') \<Longrightarrow> tables d' = tables d \<or> tables d' = mark i (tables d)"
    by (rule MarkPublished_cases(2))
  show "script d = [] \<Longrightarrow> script (snd (FetchUnpublished jsonb k d)) = [] \<and>
      (\<exists>evs. fst (FetchUnpublished jsonb k d) = Inr evs)"
    by (simp add: FetchUnpublished_def pg_query_calm select_unpublished_def)
  show "script d = [] \<Longrightarrow> script (snd (MarkPublished i d)) = [] \<and> fst (MarkPublished i d) = None"
    by (simp add: MarkPublished_def pg_query_calm update_published_def)
qed

end
