(* ===== verification/OrderEvents.thy ===== *)
theory OrderEvents
  imports GoJson GoTime "HOL-Library.AList" "HOL-Library.Multiset"
begin

text \<open>
  The wire contract of \<open>orders.created\<close> and order-service's publisher (\<open>internal/events\<close>): the JSON of
  \<open>OrderCreated\<close> and its decoding into the consumers' copy of the struct, the header carrier for trace
  contexts, and \<open>Publish\<close> with its deduplication id. JetStream and the tracing library are outside the
  repository: the broker is a round trip to a stream with a deduplication window, the propagator a
  parameter. Shown: the round trip of the event, whatever order its members come back in.
\<close>

section \<open>OrderCreated\<close>

record order_created =
  oc_OrderID :: string
  oc_SKU :: string
  oc_Quantity :: int
  oc_Status :: string
  oc_CreatedAt :: go_time

definition StreamName :: string where
  "StreamName = ''ORDERS''"

definition SubjectCreated :: string where
  "SubjectCreated = ''orders.created''"

text \<open>\<open>None\<close> when \<open>json.Marshal\<close> fails, which it does for a year it cannot write.\<close>

definition order_created_json :: "order_created \<Rightarrow> json option" where
  "order_created_json e =
     map_option (\<lambda>t. JObj
       [(''order_id'', JStr (oc_OrderID e)), (''sku'', JStr (oc_SKU e)), (''quantity'', JNum (Itoa (oc_Quantity e))),
        (''status'', JStr (oc_Status e)), (''created_at'', JStr t)])
     (time_text (oc_CreatedAt e))"

fun put_time :: "json \<Rightarrow> go_time \<Rightarrow> go_time option" where
  "put_time (JStr s) old = parse_time s"
| "put_time JNull old = Some old"
| "put_time _ old = None"

definition put_order_created :: "string \<Rightarrow> json \<Rightarrow> order_created \<Rightarrow> order_created option" where
  "put_order_created f v e =
     (if f = ''order_id'' then map_option (\<lambda>x. e\<lparr>oc_OrderID := x\<rparr>) (put_string v (oc_OrderID e))
      else if f = ''sku'' then map_option (\<lambda>x. e\<lparr>oc_SKU := x\<rparr>) (put_string v (oc_SKU e))
      else if f = ''quantity'' then map_option (\<lambda>x. e\<lparr>oc_Quantity := x\<rparr>) (put_int v (oc_Quantity e))
      else if f = ''status'' then map_option (\<lambda>x. e\<lparr>oc_Status := x\<rparr>) (put_string v (oc_Status e))
      else map_option (\<lambda>x. e\<lparr>oc_CreatedAt := x\<rparr>) (put_time v (oc_CreatedAt e)))"

text \<open>The zero \<open>time.Time\<close> is January 1 of year 1.\<close>

definition zero_time :: go_time where
  "zero_time = \<lparr>year = 1, month = 1, day = 1, hour = 0, minute = 0, second = 0, nanos = 0, zone = 0\<rparr>"

definition zero_order_created :: order_created where
  "zero_order_created = \<lparr>oc_OrderID = [], oc_SKU = [], oc_Quantity = 0, oc_Status = [], oc_CreatedAt = zero_time\<rparr>"

abbreviation order_created_fields :: "string list" where
  "order_created_fields \<equiv> [''order_id'', ''sku'', ''quantity'', ''status'', ''created_at'']"

definition unmarshal_order_created :: "string \<Rightarrow> go_error + order_created" where
  "unmarshal_order_created = json_Unmarshal order_created_fields put_order_created zero_order_created"

definition event_ok :: "order_created \<Rightarrow> bool" where
  "event_ok e \<longleftrightarrow> valid_utf8 (oc_OrderID e) \<and> valid_utf8 (oc_SKU e) \<and> in_int64 (oc_Quantity e) \<and>
     valid_utf8 (oc_Status e) \<and> valid_utc (oc_CreatedAt e)"

section \<open>Headers\<close>

text \<open>\<open>nats.Header\<close> is a map from keys to lists of values, here with its keys in some order.\<close>

type_synonym header = "(string \<times> string list) list"

definition carrier_Get :: "header \<Rightarrow> string \<Rightarrow> string" where
  "carrier_Get h key =
     (let values = (case map_of h key of None \<Rightarrow> [] | Some vs \<Rightarrow> vs)
      in if length values = 0 then [] else values ! 0)"

definition carrier_Set :: "string \<Rightarrow> string \<Rightarrow> header \<Rightarrow> header" where
  "carrier_Set key v h = AList.update key [v] h"

definition carrier_Keys :: "header \<Rightarrow> string list" where
  "carrier_Keys h = map fst h"

lemma carrier_Get_Set: "carrier_Get (carrier_Set k v h) j = (if j = k then v else carrier_Get h j)"
  by (simp add: carrier_Get_def carrier_Set_def update_conv')

lemma carrier_Keys_Set: "distinct (carrier_Keys h) \<Longrightarrow>
    distinct (carrier_Keys (carrier_Set k v h)) \<and> set (carrier_Keys (carrier_Set k v h)) = insert k (set (carrier_Keys h))"
  by (simp add: carrier_Keys_def carrier_Set_def distinct_update update_conv' flip: dom_map_of_conv_image_fst)

section \<open>The broker\<close>

record nats_msg =
  msg_Subject :: string
  msg_Data :: string
  msg_Header :: header

text \<open>
  The stream, the ids the server still remembers, and the outcomes of the publications to come; a
  \<open>True\<close> says that the deduplication window has run out before the call.
\<close>

record broker =
  stream :: "nats_msg list"
  recent :: "string list"
  weather :: "(io \<times> bool) list"

definition msg_id :: "nats_msg \<Rightarrow> string" where
  "msg_id m = carrier_Get (msg_Header m) ''Nats-Msg-Id''"

definition stream_store :: "nats_msg \<Rightarrow> broker \<Rightarrow> broker" where
  "stream_store m b =
     (if msg_id m \<in> set (recent b) then b
      else b\<lparr>stream := stream b @ [m], recent := msg_id m # recent b\<rparr>)"

abbreviation no_ack :: go_error where
  "no_ack \<equiv> Driver_Error ''nats: timeout''"

definition js_PublishMsg :: "nats_msg \<Rightarrow> broker \<Rightarrow> go_error option \<times> broker" where
  "js_PublishMsg m b =
     (case weather b of
        [] \<Rightarrow> (None, stream_store m b)
      | (x, expired) # rest \<Rightarrow>
          let b1 = b\<lparr>weather := rest, recent := (if expired then [] else recent b)\<rparr> in
          (case x of
             Works \<Rightarrow> (None, stream_store m b1)
           | Fails_before \<Rightarrow> (Some no_ack, b1)
           | Fails_after \<Rightarrow> (Some no_ack, stream_store m b1)))"

section \<open>Publish\<close>

text \<open>
  The tracing library over contexts of any type: what the propagator injects, in order, what it
  extracts, and the context of a new span.
\<close>

record 'c otel =
  ot_Inject :: "'c \<Rightarrow> (string \<times> string) list"
  ot_Extract :: "'c \<Rightarrow> (string \<Rightarrow> string) \<Rightarrow> 'c"
  ot_Start :: "'c \<Rightarrow> string \<Rightarrow> 'c"
  ot_TraceID :: "'c \<Rightarrow> string option"

definition Publish :: "'c otel \<Rightarrow> 'c \<Rightarrow> string \<Rightarrow> string \<Rightarrow> string \<Rightarrow> broker \<Rightarrow> go_error option \<times> broker" where
  "Publish otel ctx subject payload msgID b =
     (let ctx' = ot_Start otel ctx (''publish '' @ subject);
          h0 = carrier_Set ''Nats-Msg-Id'' msgID [];
          h = fold (\<lambda>(k, v). carrier_Set k v) (ot_Inject otel ctx') h0;
          msg = \<lparr>msg_Subject = subject, msg_Data = payload, msg_Header = h\<rparr>
      in case js_PublishMsg msg b of
           (Some err, b') \<Rightarrow> (Some (Wrapped ''publish event'' err), b')
         | (None, b') \<Rightarrow> (None, b'))"

text \<open>The W3C propagator writes two keys only.\<close>

definition w3c :: "'c otel \<Rightarrow> bool" where
  "w3c otel \<longleftrightarrow> (\<forall>c. fst ` set (ot_Inject otel c) \<subseteq> {''traceparent'', ''tracestate'', ''baggage''})"

text \<open>A tracing library whose contexts are traceparent headers.\<close>

definition plain_otel :: "string otel" where
  "plain_otel = \<lparr>ot_Inject = (\<lambda>c. [(''traceparent'', c)]), ot_Extract = (\<lambda>c get. get ''traceparent''),
     ot_Start = (\<lambda>c n. c), ot_TraceID = (\<lambda>c. None)\<rparr>"

lemma fold_Set_Get:
  "k \<notin> fst ` set xs \<Longrightarrow> carrier_Get (fold (\<lambda>(k, v). carrier_Set k v) xs h) k = carrier_Get h k"
proof (induction xs arbitrary: h)
  case (Cons x xs)
  then show ?case by (cases x) (auto simp: carrier_Get_Set)
qed simp

text \<open>The deduplication window does not run out.\<close>

definition window_holds :: "broker \<Rightarrow> bool" where
  "window_holds b \<longleftrightarrow> True \<notin> snd ` set (weather b)"

lemma js_PublishMsg_stream:
  assumes "js_PublishMsg m b = (r, b')"
  shows "stream b' = stream b \<or> stream b' = stream b @ [m]"
    and "set (recent b) \<subseteq> msg_id ` set (stream b) \<Longrightarrow> set (recent b') \<subseteq> msg_id ` set (stream b')"
    and "set (recent b) \<subseteq> msg_id ` set (stream b) \<Longrightarrow> r = None \<Longrightarrow> msg_id m \<in> msg_id ` set (stream b')"
    and "window_holds b \<Longrightarrow> set (recent b) = msg_id ` set (stream b) \<Longrightarrow>
      set (recent b') = msg_id ` set (stream b') \<and> window_holds b' \<and>
      (stream b' = stream b @ [m] \<longrightarrow> msg_id m \<notin> msg_id ` set (stream b))"
  using assms
  by (auto simp: js_PublishMsg_def stream_store_def window_holds_def Let_def split: list.splits prod.splits io.splits if_splits)

section \<open>Round trip of the event\<close>

text \<open>
  Postgres's documented behaviour for \<open>jsonb\<close>: the text it writes is a document with the same members,
  in an order of its own.
\<close>

definition jsonb_faithful :: "(json \<Rightarrow> string) \<Rightarrow> bool" where
  "jsonb_faithful jsonb \<longleftrightarrow>
     (\<forall>ms. plain (JObj ms) \<and> distinct (map fst ms) \<longrightarrow>
        (\<exists>ms'. mset ms' = mset ms \<and> parse_all (jsonb (JObj ms)) = Some (JObj ms')))"

lemma jsonb_faithful_render: "jsonb_faithful render"
  unfolding jsonb_faithful_def using parse_render by blast

lemma time_text_utf8: "valid_utc t \<Longrightarrow> time_text t = Some s \<Longrightarrow> valid_utf8 s"
proof -
  assume t: "valid_utc t" "time_text t = Some s"
  have d: "byte c < 128" if "is_digit c" for c using that by (simp add: is_digit_def)
  have p: "c \<in> set (pad_text k n) \<Longrightarrow> byte c < 128" for c k n
    using pad_text_ascii d by blast
  have "c \<in> set (frac_text n) \<Longrightarrow> byte c < 128" for c n
    by (auto simp: frac_text_def split: if_splits dest!: set_dropWhileD p)
  with t p have "ascii s"
    by (auto simp: time_text_def valid_utc_def ascii_def list_all_iff zone_text_def)
  then show ?thesis by simp
qed

text \<open>What one member stores, given the event it comes from.\<close>

definition set_field :: "order_created \<Rightarrow> string \<times> json \<Rightarrow> order_created \<Rightarrow> order_created" where
  "set_field e kv e0 =
     (if fst kv = ''order_id'' then e0\<lparr>oc_OrderID := oc_OrderID e\<rparr>
      else if fst kv = ''sku'' then e0\<lparr>oc_SKU := oc_SKU e\<rparr>
      else if fst kv = ''quantity'' then e0\<lparr>oc_Quantity := oc_Quantity e\<rparr>
      else if fst kv = ''status'' then e0\<lparr>oc_Status := oc_Status e\<rparr>
      else e0\<lparr>oc_CreatedAt := oc_CreatedAt e\<rparr>)"

lemma plain_order_created:
  assumes "event_ok e"
  obtains ms where "order_created_json e = Some (JObj ms)" and "plain (JObj ms)" and "distinct (map fst ms)"
    and "\<forall>(k, v) \<in> set ms. \<forall>e0. put_order_created k v e0 = Some (set_field e (k, v) e0)"
    and "map fst ms = order_created_fields"
proof -
  from assms have "valid_utc (oc_CreatedAt e)" by (simp add: event_ok_def)
  from parse_time_text [OF this] obtain t where t: "time_text (oc_CreatedAt e) = Some t" "parse_time t = Some (oc_CreatedAt e)"
    by metis
  have "valid_utf8 t" using time_text_utf8 [OF \<open>valid_utc (oc_CreatedAt e)\<close> t(1)] .
  with assms t show thesis
    by (intro that [of "[(''order_id'', JStr (oc_OrderID e)), (''sku'', JStr (oc_SKU e)),
        (''quantity'', JNum (Itoa (oc_Quantity e))), (''status'', JStr (oc_Status e)), (''created_at'', JStr t)]"])
      (auto simp: order_created_json_def event_ok_def put_order_created_def set_field_def ascii_def ParseInt64_Itoa)
qed

lemma set_field_commute: "set_field e a \<circ> set_field e b = set_field e b \<circ> set_field e a"
  by (rule ext) (simp add: set_field_def)

lemma store_members_set_field:
  assumes "\<forall>(k, v) \<in> set ms. k \<in> set order_created_fields \<and>
      (\<forall>e0. put_order_created k v e0 = Some (set_field e (k, v) e0))"
  shows "store_members order_created_fields put_order_created ms e0 = Inr (fold (set_field e) ms e0)"
  using assms
proof (induction ms arbitrary: e0)
  case (Cons kv ms)
  obtain k v where kv: "kv = (k, v)" by force
  with Cons.prems have "field_for order_created_fields k = Some k"
    "put_order_created k v e0 = Some (set_field e (k, v) e0)"
    by (auto simp: field_for_def)
  with Cons kv show ?case by simp
qed simp

lemma event_decodes:
  assumes "event_ok e" and "jsonb_faithful jsonb"
  shows "\<exists>j. order_created_json e = Some j \<and> parse_all (render j) = Some j \<and>
    unmarshal_order_created (jsonb j) = Inr e"
proof -
  obtain ms where
    ms: "order_created_json e = Some (JObj ms)" "plain (JObj ms)" "distinct (map fst ms)"
    and put: "\<forall>(k, v) \<in> set ms. \<forall>e0. put_order_created k v e0 = Some (set_field e (k, v) e0)"
    and keys: "map fst ms = order_created_fields"
    by (rule plain_order_created [OF assms(1)])
  from assms(2) ms(2,3) obtain ms' where
    ms': "mset ms' = mset ms" "parse_all (jsonb (JObj ms)) = Some (JObj ms')"
    unfolding jsonb_faithful_def by blast
  have "set ms' = set ms" using ms'(1) by (metis set_mset_mset)
  have "\<forall>(k, v) \<in> set ms'. k \<in> set order_created_fields \<and>
      (\<forall>e0. put_order_created k v e0 = Some (set_field e (k, v) e0))"
  proof (clarify, intro conjI)
    fix k v assume "(k, v) \<in> set ms'"
    with \<open>set ms' = set ms\<close> have m: "(k, v) \<in> set ms" by simp
    then have "k \<in> set (map fst ms)" by force
    with keys show "k \<in> set order_created_fields" by simp
    from m put show "\<forall>e0. put_order_created k v e0 = Some (set_field e (k, v) e0)" by blast
  qed
  from store_members_set_field [OF this, of zero_order_created] ms'(2)
  have "unmarshal_order_created (jsonb (JObj ms)) = Inr (fold (set_field e) ms' zero_order_created)"
    by (simp add: unmarshal_order_created_def json_Unmarshal_def)
  also have "fold (set_field e) ms' = fold (set_field e) ms"
    using ms'(1) by (intro fold_multiset_equiv) (simp_all add: set_field_commute)
  also have "fold (set_field e) ms zero_order_created = e"
  proof -
    obtain v1 v2 v3 v4 v5 where "ms = [(''order_id'', v1), (''sku'', v2), (''quantity'', v3), (''status'', v4), (''created_at'', v5)]"
      using keys by (auto simp: map_eq_Cons_conv)
    then show ?thesis by (simp add: set_field_def zero_order_created_def)
  qed
  finally show ?thesis using ms(1) parse_render [OF ms(2)] by simp
qed

end
