(* ===== verification/OutboxRelay.thy ===== *)
theory OutboxRelay
  imports OrderStore OrderEvents
begin

text \<open>
  order-service's outbox relay (\<open>outbox/relay.go\<close>). Its two Go interfaces are locales: \<open>event_store\<close>, of
  the theory of the store, and \<open>publisher\<close>; the locale \<open>relay\<close> joins them and holds the relay's lemmas.
  Shown: every event that is marked was delivered, nothing but events of the outbox is delivered, no
  event twice while the broker deduplicates, and once the services answer, the polls drain the outbox.
\<close>

section \<open>The publisher interface\<close>

locale publisher =
  fixes publish :: "'c \<Rightarrow> string \<Rightarrow> string \<Rightarrow> string \<Rightarrow> 'b \<Rightarrow> go_error option \<times> 'b"
    and sent :: "'b \<Rightarrow> (string \<times> string \<times> string) list"
    and sound :: "'b \<Rightarrow> bool"
    and dedup :: "'b \<Rightarrow> bool"
    and bup :: "'b \<Rightarrow> bool"
  assumes publish_sends: "sound b \<Longrightarrow> publish ctx s p i b = (r, b') \<Longrightarrow>
      sound b' \<and> (sent b' = sent b \<or> sent b' = sent b @ [(s, p, i)])"
    and publish_ok: "sound b \<Longrightarrow> publish ctx s p i b = (None, b') \<Longrightarrow> i \<in> (snd \<circ> snd) ` set (sent b')"
    and publish_dedup: "sound b \<Longrightarrow> dedup b \<Longrightarrow> publish ctx s p i b = (r, b') \<Longrightarrow>
      dedup b' \<and> (sent b' \<noteq> sent b \<longrightarrow> i \<notin> (snd \<circ> snd) ` set (sent b))"
    and publish_up: "bup b \<Longrightarrow> bup (snd (publish ctx s p i b)) \<and> fst (publish ctx s p i b) = None"

definition broker_sent :: "broker \<Rightarrow> (string \<times> string \<times> string) list" where
  "broker_sent b = map (\<lambda>m. (msg_Subject m, msg_Data m, msg_id m)) (stream b)"

lemma Publish_eq:
  "\<exists>m. (Publish otel ctx s p i b =
      (map_option (Wrapped ''publish event'') (fst (js_PublishMsg m b)), snd (js_PublishMsg m b))) \<and>
    msg_Subject m = s \<and> msg_Data m = p \<and> (w3c otel \<longrightarrow> msg_id m = i)"
proof -
  let ?ctx = "ot_Start otel ctx (''publish '' @ s)"
  let ?h = "fold (\<lambda>(k, v). carrier_Set k v) (ot_Inject otel ?ctx) (carrier_Set ''Nats-Msg-Id'' i [])"
  let ?m = "\<lparr>msg_Subject = s, msg_Data = p, msg_Header = ?h\<rparr>"
  have "msg_id ?m = i" if "w3c otel"
  proof -
    from that have "fst ` set (ot_Inject otel ?ctx) \<subseteq> {''traceparent'', ''tracestate'', ''baggage''}"
      by (simp add: w3c_def)
    then have "''Nats-Msg-Id'' \<notin> fst ` set (ot_Inject otel ?ctx)" by auto
    then show ?thesis by (simp add: msg_id_def fold_Set_Get carrier_Get_Set)
  qed
  moreover have "Publish otel ctx s p i b =
      (map_option (Wrapped ''publish event'') (fst (js_PublishMsg ?m b)), snd (js_PublishMsg ?m b))"
    by (auto simp: Publish_def Let_def split: prod.splits option.splits)
  ultimately show ?thesis by (intro exI [of _ ?m]) simp
qed

interpretation jsp: publisher "Publish otel" broker_sent
  "\<lambda>b. w3c otel \<and> set (recent b) \<subseteq> msg_id ` set (stream b)"
  "\<lambda>b. window_holds b \<and> set (recent b) = msg_id ` set (stream b)" "\<lambda>b. weather b = []"
  for otel :: "'c otel"
proof unfold_locales
  fix ctx :: 'c and s p i r and b b' :: broker
  obtain m where m: "Publish otel ctx s p i b =
      (map_option (Wrapped ''publish event'') (fst (js_PublishMsg m b)), snd (js_PublishMsg m b))"
    "msg_Subject m = s" "msg_Data m = p" "w3c otel \<Longrightarrow> msg_id m = i"
    using Publish_eq [of otel ctx s p i b] by auto
  note J = js_PublishMsg_stream [OF surjective_pairing [of "js_PublishMsg m b"]]
  have ids: "(snd \<circ> snd) ` set (broker_sent c) = msg_id ` set (stream c)" for c
    by (force simp: broker_sent_def)
  show "w3c otel \<and> set (recent b) \<subseteq> msg_id ` set (stream b) \<Longrightarrow> Publish otel ctx s p i b = (r, b') \<Longrightarrow>
      (w3c otel \<and> set (recent b') \<subseteq> msg_id ` set (stream b')) \<and>
      (broker_sent b' = broker_sent b \<or> broker_sent b' = broker_sent b @ [(s, p, i)])"
    using J(1,2) m by (auto simp: broker_sent_def)
  show "w3c otel \<and> set (recent b) \<subseteq> msg_id ` set (stream b) \<Longrightarrow> Publish otel ctx s p i b = (None, b') \<Longrightarrow>
      i \<in> (snd \<circ> snd) ` set (broker_sent b')"
    using J(3) m unfolding ids by auto
  show "w3c otel \<and> set (recent b) \<subseteq> msg_id ` set (stream b) \<Longrightarrow>
      window_holds b \<and> set (recent b) = msg_id ` set (stream b) \<Longrightarrow> Publish otel ctx s p i b = (r, b') \<Longrightarrow>
      (window_holds b' \<and> set (recent b') = msg_id ` set (stream b')) \<and>
      (broker_sent b' \<noteq> broker_sent b \<longrightarrow> i \<notin> (snd \<circ> snd) ` set (broker_sent b))"
    using J(1,4) m unfolding ids by (auto simp: broker_sent_def)
  show "weather b = [] \<Longrightarrow> weather (snd (Publish otel ctx s p i b)) = [] \<and> fst (Publish otel ctx s p i b) = None"
    using m by (simp add: js_PublishMsg_def stream_store_def)
qed

section \<open>The relay\<close>

definition batchSize :: nat where
  "batchSize = 20"

definition publishOne ::
  "'c otel \<Rightarrow> ('c \<Rightarrow> string \<Rightarrow> string \<Rightarrow> string \<Rightarrow> 'b \<Rightarrow> go_error option \<times> 'b) \<Rightarrow>
   'c \<Rightarrow> event \<Rightarrow> 'b \<Rightarrow> go_error option \<times> 'b" where
  "publishOne otel publish ctx evt b =
     (let ctx' = (if ev_TraceParent evt \<noteq> []
            then ot_Extract otel ctx (\<lambda>k. if k = ''traceparent'' then ev_TraceParent evt else [])
            else ctx);
          msgID = ''outbox-'' @ Itoa (ev_ID evt)
      in publish ctx' (ev_Subject evt) (ev_Payload evt) msgID b)"

text \<open>The loop of \<open>publishPending\<close> over a batch, on the database and the broker.\<close>

fun publish_batch ::
  "'c otel \<Rightarrow> (int \<Rightarrow> 'd \<Rightarrow> go_error option \<times> 'd) \<Rightarrow>
   ('c \<Rightarrow> string \<Rightarrow> string \<Rightarrow> string \<Rightarrow> 'b \<Rightarrow> go_error option \<times> 'b) \<Rightarrow>
   'c \<Rightarrow> event list \<Rightarrow> 'd \<Rightarrow> 'b \<Rightarrow> effect list \<times> 'd \<times> 'b" where
  "publish_batch otel markPublished publish ctx [] d b = ([], d, b)"
| "publish_batch otel markPublished publish ctx (evt # evts) d b =
     (case publishOne otel publish ctx evt b of
        (Some err, b') \<Rightarrow>
          let (effs, w) = publish_batch otel markPublished publish ctx evts d b'
          in (Log_Error ''failed to publish outbox event''
                [(''outbox_id'', Itoa (ev_ID evt)), (''subject'', ev_Subject evt), (''error'', err_text err)] # effs, w)
      | (None, b') \<Rightarrow>
          (case markPublished (ev_ID evt) d of
             (Some err, d') \<Rightarrow>
               let (effs, w) = publish_batch otel markPublished publish ctx evts d' b'
               in (Log_Error ''failed to mark outbox event published''
                     [(''outbox_id'', Itoa (ev_ID evt)), (''error'', err_text err)] # effs, w)
           | (None, d') \<Rightarrow> publish_batch otel markPublished publish ctx evts d' b'))"

definition publishPending ::
  "'c otel \<Rightarrow> (nat \<Rightarrow> 'd \<Rightarrow> (go_error + event list) \<times> 'd) \<Rightarrow> (int \<Rightarrow> 'd \<Rightarrow> go_error option \<times> 'd) \<Rightarrow>
   ('c \<Rightarrow> string \<Rightarrow> string \<Rightarrow> string \<Rightarrow> 'b \<Rightarrow> go_error option \<times> 'b) \<Rightarrow>
   'c \<Rightarrow> 'd \<Rightarrow> 'b \<Rightarrow> effect list \<times> 'd \<times> 'b" where
  "publishPending otel fetch markPublished publish ctx d b =
     (case fetch batchSize d of
        (Inl err, d') \<Rightarrow> ([Log_Error ''failed to fetch outbox events'' [(''error'', err_text err)]], d', b)
      | (Inr events, d') \<Rightarrow> publish_batch otel markPublished publish ctx events d' b)"

text \<open>\<open>Run\<close> polls, then selects: \<open>ticks\<close> times the ticker's channel, then the context's.\<close>

fun relay_Run ::
  "'c otel \<Rightarrow> (nat \<Rightarrow> 'd \<Rightarrow> (go_error + event list) \<times> 'd) \<Rightarrow> (int \<Rightarrow> 'd \<Rightarrow> go_error option \<times> 'd) \<Rightarrow>
   ('c \<Rightarrow> string \<Rightarrow> string \<Rightarrow> string \<Rightarrow> 'b \<Rightarrow> go_error option \<times> 'b) \<Rightarrow>
   'c \<Rightarrow> nat \<Rightarrow> 'd \<Rightarrow> 'b \<Rightarrow> effect list \<times> 'd \<times> 'b" where
  "relay_Run otel fetch markPublished publish ctx ticks d b =
     (let (effs, d', b') = publishPending otel fetch markPublished publish ctx d b in
      case ticks of
        0 \<Rightarrow> (effs, d', b')
      | Suc n \<Rightarrow>
          let (effs', w) = relay_Run otel fetch markPublished publish ctx n d' b' in (effs @ effs', w))"

declare relay_Run.simps [simp del]

lemmas [op_defs] = publishOne_def publishPending_def

section \<open>The relay's invariant\<close>

definition msg_of :: "(json \<Rightarrow> string) \<Rightarrow> outbox_row \<Rightarrow> string \<times> string \<times> string" where
  "msg_of jsonb r = (ob_subject r, jsonb (ob_payload r), ''outbox-'' @ Itoa (ob_id r))"

text \<open>
  What was marked was delivered, and what was delivered is in the outbox.
\<close>

definition relay_inv :: "(json \<Rightarrow> string) \<Rightarrow> order_db \<Rightarrow> (string \<times> string \<times> string) list \<Rightarrow> bool" where
  "relay_inv jsonb t ms \<longleftrightarrow> outbox_ok t \<and>
     (\<forall>r \<in> set (outbox_events t). ob_published r \<longrightarrow> msg_of jsonb r \<in> set ms) \<and>
     set ms \<subseteq> msg_of jsonb ` set (outbox_events t)"

text \<open>All of a database but the marks.\<close>

definition but_marks :: "order_db \<Rightarrow> order_db" where
  "but_marks t = t\<lparr>outbox_events := map (\<lambda>r. r\<lparr>ob_published := True\<rparr>) (outbox_events t)\<rparr>"

lemma msg_of_published [simp]: "msg_of jsonb (r\<lparr>ob_published := p\<rparr>) = msg_of jsonb r"
  by (simp add: msg_of_def)

lemma msg_of_id: "snd (snd (msg_of jsonb r)) = snd (snd (msg_of jsonb r')) \<longleftrightarrow> ob_id r = ob_id r'"
  by (auto simp: msg_of_def dest: Itoa_inj)

lemma outbox_ok_inj: "outbox_ok t \<Longrightarrow> r \<in> set (outbox_events t) \<Longrightarrow> r' \<in> set (outbox_events t) \<Longrightarrow> ob_id r = ob_id r' \<Longrightarrow> r = r'"
proof -
  assume "outbox_ok t"
  then have "distinct (map ob_id (outbox_events t))" by (simp add: outbox_ok_def)
  then show "r \<in> set (outbox_events t) \<Longrightarrow> r' \<in> set (outbox_events t) \<Longrightarrow> ob_id r = ob_id r' \<Longrightarrow> r = r'"
    by (auto simp: distinct_map dest: inj_onD)
qed

lemma but_marks_mark [simp]: "but_marks (mark i t) = but_marks t"
  by (simp add: but_marks_def mark_def update_published_def comp_def)

lemma msgs_but_marks: "msg_of jsonb ` set (outbox_events t) = msg_of jsonb ` set (outbox_events (but_marks t))"
  by (simp add: but_marks_def image_image)

lemma relay_inv_mark:
  assumes "relay_inv jsonb t ms" and "\<forall>r \<in> set (outbox_events t). ob_id r = i \<longrightarrow> msg_of jsonb r \<in> set ms"
  shows "relay_inv jsonb (mark i t) ms"
proof -
  have "msg_of jsonb ` set (outbox_events (mark i t)) = msg_of jsonb ` set (outbox_events t)"
    using msgs_but_marks by (metis but_marks_mark)
  moreover have "outbox_ok (mark i t)" using assms(1) by (simp add: relay_inv_def outbox_ok_mark)
  ultimately show ?thesis using assms by (auto simp: relay_inv_def mark_outbox)
qed

text \<open>An event that was fetched from the outbox.\<close>

definition fetched :: "(json \<Rightarrow> string) \<Rightarrow> order_db \<Rightarrow> event \<Rightarrow> bool" where
  "fetched jsonb t evt \<longleftrightarrow>
     (ev_Subject evt, ev_Payload evt, ''outbox-'' @ Itoa (ev_ID evt)) \<in> msg_of jsonb ` set (outbox_events t)"

lemma fetched_scan: "r \<in> set (outbox_events t) \<Longrightarrow> fetched jsonb t (scan_event jsonb r)"
  by (force simp: fetched_def scan_event_def msg_of_def)

lemma fetched_mark [simp]: "fetched jsonb (mark i t) evt = fetched jsonb t evt"
  unfolding fetched_def by (metis msgs_but_marks but_marks_mark)

text \<open>No id was delivered twice.\<close>

definition once :: "(string \<times> string \<times> string) list \<Rightarrow> bool" where
  "once ms \<longleftrightarrow> distinct (map (\<lambda>m. snd (snd m)) ms)"

locale relay = event_store fetch markPublished edb jsonb eup + publisher publish sent sound dedup bup
  for fetch :: "nat \<Rightarrow> 'd \<Rightarrow> (go_error + event list) \<times> 'd" and markPublished and edb and jsonb and eup
    and publish :: "'c \<Rightarrow> string \<Rightarrow> string \<Rightarrow> string \<Rightarrow> 'b \<Rightarrow> go_error option \<times> 'b" and sent and sound and dedup and bup +
  fixes otel :: "'c otel"
begin

lemma publishOne_inv:
  assumes "publishOne otel publish ctx evt b = (res, b')" and "sound b"
    and "relay_inv jsonb t (sent b)" and "fetched jsonb t evt"
  shows "sound b'" and "relay_inv jsonb t (sent b')"
    and "res = None \<Longrightarrow> \<forall>r \<in> set (outbox_events t). ob_id r = ev_ID evt \<longrightarrow> msg_of jsonb r \<in> set (sent b')"
    and "dedup b \<Longrightarrow> once (sent b) \<Longrightarrow> dedup b' \<and> once (sent b')"
    and "\<exists>new. sent b' = sent b @ new"
proof -
  let ?id = "''outbox-'' @ Itoa (ev_ID evt)"
  obtain ctx' where p: "publish ctx' (ev_Subject evt) (ev_Payload evt) ?id b = (res, b')"
    using assms(1) by (simp add: publishOne_def Let_def)
  note S = publish_sends [OF assms(2) p]
  from assms(4) obtain r where r: "r \<in> set (outbox_events t)" "ob_id r = ev_ID evt"
    "msg_of jsonb r = (ev_Subject evt, ev_Payload evt, ?id)" using Itoa_inj by (auto simp: fetched_def msg_of_def)
  show "sound b'" "\<exists>new. sent b' = sent b @ new" using S by auto
  from S have sub: "set (sent b) \<subseteq> set (sent b')"
    "set (sent b') \<subseteq> insert (ev_Subject evt, ev_Payload evt, ?id) (set (sent b))" by auto
  have "(ev_Subject evt, ev_Payload evt, ?id) \<in> msg_of jsonb ` set (outbox_events t)"
    using assms(4) by (simp only: fetched_def)
  with sub assms(3) show inv: "relay_inv jsonb t (sent b')" unfolding relay_inv_def by blast
  show "\<forall>r \<in> set (outbox_events t). ob_id r = ev_ID evt \<longrightarrow> msg_of jsonb r \<in> set (sent b')" if "res = None"
  proof -
    from publish_ok [OF assms(2) p [unfolded that]] obtain m where m: "m \<in> set (sent b')" "snd (snd m) = ?id"
      by auto
    with inv obtain r1 where r1: "r1 \<in> set (outbox_events t)" "m = msg_of jsonb r1" by (auto simp: relay_inv_def)
    with m(2) r(3) have "snd (snd (msg_of jsonb r1)) = snd (snd (msg_of jsonb r))" by simp
    then have "ob_id r1 = ob_id r" by (simp only: msg_of_id)
    moreover have "outbox_ok t" using assms(3) by (simp add: relay_inv_def)
    ultimately have "r2 = r1" if "r2 \<in> set (outbox_events t)" "ob_id r2 = ev_ID evt" for r2
      using outbox_ok_inj [OF _ that(1) r1(1)] that(2) r(2) by simp
    with m(1) r1(2) show ?thesis by blast
  qed
  show "dedup b \<Longrightarrow> once (sent b) \<Longrightarrow> dedup b' \<and> once (sent b')"
    using S publish_dedup [OF assms(2) _ p] by (cases "sent b' = sent b") (auto simp: once_def comp_def)
qed

text \<open>One batch.\<close>

lemma publish_batch_inv:
  assumes "publish_batch otel markPublished publish ctx evts d b = (effs, d', b')" and "sound b"
    and "relay_inv jsonb (edb d) (sent b)" and "\<forall>evt \<in> set evts. fetched jsonb (edb d) evt"
  shows "sound b' \<and> relay_inv jsonb (edb d') (sent b') \<and> but_marks (edb d') = but_marks (edb d) \<and>
    (\<exists>new. sent b' = sent b @ new) \<and>
    (dedup b \<longrightarrow> once (sent b) \<longrightarrow> dedup b' \<and> once (sent b'))"
  using assms
proof (induction evts arbitrary: d b effs)
  case (Cons evt evts)
  obtain res b1 where p: "publishOne otel publish ctx evt b = (res, b1)" by force
  have f: "fetched jsonb (edb d) evt" using Cons.prems(4) by simp
  note P = publishOne_inv [OF p Cons.prems(2,3) f]
  show ?case
  proof (cases res)
    case (Some err)
    then obtain effs1 where "publish_batch otel markPublished publish ctx evts d b1 = (effs1, d', b')"
      using p Cons.prems(1) by (auto simp: Let_def split: prod.splits)
    from Cons.IH [OF this P(1,2)] Cons.prems(4) P(4,5) show ?thesis by auto
  next
    case None
    obtain mr d1 where m: "markPublished (ev_ID evt) d = (mr, d1)" by force
    then have d1: "edb d1 = edb d \<or> edb d1 = mark (ev_ID evt) (edb d)"
      using mark_ok mark_failed by (cases mr) auto
    from None p m Cons.prems(1) obtain effs1 where
      rest: "publish_batch otel markPublished publish ctx evts d1 b1 = (effs1, d', b')"
      by (cases mr) (auto simp: Let_def split: prod.splits)
    have "relay_inv jsonb (edb d1) (sent b1)" using d1 P(2) relay_inv_mark [OF P(2) P(3) [OF None]] by auto
    moreover have "\<forall>evt \<in> set evts. fetched jsonb (edb d1) evt" using d1 Cons.prems(4) by auto
    moreover have "but_marks (edb d1) = but_marks (edb d)" using d1 by auto
    ultimately show ?thesis using Cons.IH [OF rest P(1)] P(4,5) by auto
  qed
qed auto

lemma publishPending_inv:
  assumes "publishPending otel fetch markPublished publish ctx d b = (effs, d', b')" and "sound b"
    and "relay_inv jsonb (edb d) (sent b)"
  shows "sound b' \<and> relay_inv jsonb (edb d') (sent b') \<and> but_marks (edb d') = but_marks (edb d) \<and>
    (\<exists>new. sent b' = sent b @ new) \<and>
    (dedup b \<longrightarrow> once (sent b) \<longrightarrow> dedup b' \<and> once (sent b'))"
proof -
  obtain res d1 where f: "fetch batchSize d = (res, d1)" by force
  have d1: "edb d1 = edb d" using fetch_frame [of batchSize d] f by simp
  show ?thesis
  proof (cases res)
    case (Inl err)
    with f assms d1 show ?thesis by (auto simp: publishPending_def)
  next
    case (Inr evs)
    from f Inr have evs: "evs = map (scan_event jsonb) (take batchSize (unpublished (edb d)))"
      using fetch_ok by auto
    then have "\<forall>evt \<in> set evs. fetched jsonb (edb d1) evt"
      using d1 by (auto simp: unpublished_def intro!: fetched_scan dest: in_set_takeD)
    with publish_batch_inv [of ctx evs d1 b effs d' b'] assms f Inr d1 show ?thesis
      by (simp add: publishPending_def)
  qed
qed

lemma relay_Run_inv:
  assumes "relay_Run otel fetch markPublished publish ctx ticks d b = (effs, d', b')" and "sound b"
    and "relay_inv jsonb (edb d) (sent b)"
  shows "sound b' \<and> relay_inv jsonb (edb d') (sent b') \<and> but_marks (edb d') = but_marks (edb d) \<and>
    (\<exists>new. sent b' = sent b @ new) \<and>
    (dedup b \<longrightarrow> once (sent b) \<longrightarrow> dedup b' \<and> once (sent b'))"
  using assms
proof (induction ticks arbitrary: d b effs)
  case 0
  then show ?case using publishPending_inv [of ctx d b effs d' b'] by (simp add: relay_Run.simps Let_def)
next
  case (Suc n)
  obtain e1 d1 b1 where p: "publishPending otel fetch markPublished publish ctx d b = (e1, d1, b1)"
    by (rule prod_cases3)
  then obtain e2 where r: "relay_Run otel fetch markPublished publish ctx n d1 b1 = (e2, d', b')"
    using Suc.prems(1) by (auto simp: relay_Run.simps [of _ _ _ _ _ "Suc n"] Let_def split: prod.splits)
  note P = publishPending_inv [OF p Suc.prems(2,3)]
  with Suc.IH [OF r] show ?case by auto
qed

end

section \<open>Progress\<close>

lemma unpublished_mark: "unpublished (mark i t) = filter (\<lambda>r. ob_id r \<noteq> i) (unpublished t)"
proof -
  have eq: "filter (\<lambda>r. \<not> ob_published r) (map (\<lambda>r. if ob_id r = i then r\<lparr>ob_published := True\<rparr> else r) xs) =
      filter (\<lambda>r. ob_id r \<noteq> i) (filter (\<lambda>r. \<not> ob_published r) xs)" for xs
    by (induction xs) auto
  show ?thesis unfolding unpublished_def mark_outbox filter_sort eq ..
qed

lemma unpublished_fold_mark: "unpublished (fold mark is t) = filter (\<lambda>r. ob_id r \<notin> set is) (unpublished t)"
  by (induction "is" arbitrary: t) (auto simp: unpublished_mark intro: filter_cong)

lemma drop_by_keys:
  "distinct (map f xs) \<Longrightarrow> filter (\<lambda>x. f x \<notin> f ` set (take k xs)) xs = drop k xs"
proof (induction xs arbitrary: k)
  case (Cons x xs)
  show ?case
  proof (cases k)
    case 0
    then show ?thesis by simp
  next
    case (Suc n)
    have "filter (\<lambda>y. f y \<notin> f ` set (take k (x # xs))) xs = filter (\<lambda>y. f y \<notin> f ` set (take n xs)) xs"
      using Cons.prems Suc by (intro filter_cong) (auto simp: image_iff)
    with Cons Suc show ?thesis by simp
  qed
qed simp

lemma outbox_ok_unpublished: "outbox_ok t \<Longrightarrow> distinct (map ob_id (unpublished t))"
  by (auto simp: outbox_ok_def unpublished_def distinct_map intro: inj_on_subset)

context relay begin

lemma publish_batch_up:
  assumes "publish_batch otel markPublished publish ctx (map (scan_event jsonb) rows) d b = (effs, d', b')"
    and "eup d" and "bup b"
  shows "effs = [] \<and> eup d' \<and> bup b' \<and> edb d' = fold mark (map ob_id rows) (edb d)"
  using assms
proof (induction rows arbitrary: d b)
  case (Cons r rows)
  obtain res b1 where p: "publishOne otel publish ctx (scan_event jsonb r) b = (res, b1)" by force
  then have b1: "res = None" "bup b1"
    using publish_up [OF Cons.prems(3)] by (auto simp: publishOne_def Let_def) (metis fst_conv snd_conv)+
  obtain mr d1 where m: "markPublished (ob_id r) d = (mr, d1)" by force
  with mark_up [OF Cons.prems(2), of "ob_id r"] have d1: "mr = None" "eup d1" by auto
  then have "edb d1 = mark (ob_id r) (edb d)" using mark_ok m by blast
  with Cons.IH [of d1 b1] Cons.prems(1) p m b1 d1 show ?case by (simp add: scan_event_def)
qed simp

text \<open>A poll that meets no failure takes the twenty oldest events off the outbox.\<close>

lemma publishPending_up:
  assumes "publishPending otel fetch markPublished publish ctx d b = (effs, d', b')"
    and "eup d" and "bup b" and "outbox_ok (edb d)"
  shows "effs = [] \<and> eup d' \<and> bup b' \<and> outbox_ok (edb d') \<and> unpublished (edb d') = drop batchSize (unpublished (edb d))"
proof -
  let ?rows = "take batchSize (unpublished (edb d))"
  from fetch_up [OF assms(2), of batchSize] obtain evs d1 where
    f: "fetch batchSize d = (Inr evs, d1)" "eup d1" by (metis prod.collapse)
  have "edb d1 = edb d" using fetch_frame [of batchSize d] f by simp
  moreover have "evs = map (scan_event jsonb) ?rows" using fetch_ok f(1) by simp
  ultimately have B: "effs = []" "eup d'" "bup b'" "edb d' = fold mark (map ob_id ?rows) (edb d)"
    using publish_batch_up [of ctx ?rows d1 b effs d' b'] assms(1,3) f by (auto simp: publishPending_def)
  have "outbox_ok (fold mark is t)" if "outbox_ok t" for "is" t
    using that by (induction "is" arbitrary: t) (auto intro: outbox_ok_mark)
  with B assms(4) drop_by_keys [OF outbox_ok_unpublished [OF assms(4)], of batchSize] show ?thesis
    by (simp add: unpublished_fold_mark)
qed

lemma relay_Run_up:
  assumes "relay_Run otel fetch markPublished publish ctx ticks d b = (effs, d', b')"
    and "eup d" and "bup b" and "outbox_ok (edb d)"
  shows "effs = [] \<and> unpublished (edb d') = drop (batchSize * Suc ticks) (unpublished (edb d))"
  using assms
proof (induction ticks arbitrary: d b effs)
  case 0
  then show ?case using publishPending_up [of ctx d b effs d' b'] by (simp add: relay_Run.simps Let_def)
next
  case (Suc n)
  obtain e1 d1 b1 where p: "publishPending otel fetch markPublished publish ctx d b = (e1, d1, b1)"
    by (rule prod_cases3)
  then obtain e2 where r: "relay_Run otel fetch markPublished publish ctx n d1 b1 = (e2, d', b')"
    and e: "effs = e1 @ e2"
    using Suc.prems(1) by (auto simp: relay_Run.simps [of _ _ _ _ _ "Suc n"] Let_def split: prod.splits)
  note P = publishPending_up [OF p Suc.prems(2-4)]
  with Suc.IH [OF r] e show ?case by (simp add: add.commute)
qed

end

section \<open>The relay of the service\<close>

interpretation orelay: relay "FetchUnpublished jsonb" MarkPublished tables jsonb "\<lambda>d. script d = []"
  "Publish otel" broker_sent "\<lambda>b. w3c otel \<and> set (recent b) \<subseteq> msg_id ` set (stream b)"
  "\<lambda>b. window_holds b \<and> set (recent b) = msg_id ` set (stream b)" "\<lambda>b. weather b = []" otel
  for jsonb and otel :: "'c otel"
  by unfold_locales

abbreviation service_relay ::
  "(json \<Rightarrow> string) \<Rightarrow> 'c otel \<Rightarrow> 'c \<Rightarrow> nat \<Rightarrow> order_db pg \<Rightarrow> broker \<Rightarrow> effect list \<times> order_db pg \<times> broker" where
  "service_relay jsonb otel \<equiv> relay_Run otel (FetchUnpublished jsonb) MarkPublished (Publish otel)"

section \<open>Properties\<close>

definition sample_outbox :: "io list \<Rightarrow> order_db pg" where
  "sample_outbox sc =
     \<lparr>tables = \<lparr>orders = Map.empty,
        outbox_events = [\<lparr>ob_id = 3, ob_subject = ''s'', ob_payload = JNull, ob_trace_parent = None, ob_published = False\<rparr>,
                         \<lparr>ob_id = 7, ob_subject = ''s'', ob_payload = JBool True, ob_trace_parent = None, ob_published = False\<rparr>],
        next_id = 8\<rparr>,
      script = sc\<rparr>"

definition sample_broker :: "(io \<times> bool) list \<Rightarrow> broker" where
  "sample_broker ws = \<lparr>stream = [], recent = [], weather = ws\<rparr>"

lemma sample_relay_ok:
  "w3c plain_otel" "relay_inv jsonb (tables (sample_outbox sc)) (broker_sent (sample_broker ws))"
  "set (recent (sample_broker ws)) = msg_id ` set (stream (sample_broker ws))"
  by (auto simp: w3c_def plain_otel_def relay_inv_def outbox_ok_def sample_outbox_def sample_broker_def
      broker_sent_def)

text \<open>
  C14. At least once, and nothing else: however many polls the relay runs and whatever fails in the
  database and the broker, every outbox row marked as published is in the stream under its own
  subject, payload and id; everything in the stream is the event of an outbox row; what was in the
  stream stays; and the relay changes nothing of the database but the marks.
\<close>

theorem relay_at_least_once:
  assumes "service_relay jsonb otel ctx ticks d b = (effs, d', b')" and "w3c otel"
    and "set (recent b) \<subseteq> msg_id ` set (stream b)" and "relay_inv jsonb (tables d) (broker_sent b)"
  shows "relay_inv jsonb (tables d') (broker_sent b') \<and> but_marks (tables d') = but_marks (tables d) \<and>
    (\<exists>new. broker_sent b' = broker_sent b @ new)"
  using orelay.relay_Run_inv [OF assms(1)] assms(2-4) by blast

theorem relay_at_least_once_witness:
  "let (effs, d', b') = service_relay render plain_otel [] 1 (sample_outbox [Works, Works, Fails_before]) (sample_broker [(Fails_after, False)])
   in relay_inv render (tables d') (broker_sent b') \<and> map ob_published (outbox_events (tables d')) = [True, True] \<and>
      length (broker_sent b') = 2"
proof -
  obtain effs d' b' where r: "service_relay render plain_otel [] 1 (sample_outbox [Works, Works, Fails_before]) (sample_broker [(Fails_after, False)]) = (effs, d', b')"
    by (rule prod_cases3)
  have "map ob_published (outbox_events (tables d')) = [True, True] \<and> length (broker_sent b') = 2"
    using r
    by (auto simp: relay_Run.simps op_defs sample_outbox_def sample_broker_def pg_query_def select_unpublished_def
        update_published_def batchSize_def scan_event_def Publish_def plain_otel_def js_PublishMsg_def
        stream_store_def msg_id_def carrier_Get_Set broker_sent_def Let_def Itoa_def nat_text.simps digit_char_def)
  with relay_at_least_once [OF r sample_relay_ok(1) _ sample_relay_ok(2)] sample_relay_ok(3) r show ?thesis by simp
qed

text \<open>
  Exactly once, as long as the broker's deduplication window holds: the id the relay derives from
  the row's id is one per event, so however often a publication is repeated, because its
  acknowledgement or the mark was lost, no event is in the stream twice.
\<close>

theorem relay_exactly_once:
  assumes "service_relay jsonb otel ctx ticks d b = (effs, d', b')" and "w3c otel"
    and "window_holds b" and "set (recent b) = msg_id ` set (stream b)"
    and "relay_inv jsonb (tables d) (broker_sent b)" and "once (broker_sent b)"
  shows "once (broker_sent b') \<and> window_holds b' \<and> set (recent b') = msg_id ` set (stream b')"
  using orelay.relay_Run_inv [OF assms(1)] assms(2-6) by blast

lemmas run_relay = relay_Run.simps op_defs sample_outbox_def sample_broker_def pg_query_def select_unpublished_def
  update_published_def batchSize_def scan_event_def Publish_def plain_otel_def js_PublishMsg_def
  stream_store_def msg_id_def carrier_Get_Set broker_sent_def Let_def Itoa_def nat_text.simps digit_char_def

theorem relay_exactly_once_witness:
  "let (effs, d', b') = service_relay render plain_otel [] 1 (sample_outbox [])
         (sample_broker [(Fails_after, False), (Fails_after, False)])
   in once (broker_sent b') \<and> length (broker_sent b') = 2 \<and> length effs = 2"
proof -
  let ?b = "sample_broker [(Fails_after, False), (Fails_after, False)]"
  obtain effs d' b' where r: "service_relay render plain_otel [] 1 (sample_outbox []) ?b = (effs, d', b')"
    by (rule prod_cases3)
  have w: "window_holds ?b" "once (broker_sent ?b)"
    by (simp_all add: window_holds_def sample_broker_def once_def broker_sent_def)
  have "length (broker_sent b') = 2 \<and> length effs = 2"
    using r by (auto simp: run_relay)
  with relay_exactly_once [OF r sample_relay_ok(1) w(1) sample_relay_ok(3,2) w(2)] r show ?thesis by simp
qed

text \<open>
  Outside the window the retries are not safe: an event whose acknowledgement was lost is in the stream a
  second time when the broker has forgotten its id before the next poll.
\<close>

theorem published_twice_outside_window:
  "let (effs, d', b') = service_relay render plain_otel [] 1 (sample_outbox [])
         (sample_broker [(Fails_after, False), (Works, False), (Works, True)])
   in \<not> once (broker_sent b') \<and> length (broker_sent b') = 3 \<and> unpublished (tables d') = []"
  by (simp add: run_relay once_def unpublished_Nil)

text \<open>
  Progress: once the database and the broker answer, each poll takes the twenty oldest events off
  the outbox, so \<open>n\<close> polls deliver every one of up to \<open>20 n\<close> waiting events, and log nothing.
\<close>

theorem relay_drains:
  assumes "service_relay jsonb otel ctx ticks d b = (effs, d', b')" and "w3c otel"
    and "script d = []" and "weather b = []" and "set (recent b) \<subseteq> msg_id ` set (stream b)"
    and "relay_inv jsonb (tables d) (broker_sent b)"
    and "length (unpublished (tables d)) \<le> 20 * Suc ticks"
  shows "effs = [] \<and> unpublished (tables d') = [] \<and>
    set (broker_sent b') = msg_of jsonb ` set (outbox_events (tables d))"
proof -
  have "outbox_ok (tables d)" using assms(6) by (simp add: relay_inv_def)
  from orelay.relay_Run_up [OF assms(1,3,4) this] assms(7)
  have u: "effs = []" "unpublished (tables d') = []" by (simp_all add: batchSize_def)
  from orelay.relay_Run_inv [OF assms(1)] assms(2,5,6)
  have inv: "relay_inv jsonb (tables d') (broker_sent b')" "but_marks (tables d') = but_marks (tables d)" by blast+
  from u(2) have "\<forall>r \<in> set (outbox_events (tables d')). ob_published r"
    by (simp add: unpublished_Nil)
  with inv(1) have "set (broker_sent b') = msg_of jsonb ` set (outbox_events (tables d'))"
    by (auto simp: relay_inv_def)
  also have "\<dots> = msg_of jsonb ` set (outbox_events (tables d))"
    using inv(2) msgs_but_marks by metis
  finally show ?thesis using u by simp
qed

theorem relay_drains_witness:
  "let (effs, d', b') = service_relay render plain_otel [] 0 (sample_outbox []) (sample_broker [])
   in effs = [] \<and> unpublished (tables d') = [] \<and>
      set (broker_sent b') = msg_of render ` set (outbox_events (tables (sample_outbox [])))"
proof -
  obtain effs d' b' where r: "service_relay render plain_otel [] 0 (sample_outbox []) (sample_broker []) = (effs, d', b')"
    by (rule prod_cases3)
  have "script (sample_outbox []) = []" "weather (sample_broker []) = []"
    "length (unpublished (tables (sample_outbox []))) \<le> 20 * Suc 0"
    "set (recent (sample_broker [])) \<subseteq> msg_id ` set (stream (sample_broker []))"
    by (simp_all add: sample_outbox_def sample_broker_def unpublished_def)
  with relay_drains [OF r sample_relay_ok(1) _ _ _ sample_relay_ok(2)] r show ?thesis by simp
qed

end
