(* ===== verification/OrderHandler.thy ===== *)
theory OrderHandler
  imports InventoryClient OutboxRelay
begin

text \<open>
  order-service's REST handler (\<open>order/handler.go\<close>) and its server. A request runs in the world of the
  two services it calls: the inventory behind \<open>InventoryReserver\<close> and the database behind \<open>Store\<close>. The
  locale \<open>order_service\<close> joins the two interfaces; it is interpreted on the gRPC client over the cached
  Postgres store, and on order-service's own Postgres store.
\<close>

section \<open>Requests\<close>

record createOrderRequest =
  cr_SKU :: string
  cr_Quantity :: int

definition put_create :: "string \<Rightarrow> json \<Rightarrow> createOrderRequest \<Rightarrow> createOrderRequest option" where
  "put_create f v r =
     (if f = ''sku'' then map_option (\<lambda>x. r\<lparr>cr_SKU := x\<rparr>) (put_string v (cr_SKU r))
      else map_option (\<lambda>x. r\<lparr>cr_Quantity := x\<rparr>) (put_int v (cr_Quantity r)))"

definition decode_create :: "string \<Rightarrow> go_error + createOrderRequest" where
  "decode_create = json_Decode [''sku'', ''quantity''] put_create \<lparr>cr_SKU = [], cr_Quantity = 0\<rparr>"

lemma decode_create_valid:
  assumes "decode_create body = Inr req"
  shows "valid_utf8 (cr_SKU req) \<and> in_int64 (cr_Quantity req)"
  using assms unfolding decode_create_def
  by (rule json_Decode_inv)
    (auto simp: put_create_def in_int64_def valid_utf8_def utf8_chunks.simps [of "[]"]
      dest: put_string_valid put_int_range split: if_splits)

lemma decode_create_render:
  assumes "valid_utf8 sku" and "in_int64 q"
  shows "decode_create (render (JObj [(''sku'', JStr sku), (''quantity'', JNum (Itoa q))])) =
    Inr \<lparr>cr_SKU = sku, cr_Quantity = q\<rparr>"
  using parse_first_render [of "JObj [(''sku'', JStr sku), (''quantity'', JNum (Itoa q))]" "[]"] assms
  by (simp add: decode_create_def json_Decode_def put_create_def ascii_def ParseInt64_Itoa del: render.simps)

text \<open>
  What \<open>createOrder\<close> works on is well typed whatever the client sent: the SKU is valid UTF-8 (bad
  bytes and lone surrogates became U+FFFD), the quantity is a 64-bit integer, and the request is the
  same when it is sent again in its canonical form.
\<close>

theorem decoded_order_well_typed:
  "decode_create body = Inr req \<Longrightarrow>
     valid_utf8 (cr_SKU req) \<and> in_int64 (cr_Quantity req) \<and>
     decode_create (render (JObj [(''sku'', JStr (cr_SKU req)), (''quantity'', JNum (Itoa (cr_Quantity req)))])) = Inr req"
  using decode_create_valid [of body req] by (simp add: decode_create_render del: render.simps)

text \<open>The JSON of an order; \<open>None\<close> for a time that does not marshal.\<close>

definition order_json :: "order \<Rightarrow> json option" where
  "order_json ord =
     map_option (\<lambda>t. JObj
       [(''id'', JStr (o_ID ord)), (''sku'', JStr (o_SKU ord)), (''quantity'', JNum (Itoa (o_Quantity ord))),
        (''status'', JStr (o_Status ord)), (''created_at'', JStr t)])
     (time_text (o_CreatedAt ord))"

section \<open>Handlers\<close>

text \<open>What one request draws from its environment: a UUID, the time, the retries' jitter, its context.\<close>

record 'c order_env =
  oe_uuid :: string
  oe_now :: go_time
  oe_retry :: retry_env
  oe_ctx :: 'c

definition traceParent :: "'c otel \<Rightarrow> 'c \<Rightarrow> string" where
  "traceParent otel ctx =
     (let carrier = fold (\<lambda>(k, v) m. m(k \<mapsto> v)) (ot_Inject otel ctx) Map.empty
      in case carrier ''traceparent'' of None \<Rightarrow> [] | Some v \<Rightarrow> v)"

definition event_of :: "order \<Rightarrow> order_created" where
  "event_of ord =
     \<lparr>oc_OrderID = o_ID ord, oc_SKU = o_SKU ord, oc_Quantity = o_Quantity ord, oc_Status = o_Status ord,
      oc_CreatedAt = o_CreatedAt ord\<rparr>"

definition reservation_failed :: "string \<Rightarrow> effect" where
  "reservation_failed reason = Counter_Inc ''stock_reservation_failures_total'' [reason]"

text \<open>The first branch is a panic out of \<open>Reserve\<close>: the server drops the connection.\<close>

definition createOrder ::
  "(retry_env \<Rightarrow> string \<Rightarrow> int \<Rightarrow> 'i \<Rightarrow> (go_error + client_item) option \<times> effect list \<times> 'i) \<Rightarrow>
   (order \<Rightarrow> OutboxEvent \<Rightarrow> 'd \<Rightarrow> go_error option \<times> 'd) \<Rightarrow>
   'c otel \<Rightarrow> 'c order_env \<Rightarrow> ('i \<times> 'd) endpoint" where
  "createOrder reserve storeOrder otel env r w =
     (case decode_create (req_Body r) of
        Inl e \<Rightarrow> (WriteError 400 ''invalid request body'', [], w)
      | Inr req \<Rightarrow>
          if cr_SKU req = [] \<or> cr_Quantity req \<le> 0
          then (WriteError 400 ''sku is required and quantity must be positive'', [], w)
          else
            (let (iv, db) = w;
                 (reserved, effs, iv') = reserve (oe_retry env) (cr_SKU req) (cr_Quantity req) iv
             in case reserved of
                  None \<Rightarrow> ([], effs, (iv', db))
                | Some (Inl err) \<Rightarrow>
                    if errors_Is err Client_ErrNotFound then
                      (WriteError 404 ''item not found'', effs @ [reservation_failed ''not_found''], (iv', db))
                    else if errors_Is err Client_ErrInsufficientStock then
                      (WriteError 409 ''insufficient stock'', effs @ [reservation_failed ''insufficient_stock''], (iv', db))
                    else
                      (WriteError 502 ''inventory-service unavailable'',
                       effs @ [reservation_failed ''unavailable''] @
                         log_failure ''reserve stock failed'' ''sku'' (cr_SKU req) err, (iv', db))
                | Some (Inr it) \<Rightarrow>
                    (let ord = \<lparr>o_ID = oe_uuid env, o_SKU = cr_SKU req, o_Quantity = cr_Quantity req,
                                o_Status = StatusConfirmed, o_CreatedAt = oe_now env\<rparr>
                     in case order_created_json (event_of ord) of
                          None \<Rightarrow>
                            (WriteError 500 ''internal error'',
                             effs @ log_failure ''encode order created event failed'' ''sku'' (cr_SKU req)
                               (Json_Error ''year outside of range [0,9999]''), (iv', db))
                        | Some evtPayload \<Rightarrow>
                            (let outboxEvt = \<lparr>evt_Subject = SubjectCreated, evt_Payload = render evtPayload,
                                              evt_TraceParent = traceParent otel (oe_ctx env)\<rparr>
                             in case storeOrder ord outboxEvt db of
                                  (Some err, db') \<Rightarrow>
                                    (WriteError 500 ''internal error'',
                                     effs @ log_failure ''create order failed'' ''sku'' (cr_SKU req) err, (iv', db'))
                                | (None, db') \<Rightarrow>
                                    (WriteJSON 201 (order_json ord),
                                     effs @ [Counter_Inc ''orders_created_total'' []], (iv', db'))))))"

definition order_getOrder :: "(string \<Rightarrow> 'd \<Rightarrow> (go_error + order) \<times> 'd) \<Rightarrow> ('i \<times> 'd) endpoint" where
  "order_getOrder getOrder r w =
     (let i = PathValue r ''id''; (iv, db) = w; (res, db') = getOrder i db in
      case res of
        Inl e \<Rightarrow>
          if errors_Is e Order_ErrNotFound then (WriteError 404 ''order not found'', [], (iv, db'))
          else (WriteError 500 ''internal error'', log_failure ''get order failed'' ''id'' i e, (iv, db'))
      | Inr ord \<Rightarrow> (WriteJSON 200 (order_json ord), [], (iv, db')))"

text \<open>\<open>Register\<close>, and the server of \<open>main.go\<close>.\<close>

definition order_Register ::
  "(retry_env \<Rightarrow> string \<Rightarrow> int \<Rightarrow> 'i \<Rightarrow> (go_error + client_item) option \<times> effect list \<times> 'i) \<Rightarrow>
   (order \<Rightarrow> OutboxEvent \<Rightarrow> 'd \<Rightarrow> go_error option \<times> 'd) \<Rightarrow> (string \<Rightarrow> 'd \<Rightarrow> (go_error + order) \<times> 'd) \<Rightarrow>
   'c otel \<Rightarrow> 'c order_env \<Rightarrow> ('i \<times> 'd) route list" where
  "order_Register reserve storeOrder getOrder otel env =
     [\<lparr>rt_Text = ''POST /orders'', rt_Method = Some ''POST'', rt_Segs = [Lit ''orders''],
       rt_Handler = createOrder reserve storeOrder otel env\<rparr>,
      \<lparr>rt_Text = ''GET /orders/{id}'', rt_Method = Some ''GET'', rt_Segs = [Lit ''orders'', Wild ''id''],
       rt_Handler = order_getOrder getOrder\<rparr>]"

definition order_http ::
  "(retry_env \<Rightarrow> string \<Rightarrow> int \<Rightarrow> 'i \<Rightarrow> (go_error + client_item) option \<times> effect list \<times> 'i) \<Rightarrow>
   (order \<Rightarrow> OutboxEvent \<Rightarrow> 'd \<Rightarrow> go_error option \<times> 'd) \<Rightarrow> (string \<Rightarrow> 'd \<Rightarrow> (go_error + order) \<times> 'd) \<Rightarrow>
   'c otel \<Rightarrow> ('i \<times> 'd \<Rightarrow> go_error option \<times> 'i \<times> 'd) \<Rightarrow> ('i \<times> 'd) endpoint \<Rightarrow>
   'c order_env \<Rightarrow> req_env \<Rightarrow> ('i \<times> 'd) server" where
  "order_http reserve storeOrder getOrder otel ping scrape oenv env =
     handler_chain env (order_Register reserve storeOrder getOrder otel oenv @ service_routes ping scrape)"

lemmas [op_defs] = createOrder_def order_getOrder_def

section \<open>What a request does\<close>

locale order_service =
  inventory_reserver reserve istock safe + order_store storeOrder getOrder db certain
  for reserve :: "retry_env \<Rightarrow> string \<Rightarrow> int \<Rightarrow> 'i \<Rightarrow> (go_error + client_item) option \<times> effect list \<times> 'i"
    and istock and safe and storeOrder :: "order \<Rightarrow> OutboxEvent \<Rightarrow> 'd \<Rightarrow> go_error option \<times> 'd"
    and getOrder and db and certain

text \<open>The order a request asks for, in its environment.\<close>

definition order_of :: "createOrderRequest \<Rightarrow> 'c order_env \<Rightarrow> order" where
  "order_of req env =
     \<lparr>o_ID = oe_uuid env, o_SKU = cr_SKU req, o_Quantity = cr_Quantity req, o_Status = StatusConfirmed,
      o_CreatedAt = oe_now env\<rparr>"

definition outbox_of :: "'c otel \<Rightarrow> 'c order_env \<Rightarrow> json \<Rightarrow> OutboxEvent" where
  "outbox_of otel env j =
     \<lparr>evt_Subject = SubjectCreated, evt_Payload = render j, evt_TraceParent = traceParent otel (oe_ctx env)\<rparr>"

lemma event_of_ok:
  assumes "decode_create body = Inr req" and "valid_utf8 (oe_uuid env)" and "valid_utc (oe_now env)"
  shows "event_ok (event_of (order_of req env))"
  using decode_create_valid [OF assms(1)] assms(2,3)
  by (simp add: event_ok_def event_of_def order_of_def StatusConfirmed_def ascii_def)

context order_service begin

text \<open>The ways a request to create an order ends.\<close>

lemma createOrder_cases:
  assumes "OrderHandler.createOrder reserve storeOrder otel env r (iv, d) = (calls, effs, iv', d')"
    and "fair_env (oe_retry env)" and "safe iv"
  obtains (bad) "sent_status calls = 400" "iv' = iv" "d' = d" "effs = []"
      "\<forall>req. decode_create (req_Body r) = Inr req \<longrightarrow> cr_SKU req = [] \<or> cr_Quantity req \<le> 0"
  | (refused) "sent_status calls \<in> {404, 409}" "istock iv' = istock iv" "d' = d" "safe iv'"
  | (failed) req where "decode_create (req_Body r) = Inr req" "sent_status calls = 502" "d' = d" "safe iv'"
      "istock iv' = istock iv \<or>
        0 < to_int32 (cr_Quantity req) \<and> (\<exists>i. moved (cr_SKU req) (- to_int32 (cr_Quantity req)) (istock iv) (istock iv') i)"
  | (lost) req i where "decode_create (req_Body r) = Inr req" "sent_status calls = 500" "safe iv'"
      "0 < to_int32 (cr_Quantity req)"
      "moved (cr_SKU req) (- to_int32 (cr_Quantity req)) (istock iv) (istock iv') i"
      "d' = d \<or> (\<exists>j e. order_created_json (event_of (order_of req env)) = Some j \<and>
        storeOrder (order_of req env) (outbox_of otel env j) d = (Some e, d'))"
  | (created) req i j where "decode_create (req_Body r) = Inr req" "sent_status calls = 201" "safe iv'"
      "0 < to_int32 (cr_Quantity req)"
      "moved (cr_SKU req) (- to_int32 (cr_Quantity req)) (istock iv) (istock iv') i"
      "order_created_json (event_of (order_of req env)) = Some j"
      "storeOrder (order_of req env) (outbox_of otel env j) d = (None, d')"
      "calls = WriteJSON 201 (order_json (order_of req env))"
proof (cases "\<exists>req. decode_create (req_Body r) = Inr req \<and> \<not> (cr_SKU req = [] \<or> cr_Quantity req \<le> 0)")
  case False
  with assms(1) show thesis
    by (intro bad) (auto simp: createOrder_def split: sum.splits if_splits)
next
  case True
  then obtain req where req: "decode_create (req_Body r) = Inr req" "cr_SKU req \<noteq> []" "\<not> cr_Quantity req \<le> 0"
    by blast
  obtain rv e1 iv1 where R: "reserve (oe_retry env) (cr_SKU req) (cr_Quantity req) iv = (rv, e1, iv1)"
    by (rule prod_cases3)
  have safe1: "safe iv1" using reserve_safe [OF assms(2,3)] R by (metis snd_conv)
  have "rv \<noteq> None" using reserve_returns [OF assms(2)] R by (metis fst_conv)
  then consider err where "rv = Some (Inl err)" | it where "rv = Some (Inr it)"
    by (metis option.exhaust sum.exhaust)
  then show thesis
  proof cases
    case 1
    note R1 = R [unfolded 1]
    have w: "iv' = iv1" "d' = d"
      using assms(1) req R1 by (auto simp: createOrder_def Let_def split: if_splits)
    show thesis
    proof (cases "errors_Is err Client_ErrNotFound \<or> errors_Is err Client_ErrInsufficientStock")
      case True
      with assms(1) req R1 w reserve_not_done [OF assms(2,3) R1 True] safe1 show thesis
        by (intro refused) (auto simp: createOrder_def Let_def split: if_splits)
    next
      case False
      with assms(1) req R1 w reserve_maybe [OF assms(2,3) R1] safe1 show thesis
        by (intro failed [of req]) (auto simp: createOrder_def Let_def)
    qed
  next
    case 2
    note R1 = R [unfolded 2]
    from reserve_done [OF assms(2,3) R1] obtain i where
      q: "0 < to_int32 (cr_Quantity req)" "moved (cr_SKU req) (- to_int32 (cr_Quantity req)) (istock iv) (istock iv1) i"
      by blast
    have body: "(calls, effs, iv', d') =
      (case order_created_json (event_of (order_of req env)) of
         None \<Rightarrow> (WriteError 500 ''internal error'',
           e1 @ log_failure ''encode order created event failed'' ''sku'' (cr_SKU req)
             (Json_Error ''year outside of range [0,9999]''), (iv1, d))
       | Some j \<Rightarrow>
           (case storeOrder (order_of req env) (outbox_of otel env j) d of
              (Some err, db') \<Rightarrow> (WriteError 500 ''internal error'',
                e1 @ log_failure ''create order failed'' ''sku'' (cr_SKU req) err, (iv1, db'))
            | (None, db') \<Rightarrow> (WriteJSON 201 (order_json (order_of req env)),
                e1 @ [Counter_Inc ''orders_created_total'' []], (iv1, db'))))"
      using assms(1) req R1
      by (auto simp: createOrder_def Let_def order_of_def outbox_of_def split: option.splits prod.splits)
    show thesis
    proof (cases "order_created_json (event_of (order_of req env))")
      case None
      with body req q safe1 show thesis by (intro lost [of req i]) auto
    next
      case (Some j)
      obtain sr d1 where s: "storeOrder (order_of req env) (outbox_of otel env j) d = (sr, d1)" by force
      show thesis
      proof (cases sr)
        case None
        with Some s body req q safe1 show thesis by (intro created [of req i j]) auto
      next
        case sr: (Some e)
        with Some s body req q safe1 show thesis by (intro lost [of req i]) auto
      qed
    qed
  qed
qed

end

text \<open>The service as \<open>main.go\<close> wires it.\<close>

interpretation osvc: order_service "Client_Reserve (inventory_grpc (caching_ReserveStock redis pg_ReserveStock))"
  "\<lambda>n. tables (cs_next (peer n))" unavailable_never_ran CreateOrder GetOrder tables no_lost_reply
  for redis
  by unfold_locales

section \<open>Routing\<close>

lemma order_mux_post:
  assumes "req_Method r = ''POST''" and "req_Path r = ''/orders''"
  shows "ServeMux (order_Register reserve storeOrder getOrder otel env @ service_routes ping scrape) r w =
    (let r' = r\<lparr>req_Pattern := ''POST /orders'', req_PathValues := []\<rparr>;
         (calls, effs, w') = createOrder reserve storeOrder otel env r' w in (r', calls, effs, w'))"
proof -
  have "path_segs (req_Path r) = [''orders'']" using assms(2) path_segs_last [of "''orders''"] by simp
  then show ?thesis
    using assms(1) by (simp add: ServeMux_def find_route_def route_matches_def order_Register_def
        service_routes_def Let_def)
qed

lemma order_mux_get:
  assumes "req_Method r = ''GET''" and "req_Path r = ''/orders/'' @ i" and "i \<noteq> []" and "CHR ''/'' \<notin> set i"
  shows "ServeMux (order_Register reserve storeOrder getOrder otel env @ service_routes ping scrape) r w =
    (let r' = r\<lparr>req_Pattern := ''GET /orders/{id}'', req_PathValues := [(''id'', i)]\<rparr>;
         (calls, effs, w') = order_getOrder getOrder r' w in (r', calls, effs, w'))"
proof -
  have "path_segs (req_Path r) = [''orders'', i]"
    using assms path_segs_more [of "''orders''" i] by simp
  moreover have "i \<noteq> ''/''" using assms(4) by auto
  ultimately show ?thesis
    using assms(1,3) by (simp add: ServeMux_def find_route_def route_matches_def order_Register_def
        service_routes_def Let_def)
qed

lemma order_http_post:
  assumes "req_Method r = ''POST''" and "req_Path r = ''/orders''"
    and "order_http reserve storeOrder getOrder otel ping scrape oenv env r w = (r', calls, effs, w')"
  shows "\<exists>e1. createOrder reserve storeOrder otel oenv r' w = (calls, e1, w') \<and> req_Body r' = req_Body r \<and>
    req_Method r' = ''POST'' \<and> path_label r' = ''POST /orders''"
proof -
  define r1 where "r1 = r\<lparr>req_Pattern := ''POST /orders'', req_PathValues := []\<rparr>"
  obtain c1 e1 w1 where h: "createOrder reserve storeOrder otel oenv r1 w = (c1, e1, w1)" by (rule prod_cases3)
  have m: "ServeMux (order_Register reserve storeOrder getOrder otel oenv @ service_routes ping scrape) r w = (r1, c1, e1, w1)"
    using order_mux_post [OF assms(1,2), of reserve storeOrder getOrder otel oenv ping scrape w] h
    by (simp add: r1_def)
  from handler_chain_calls [OF m, of env] assms(3) have "r' = r1" "calls = c1" "w' = w1"
    by (auto simp: order_http_def)
  with h assms(1) show ?thesis by (simp add: r1_def path_label_def)
qed

lemma order_http_get:
  assumes "req_Method r = ''GET''" and "req_Path r = ''/orders/'' @ i" and "i \<noteq> []" and "CHR ''/'' \<notin> set i"
    and "order_http reserve storeOrder getOrder otel ping scrape oenv env r w = (r', calls, effs, w')"
  shows "\<exists>e1. order_getOrder getOrder r' w = (calls, e1, w') \<and> PathValue r' ''id'' = i"
proof -
  define r1 where "r1 = r\<lparr>req_Pattern := ''GET /orders/{id}'', req_PathValues := [(''id'', i)]\<rparr>"
  obtain c1 e1 w1 where h: "order_getOrder getOrder r1 w = (c1, e1, w1)" by (rule prod_cases3)
  have m: "ServeMux (order_Register reserve storeOrder getOrder otel oenv @ service_routes ping scrape) r w = (r1, c1, e1, w1)"
    using order_mux_get [OF assms(1-4), of reserve storeOrder getOrder otel oenv ping scrape w] h
    by (simp add: r1_def)
  from handler_chain_calls [OF m, of env] assms(5) have "r' = r1" "calls = c1" "w' = w1"
    by (auto simp: order_http_def)
  with h show ?thesis by (simp add: r1_def PathValue_def)
qed

section \<open>Properties\<close>

text \<open>The world of the service: the connection to inventory-service and the order database.\<close>

type_synonym 'r order_world = "(stock pg, 'r) caching remote \<times> order_db pg"

abbreviation order_service_http ::
  "'r redis_client \<Rightarrow> 'c otel \<Rightarrow> ('r order_world \<Rightarrow> go_error option \<times> 'r order_world) \<Rightarrow> 'r order_world endpoint \<Rightarrow>
   'c order_env \<Rightarrow> req_env \<Rightarrow> 'r order_world server" where
  "order_service_http redis \<equiv>
     order_http (Client_Reserve (inventory_service_grpc redis)) CreateOrder GetOrder"

abbreviation world_stock :: "'r order_world \<Rightarrow> stock" where
  "world_stock w \<equiv> tables (cs_next (peer (fst w)))"

abbreviation world_db :: "'r order_world \<Rightarrow> order_db" where
  "world_db w \<equiv> tables (snd w)"

text \<open>
  C10. Every answer of \<open>POST /orders\<close>, through the client, the retries, the gRPC server, the cache and
  both databases, where no lost call counts as \<open>Unavailable\<close>. 201: the row of the SKU fell by exactly
  the order's quantity, and the order and its one event were committed together. 400, 404, 409:
  neither database changed. 502: no order, and the units may have been taken, at most once. 500: the
  units were taken; the order is not there, unless its commit succeeded and only the reply was lost.
\<close>

theorem create_order_endpoint:
  assumes "req_Method r = ''POST''" and "req_Path r = ''/orders''"
    and "fair_env (oe_retry oenv)" and "unavailable_never_ran (fst w)"
    and "order_service_http redis otel ping scrape oenv env r w = (r', calls, effs, w')"
  shows
    "(sent_status calls = 201 \<and>
        (\<exists>req j. decode_create (req_Body r) = Inr req \<and> order_created_json (event_of (order_of req oenv)) = Some j \<and>
          (\<exists>i. moved (cr_SKU req) (- cr_Quantity req) (world_stock w) (world_stock w') i) \<and>
          created (order_of req oenv) (outbox_of otel oenv j) (world_db w) (world_db w') \<and>
          calls = WriteJSON 201 (order_json (order_of req oenv))))
     \<or> sent_status calls = 400 \<and> w' = w
     \<or> sent_status calls \<in> {404, 409} \<and> world_stock w' = world_stock w \<and> world_db w' = world_db w
     \<or> sent_status calls = 502 \<and> world_db w' = world_db w \<and>
        (\<exists>req. decode_create (req_Body r) = Inr req \<and> (world_stock w' = world_stock w \<or>
          (\<exists>i. moved (cr_SKU req) (- to_int32 (cr_Quantity req)) (world_stock w) (world_stock w') i)))
     \<or> sent_status calls = 500 \<and>
        (\<exists>req. decode_create (req_Body r) = Inr req \<and>
          (\<exists>i. moved (cr_SKU req) (- to_int32 (cr_Quantity req)) (world_stock w) (world_stock w') i) \<and>
          (nothing_new (world_db w) (world_db w') \<or>
           (\<exists>j. created (order_of req oenv) (outbox_of otel oenv j) (world_db w) (world_db w'))))"
proof -
  obtain iv d iv' d' where w: "w = (iv, d)" "w' = (iv', d')" by (metis prod.collapse)
  from order_http_post [OF assms(1,2,5)] obtain e1 where
    h: "createOrder (Client_Reserve (inventory_service_grpc redis)) CreateOrder otel oenv r' (iv, d) = (calls, e1, iv', d')"
    and b: "req_Body r' = req_Body r" using w by auto
  have iv: "unavailable_never_ran iv" using assms(4) w by simp
  from h assms(3) iv show ?thesis
  proof (cases rule: osvc.createOrder_cases)
    case bad
    with w show ?thesis by simp
  next
    case refused
    with w show ?thesis by auto
  next
    case (failed req)
    with w b show ?thesis by auto
  next
    case (lost req i)
    have "nothing_new (tables d) (tables d') \<or>
        (\<exists>j. created (order_of req oenv) (outbox_of otel oenv j) (tables d) (tables d'))"
      using lost(6) by (blast intro: nothing_new_refl dest: pgo.create_failed)
    with lost(1,2,5) w b show ?thesis by auto
  next
    case (created req i j)
    from pgo.create_ok [OF created(7)] have
      c: "OrderStore.created (order_of req oenv) (outbox_of otel oenv j) (tables d) (tables d')" .
    then have "in_int32 (cr_Quantity req)" by (auto simp: OrderStore.created_def order_of_def)
    with created(5) have "moved (cr_SKU req) (- cr_Quantity req) (world_stock (iv, d)) (world_stock (iv', d')) i"
      by simp
    with c created(1,2,6,8) show ?thesis
      unfolding w fst_conv snd_conv b
      by (intro disjI1 conjI exI [of _ req] exI [of _ j] exI [of _ i]) simp_all
  qed
qed

text \<open>A sample request, its environment and its world.\<close>

definition sample_order_env :: "string order_env" where
  "sample_order_env =
     \<lparr>oe_uuid = ''u1'',
      oe_now = \<lparr>year = 2025, month = 2, day = 28, hour = 23, minute = 59, second = 1, nanos = 123456789, zone = 0\<rparr>,
      oe_retry = calm_env, oe_ctx = ''t1''\<rparr>"

definition sample_order_request :: request where
  "sample_order_request =
     \<lparr>req_Method = ''POST'', req_Path = ''/orders'', req_Pattern = [], req_PathValues = [],
      req_Body = render (JObj [(''sku'', JStr ''A''), (''quantity'', JNum (Itoa 4))])\<rparr>"

definition sample_world :: "io list \<Rightarrow> (string \<rightharpoonup> string) order_world" where
  "sample_world sc =
     (\<lparr>peer = sample [], net = []\<rparr>, \<lparr>tables = \<lparr>orders = Map.empty, outbox_events = [], next_id = 1\<rparr>, script = sc\<rparr>)"

abbreviation sample_http ::
  "(string \<rightharpoonup> string) order_world \<Rightarrow> request \<times> rw_call list \<times> effect list \<times> (string \<rightharpoonup> string) order_world" where
  "sample_http \<equiv> order_service_http map_redis plain_otel (\<lambda>w. (None, w)) (\<lambda>r w. ([], [], w))
     sample_order_env \<lparr>env_ms = 5, env_trace = None\<rparr> sample_order_request"

lemma sample_reserve:
  obtains effs n' where "Client_Reserve (inventory_service_grpc map_redis) calm_env ''A'' 4 \<lparr>peer = sample [], net = []\<rparr> =
      (Some (Inr \<lparr>ci_SKU = ''A'', ci_Name = ''a'', ci_Quantity = 6\<rparr>), effs, n')"
    and "tables (cs_next (peer n')) = [''A'' \<mapsto> (''a'', 6)]"
proof -
  let ?n = "\<lparr>peer = sample [], net = []\<rparr>"
  let ?fn = "reserve_call (inventory_service_grpc map_redis) ''A'' 4"
  have q: "to_int32 4 = 4" "in_int32 4" "in_int32 6" "to_int32 6 = 6" by (simp_all add: in_int32_def)
  obtain s2 where 2: "?fn (?n, None, []) = (None, s2)"
    and s2: "tables (cs_next (peer (fst s2))) = [''A'' \<mapsto> (''a'', 6)]"
      "fst (snd s2) = Some \<lparr>rs_Sku = ''A'', rs_Name = ''a'', rs_Quantity = 6\<rparr>"
    by (simp add: run_reserve q)
  have "Client_Reserve (inventory_service_grpc map_redis) calm_env ''A'' 4 ?n =
      (Some (Inr \<lparr>ci_SKU = ''A'', ci_Name = ''a'', ci_Quantity = 6\<rparr>), snd (snd s2), fst s2)"
    using s2 Do_first [of ?fn "(?n, None, [])" s2 "Some reserve_OnRetry" isRetryableStatus, OF 2]
    by (cases s2) (simp add: Client_Reserve_def rs_GetSku_def rs_GetName_def rs_GetQuantity_def)
  then show thesis using s2(1) by (rule that)
qed

lemma sample_decode: "decode_create (req_Body sample_order_request) = Inr \<lparr>cr_SKU = ''A'', cr_Quantity = 4\<rparr>"
  by (simp add: sample_order_request_def decode_create_render ascii_def in_int64_def del: render.simps)

lemma sample_env_ok: "valid_utf8 (oe_uuid sample_order_env)" "valid_utc (oe_now sample_order_env)"
  by (simp_all add: sample_order_env_def ascii_def valid_utc_def valid_fields_def days_in_def)

lemma sample_event_ok: "event_ok (event_of (order_of \<lparr>cr_SKU = ''A'', cr_Quantity = 4\<rparr> sample_order_env))"
  by (rule event_of_ok [OF sample_decode sample_env_ok])

abbreviation sample_order :: order where
  "sample_order \<equiv> order_of \<lparr>cr_SKU = ''A'', cr_Quantity = 4\<rparr> sample_order_env"

lemma sample_createOrder:
  assumes "req_Body r = req_Body sample_order_request"
  obtains effs n' j where
    "createOrder (Client_Reserve (inventory_service_grpc map_redis)) CreateOrder plain_otel sample_order_env r (sample_world sc) =
      (let (res, d') = CreateOrder sample_order (outbox_of plain_otel sample_order_env j) (snd (sample_world sc))
       in case res of
            Some err \<Rightarrow> (WriteError 500 ''internal error'',
              effs @ log_failure ''create order failed'' ''sku'' ''A'' err, (n', d'))
          | None \<Rightarrow> (WriteJSON 201 (order_json sample_order), effs @ [Counter_Inc ''orders_created_total'' []], (n', d')))"
    and "order_created_json (event_of sample_order) = Some j"
    and "parse_all (render j) = Some j" and "tables (cs_next (peer n')) = [''A'' \<mapsto> (''a'', 6)]"
proof -
  obtain effs n' where R: "Client_Reserve (inventory_service_grpc map_redis) calm_env ''A'' 4 \<lparr>peer = sample [], net = []\<rparr> =
      (Some (Inr \<lparr>ci_SKU = ''A'', ci_Name = ''a'', ci_Quantity = 6\<rparr>), effs, n')"
    "tables (cs_next (peer n')) = [''A'' \<mapsto> (''a'', 6)]" by (rule sample_reserve)
  from event_decodes [OF sample_event_ok jsonb_faithful_render] obtain j where
    j: "order_created_json (event_of sample_order) = Some j"
      "parse_all (render j) = Some j" by blast
  have e: "oe_retry sample_order_env = calm_env" "oe_uuid sample_order_env = ''u1''"
    by (simp_all add: sample_order_env_def)
  show thesis
    using R(1) j(1) sample_decode assms
    by (intro that [OF _ j R(2), of effs])
      (auto simp: createOrder_def Let_def sample_world_def e order_of_def outbox_of_def
        split: option.splits prod.splits)
qed

lemma CreateOrder_calm:
  assumes "script d = []" and "parse_all (evt_Payload evt) = Some j" and "orders (tables d) (o_ID ord) = None"
    and "0 < o_Quantity ord" and "in_int32 (o_Quantity ord)"
  shows "\<exists>d'. CreateOrder ord evt d = (None, d') \<and> script d' = []"
  using assms
  by (simp add: CreateOrder_def tx_begin_def tx_exec_def tx_commit_def insert_order_def insert_event_def Let_def)

lemma sample_pre:
  "req_Method sample_order_request = ''POST''" "req_Path sample_order_request = ''/orders''"
  "fair_env (oe_retry sample_order_env)" "unavailable_never_ran (fst (sample_world sc))"
  by (simp_all add: sample_order_request_def sample_order_env_def fair_calm_env sample_world_def
      unavailable_never_ran_def)

text \<open>How the sample request fares at any server of the sample world.\<close>

lemma sample_served:
  assumes "req_Method r = ''POST''" and "req_Path r = ''/orders''" and "req_Body r = req_Body sample_order_request"
    and "order_service_http map_redis plain_otel ping scrape sample_order_env env r (sample_world []) = (r', calls, effs, n', d')"
  shows "sent_status calls = 201 \<and> tables (cs_next (peer n')) = [''A'' \<mapsto> (''a'', 6)] \<and> script d' = [] \<and>
    (\<exists>j. created sample_order (outbox_of plain_otel sample_order_env j) (world_db (sample_world [])) (tables d'))"
proof -
  from order_http_post [OF assms(1,2,4)] assms(3) obtain e1 where
    c: "createOrder (Client_Reserve (inventory_service_grpc map_redis)) CreateOrder plain_otel sample_order_env r' (sample_world []) = (calls, e1, n', d')"
    and b: "req_Body r' = req_Body sample_order_request" by auto
  obtain e2 n1 j where C: "createOrder (Client_Reserve (inventory_service_grpc map_redis)) CreateOrder plain_otel sample_order_env r' (sample_world []) =
      (let (res, d') = CreateOrder sample_order (outbox_of plain_otel sample_order_env j) (snd (sample_world []))
       in case res of
            Some err \<Rightarrow> (WriteError 500 ''internal error'',
              e2 @ log_failure ''create order failed'' ''sku'' ''A'' err, (n1, d'))
          | None \<Rightarrow> (WriteJSON 201 (order_json sample_order), e2 @ [Counter_Inc ''orders_created_total'' []], (n1, d')))"
    and "order_created_json (event_of sample_order) = Some j"
    and j: "parse_all (render j) = Some j" and n1: "tables (cs_next (peer n1)) = [''A'' \<mapsto> (''a'', 6)]"
    by (rule sample_createOrder [OF b])
  have "\<exists>d'. CreateOrder sample_order (outbox_of plain_otel sample_order_env j) (snd (sample_world [])) = (None, d') \<and> script d' = []"
    using j by (intro CreateOrder_calm [of _ _ j])
      (simp_all add: sample_world_def outbox_of_def order_of_def in_int32_def)
  then obtain d1 where d1: "CreateOrder sample_order (outbox_of plain_otel sample_order_env j) (snd (sample_world [])) = (None, d1)"
    "script d1 = []" by blast
  from C c d1(1) have "sent_status calls = 201" "n' = n1" "d' = d1" by simp_all
  with pgo.create_ok [OF d1(1)] d1(2) n1 show ?thesis by blast
qed

lemma sample_post:
  obtains r' calls effs n' d' where "sample_http (sample_world []) = (r', calls, effs, (n', d'))"
    and "sent_status calls = 201" and "tables (cs_next (peer n')) = [''A'' \<mapsto> (''a'', 6)]"
proof -
  obtain r' calls effs w' where h: "sample_http (sample_world []) = (r', calls, effs, w')" by (rule prod_cases4)
  obtain n' d' where w': "w' = (n', d')" by force
  from sample_served [OF sample_pre(1,2) refl h [unfolded w']] h w' show thesis by (intro that) auto
qed

theorem create_order_endpoint_witness:
  "\<exists>r' calls effs w'. sample_http (sample_world []) = (r', calls, effs, w') \<and> sent_status calls = 201 \<and>
     available (world_stock w') ''A'' = 6 \<and> length (outbox_events (world_db w')) = 1"
proof -
  obtain r' calls effs n' d' where h: "sample_http (sample_world []) = (r', calls, effs, (n', d'))"
    and ok: "sent_status calls = 201" and n': "tables (cs_next (peer n')) = [''A'' \<mapsto> (''a'', 6)]"
    by (rule sample_post)
  from create_order_endpoint [OF sample_pre h] ok obtain req k where
    "created (order_of req sample_order_env) (outbox_of plain_otel sample_order_env k) (world_db (sample_world [])) (tables d')"
    by auto
  then have "length (outbox_events (tables d')) = 1" by (auto simp: created_def sample_world_def)
  with h ok n' show ?thesis by (auto simp: available_def)
qed



text \<open>
  The other way round fails: a reservation is not given back when the order cannot be stored. Where
  the transaction does not even begin, the client gets 500, there is no order and no event, and the
  four units are gone from the stock.
\<close>

theorem reservation_without_order:
  "\<exists>r' calls effs w'. sample_http (sample_world [Fails_before]) = (r', calls, effs, w') \<and>
     sent_status calls = 500 \<and> orders (world_db w') = Map.empty \<and> outbox_events (world_db w') = [] \<and>
     available (world_stock (sample_world [Fails_before])) ''A'' = 10 \<and> available (world_stock w') ''A'' = 6"
proof -
  obtain r' calls effs w' where h: "sample_http (sample_world [Fails_before]) = (r', calls, effs, w')" by (rule prod_cases4)
  have pre: "req_Method sample_order_request = ''POST''" "req_Path sample_order_request = ''/orders''"
    by (simp_all add: sample_order_request_def)
  from order_http_post [OF pre h] obtain e1 where
    c: "createOrder (Client_Reserve (inventory_service_grpc map_redis)) CreateOrder plain_otel sample_order_env r' (sample_world [Fails_before]) = (calls, e1, w')"
    and b: "req_Body r' = req_Body sample_order_request" by blast
  obtain e2 n' j where C: "createOrder (Client_Reserve (inventory_service_grpc map_redis)) CreateOrder plain_otel sample_order_env r' (sample_world [Fails_before]) =
      (let (res, d') = CreateOrder sample_order (outbox_of plain_otel sample_order_env j) (snd (sample_world [Fails_before]))
       in case res of
            Some err \<Rightarrow> (WriteError 500 ''internal error'',
              e2 @ log_failure ''create order failed'' ''sku'' ''A'' err, (n', d'))
          | None \<Rightarrow> (WriteJSON 201 (order_json sample_order), e2 @ [Counter_Inc ''orders_created_total'' []], (n', d')))"
    and "order_created_json (event_of sample_order) = Some j"
    and "parse_all (render j) = Some j" and n': "tables (cs_next (peer n')) = [''A'' \<mapsto> (''a'', 6)]"
    by (rule sample_createOrder [OF b])
  have "CreateOrder sample_order (outbox_of plain_otel sample_order_env j) (snd (sample_world [Fails_before])) =
      (Some (Wrapped ''begin transaction'' connection_lost), snd (sample_world []))"
    by (simp add: CreateOrder_def tx_begin_def sample_world_def)
  with C c have "sent_status calls = 500" "w' = (n', snd (sample_world []))" by auto
  with h n' show ?thesis by (auto simp: sample_world_def available_def)
qed

theorem decoded_order_well_typed_witness:
  "decode_create (req_Body sample_order_request) = Inr \<lparr>cr_SKU = ''A'', cr_Quantity = 4\<rparr> \<and>
   valid_utf8 ''A'' \<and> in_int64 4"
  using decoded_order_well_typed [OF sample_decode] sample_decode by simp

text \<open>
  Every answer of \<open>GET /orders/{id}\<close>: 200 with the JSON of the stored order, 404 when there is none,
  500 when the database failed; nothing changes in either database.
\<close>

theorem get_order_endpoint:
  assumes "req_Method r = ''GET''" and "req_Path r = ''/orders/'' @ i" and "i \<noteq> []" and "CHR ''/'' \<notin> set i"
    and "order_service_http redis otel ping scrape oenv env r w = (r', calls, effs, w')"
  shows "world_db w' = world_db w \<and> fst w' = fst w \<and>
    (sent_status calls = 200 \<and>
        (\<exists>ord. orders (world_db w) i = Some ord \<and> calls = WriteJSON 200 (order_json ord))
     \<or> sent_status calls = 404 \<and> orders (world_db w) i = None
     \<or> sent_status calls = 500)"
proof -
  from order_http_get [OF assms] obtain e1 where
    h: "order_getOrder GetOrder r' w = (calls, e1, w')" and v: "PathValue r' ''id'' = i" by blast
  obtain res d' where g: "GetOrder i (snd w) = (res, d')" by force
  have db: "tables d' = world_db w" using pgo.getOrder_frame [of i "snd w"] g by simp
  show ?thesis
  proof (cases res)
    case (Inl e)
    with h v g db pgo.getOrder_missing [OF g [unfolded Inl]] show ?thesis
      by (auto simp: order_getOrder_def Let_def split: prod.splits if_splits)
  next
    case (Inr ord)
    with h v g db pgo.getOrder_ok [OF g [unfolded Inr]] show ?thesis
      by (auto simp: order_getOrder_def Let_def split: prod.splits)
  qed
qed

theorem get_order_endpoint_witness:
  "\<exists>r' calls effs w'. order_service_http map_redis plain_otel (\<lambda>w. (None, w)) (\<lambda>r w. ([], [], w))
      sample_order_env \<lparr>env_ms = 5, env_trace = None\<rparr>
      \<lparr>req_Method = ''GET'', req_Path = ''/orders/u9'', req_Pattern = [], req_PathValues = [], req_Body = []\<rparr>
      (sample_world []) = (r', calls, effs, w') \<and>
    sent_status calls = 404 \<and> orders (world_db (sample_world [])) ''u9'' = None \<and> world_db w' = world_db (sample_world [])"
proof -
  let ?r = "\<lparr>req_Method = ''GET'', req_Path = ''/orders/u9'', req_Pattern = [], req_PathValues = [], req_Body = []\<rparr>"
  obtain r' calls effs w' where h: "order_service_http map_redis plain_otel (\<lambda>w. (None, w)) (\<lambda>r w. ([], [], w))
      sample_order_env \<lparr>env_ms = 5, env_trace = None\<rparr> ?r (sample_world []) = (r', calls, effs, w')" by (rule prod_cases4)
  have pre: "req_Method ?r = ''GET''" "req_Path ?r = ''/orders/'' @ ''u9''" "''u9'' \<noteq> []" "CHR ''/'' \<notin> set ''u9''"
    by simp_all
  from order_http_get [OF pre h] obtain e1 where
    g: "order_getOrder GetOrder r' (sample_world []) = (calls, e1, w')" and v: "PathValue r' ''id'' = ''u9''" by blast
  have "sent_status calls = 404"
    using g by (auto simp: order_getOrder_def v GetOrder_def pg_query_calm select_order_def sample_world_def)
  with get_order_endpoint [OF pre h] h show ?thesis by auto
qed

end
