(* ===== verification/Consumers.thy ===== *)
theory Consumers
  imports OrderEvents HttpX
begin

text \<open>
  The two consumers of \<open>orders.created\<close>: \<open>Subscriber.Consume\<close> and its message callback (the services
  carry identical copies of \<open>events/subscriber.go\<close>), analytics-service's running totals and its REST
  endpoint, and notification-service's handler. JetStream is outside the repository: it hands the
  callback any message of the stream that has not been acknowledged, any number of times, in any
  order, and an acknowledgement may get lost on its way. The contract between the callback and the
  handler it is given is the locale \<open>event_consumer\<close>, interpreted on both services' handlers.
\<close>

section \<open>Prometheus counters\<close>

text \<open>\<open>Counter.Add\<close> panics on a negative value; \<open>None\<close> is the panic.\<close>

definition prom_Add :: "string \<Rightarrow> int \<Rightarrow> effect list option" where
  "prom_Add name v = (if v < 0 then None else Some [Counter_Add name [] v])"

text \<open>What a counter without labels shows after a sequence of effects.\<close>

fun counted_by :: "string \<Rightarrow> effect \<Rightarrow> int" where
  "counted_by name (Counter_Inc n ls) = (if n = name \<and> ls = [] then 1 else 0)"
| "counted_by name (Counter_Add n ls v) = (if n = name \<and> ls = [] then v else 0)"
| "counted_by name _ = 0"

definition counter_value :: "string \<Rightarrow> effect list \<Rightarrow> int" where
  "counter_value name effs = sum_list (map (counted_by name) effs)"

lemma counter_value_simps [simp]:
  "counter_value name [] = 0"
  "counter_value name (x # effs) = counted_by name x + counter_value name effs"
  "counter_value name (effs @ effs') = counter_value name effs + counter_value name effs'"
  by (simp_all add: counter_value_def)

section \<open>The message callback\<close>

text \<open>
  A handler of events: \<open>None\<close> is a panic, \<open>Some (Some err)\<close> an error. It returns its effects and its
  service's next state.
\<close>

type_synonym ('c, 's) event_handler = "'c \<Rightarrow> order_created \<Rightarrow> 's \<Rightarrow> go_error option option \<times> effect list \<times> 's"

datatype reply = Ack | Nak

text \<open>
  The closure handed to \<open>consumer.Consume\<close>. A panic leaves it without a reply, and ends the process:
  the client library's goroutine does not recover.
\<close>

definition on_message ::
  "'c otel \<Rightarrow> 'c \<Rightarrow> ('c, 's) event_handler \<Rightarrow> nats_msg \<Rightarrow> 's \<Rightarrow> reply option \<times> effect list \<times> 's" where
  "on_message otel ctx handle msg s =
     (let msgCtx = ot_Extract otel ctx (carrier_Get (msg_Header msg));
          msgCtx = ot_Start otel msgCtx (''process '' @ SubjectCreated)
      in case unmarshal_order_created (msg_Data msg) of
           Inl err \<Rightarrow>
             (Some Nak, [Log_Error ''failed to decode order created event'' [(''error'', err_text err)]], s)
         | Inr evt \<Rightarrow>
             (case handle msgCtx evt s of
                (None, effs, s') \<Rightarrow> (None, effs, s')
              | (Some (Some err), effs, s') \<Rightarrow>
                  (Some Nak,
                   effs @ [Log_Error ''failed to handle order created event''
                             [(''order_id'', oc_OrderID evt), (''error'', err_text err)]], s')
              | (Some None, effs, s') \<Rightarrow> (Some Ack, effs, s')))"

section \<open>Deliveries\<close>

text \<open>
  What JetStream knows of the durable consumer (the positions acknowledged), the service's own state,
  and whether its process is alive.
\<close>

record 's consumer =
  cn_acked :: "nat list"
  cn_app :: 's
  cn_up :: bool

text \<open>A delivery: a position in the stream, and whether an acknowledgement reaches the server.\<close>

type_synonym delivery = "nat \<times> bool"

definition deliver ::
  "'c otel \<Rightarrow> 'c \<Rightarrow> ('c, 's) event_handler \<Rightarrow> nats_msg list \<Rightarrow> delivery \<Rightarrow> 's consumer \<Rightarrow> effect list \<times> 's consumer" where
  "deliver otel ctx handle msgs d c =
     (let (i, arrives) = d in
      if cn_up c \<and> i < length msgs \<and> i \<notin> set (cn_acked c) then
        (case on_message otel ctx handle (msgs ! i) (cn_app c) of
           (None, effs, s') \<Rightarrow> (effs, c\<lparr>cn_app := s', cn_up := False\<rparr>)
         | (Some Ack, effs, s') \<Rightarrow>
             (effs, c\<lparr>cn_app := s', cn_acked := (if arrives then i # cn_acked c else cn_acked c)\<rparr>)
         | (Some Nak, effs, s') \<Rightarrow> (effs, c\<lparr>cn_app := s'\<rparr>))
      else ([], c))"

fun run_deliveries ::
  "'c otel \<Rightarrow> 'c \<Rightarrow> ('c, 's) event_handler \<Rightarrow> nats_msg list \<Rightarrow> delivery list \<Rightarrow> 's consumer \<Rightarrow> effect list \<times> 's consumer" where
  "run_deliveries otel ctx handle msgs [] c = ([], c)"
| "run_deliveries otel ctx handle msgs (d # ds) c =
     (let (effs, c') = deliver otel ctx handle msgs d c;
          (effs', c'') = run_deliveries otel ctx handle msgs ds c'
      in (effs @ effs', c''))"

section \<open>Consume\<close>

text \<open>
  The JetStream client: the calls \<open>Consume\<close> and the publisher make to set the stream and the consumer
  up, over a client state of any type.
\<close>

record 'n jetstream =
  js_New :: "'n \<Rightarrow> go_error option \<times> 'n"
  js_CreateOrUpdateStream :: "string \<Rightarrow> string list \<Rightarrow> 'n \<Rightarrow> go_error option \<times> 'n"
  js_CreateOrUpdateConsumer :: "string \<Rightarrow> string \<Rightarrow> 'n \<Rightarrow> go_error option \<times> 'n"
  js_Consume :: "'n \<Rightarrow> go_error option \<times> 'n"
  js_Stop :: "'n \<Rightarrow> 'n"

text \<open>
  \<open>Consume\<close> runs the callback on the deliveries \<open>ds\<close> that arrive before the context is cancelled. The
  consumer's acknowledgements are explicit.
\<close>

definition Consume ::
  "'n jetstream \<Rightarrow> 'c otel \<Rightarrow> 'c \<Rightarrow> string \<Rightarrow> ('c, 's) event_handler \<Rightarrow> nats_msg list \<Rightarrow> delivery list \<Rightarrow>
   'n \<Rightarrow> 's consumer \<Rightarrow> go_error option \<times> effect list \<times> 'n \<times> 's consumer" where
  "Consume js otel ctx durableName handle msgs ds n c =
     (case js_New js n of
        (Some err, n) \<Rightarrow> (Some (Wrapped ''create jetstream context'' err), [], n, c)
      | (None, n) \<Rightarrow>
          (case js_CreateOrUpdateStream js StreamName [SubjectCreated] n of
             (Some err, n) \<Rightarrow> (Some (Wrapped ''ensure stream'' err), [], n, c)
           | (None, n) \<Rightarrow>
               (case js_CreateOrUpdateConsumer js durableName SubjectCreated n of
                  (Some err, n) \<Rightarrow> (Some (Wrapped ''create consumer'' err), [], n, c)
                | (None, n) \<Rightarrow>
                    (case js_Consume js n of
                       (Some err, n) \<Rightarrow> (Some (Wrapped ''start consuming'' err), [], n, c)
                     | (None, n) \<Rightarrow>
                         let (effs, c') = run_deliveries otel ctx handle msgs ds c
                         in (None, effs, js_Stop js n, c')))))"

section \<open>analytics-service\<close>

record stats =
  st_ordersCount :: int
  st_totalQuantity :: int

record snapshot =
  sn_OrdersCount :: int
  sn_TotalQuantityReserved :: int

definition snapshot_json :: "snapshot \<Rightarrow> json" where
  "snapshot_json s =
     JObj [(''orders_count'', JNum (Itoa (sn_OrdersCount s))),
           (''total_quantity_reserved'', JNum (Itoa (sn_TotalQuantityReserved s)))]"

text \<open>
  The mutex makes each call atomic (shown in \<open>StatsLock\<close>). The totals are written before the counters: a panic of \<open>Add\<close> leaves
  them changed.
\<close>

definition Stats_Record :: "int \<Rightarrow> stats \<Rightarrow> unit option \<times> effect list \<times> stats" where
  "Stats_Record quantity s =
     (let s' = \<lparr>st_ordersCount = to_int64 (st_ordersCount s + 1),
                st_totalQuantity = to_int64 (st_totalQuantity s + quantity)\<rparr>;
          effs = [Counter_Inc ''analytics_orders_recorded_total'' []]
      in case prom_Add ''analytics_quantity_reserved_total'' quantity of
           None \<Rightarrow> (None, effs, s')
         | Some added \<Rightarrow> (Some (), effs @ added, s'))"

definition Stats_Snapshot :: "stats \<Rightarrow> snapshot" where
  "Stats_Snapshot s = \<lparr>sn_OrdersCount = st_ordersCount s, sn_TotalQuantityReserved = st_totalQuantity s\<rparr>"

definition StatsHandler :: "stats endpoint" where
  "StatsHandler r s = (WriteJSON 200 (Some (snapshot_json (Stats_Snapshot s))), [], s)"

definition event_attrs :: "'c otel \<Rightarrow> 'c \<Rightarrow> order_created \<Rightarrow> (string \<times> string) list" where
  "event_attrs otel ctx evt =
     [(''order_id'', oc_OrderID evt), (''sku'', oc_SKU evt), (''quantity'', Itoa (oc_Quantity evt))] @
     (case ot_TraceID otel ctx of Some tid \<Rightarrow> [(''trace_id'', tid)] | None \<Rightarrow> [])"

definition analytics_handleOrderCreated :: "'c otel \<Rightarrow> ('c, stats) event_handler" where
  "analytics_handleOrderCreated otel ctx evt s =
     (case Stats_Record (oc_Quantity evt) s of
        (None, effs, s') \<Rightarrow> (None, effs, s')
      | (Some u, effs, s') \<Rightarrow> (Some None, effs @ [Log_Info ''order recorded'' (event_attrs otel ctx evt)], s'))"

text \<open>The zero value \<open>main\<close> starts from.\<close>

definition zero_stats :: stats where
  "zero_stats = \<lparr>st_ordersCount = 0, st_totalQuantity = 0\<rparr>"

section \<open>notification-service\<close>

definition notification_handleOrderCreated :: "'c otel \<Rightarrow> ('c, unit) event_handler" where
  "notification_handleOrderCreated otel ctx evt s =
     (Some None,
      [Log_Info ''order confirmation notification sent'' (event_attrs otel ctx evt),
       Counter_Inc ''notifications_sent_total'' []], s)"

section \<open>Their HTTP servers\<close>

text \<open>\<open>HealthHandler\<close> over the connection's \<open>IsConnected\<close>.\<close>

definition nats_HealthHandler :: "('s \<Rightarrow> bool) \<Rightarrow> 's endpoint" where
  "nats_HealthHandler connected r s =
     (if \<not> connected s then (WriteJSON 503 (Some (JObj [(''status'', JStr ''unavailable'')])), [], s)
      else (WriteJSON 200 (Some (JObj [(''status'', JStr ''ok'')])), [], s))"

definition analytics_routes :: "(stats \<Rightarrow> bool) \<Rightarrow> stats endpoint \<Rightarrow> stats route list" where
  "analytics_routes connected scrape =
     [\<lparr>rt_Text = ''GET /healthz'', rt_Method = Some ''GET'', rt_Segs = [Lit ''healthz''],
       rt_Handler = nats_HealthHandler connected\<rparr>,
      \<lparr>rt_Text = ''GET /stats'', rt_Method = Some ''GET'', rt_Segs = [Lit ''stats''],
       rt_Handler = StatsHandler\<rparr>,
      \<lparr>rt_Text = ''GET /metrics'', rt_Method = Some ''GET'', rt_Segs = [Lit ''metrics''],
       rt_Handler = scrape\<rparr>]"

definition analytics_http :: "(stats \<Rightarrow> bool) \<Rightarrow> stats endpoint \<Rightarrow> req_env \<Rightarrow> stats server" where
  "analytics_http connected scrape env = handler_chain env (analytics_routes connected scrape)"

definition notification_http :: "(unit \<Rightarrow> bool) \<Rightarrow> unit endpoint \<Rightarrow> req_env \<Rightarrow> unit server" where
  "notification_http connected scrape env =
     handler_chain env
       [\<lparr>rt_Text = ''GET /healthz'', rt_Method = Some ''GET'', rt_Segs = [Lit ''healthz''],
         rt_Handler = nats_HealthHandler connected\<rparr>,
        \<lparr>rt_Text = ''GET /metrics'', rt_Method = Some ''GET'', rt_Segs = [Lit ''metrics''],
         rt_Handler = scrape\<rparr>]"

section \<open>The handler's contract\<close>

text \<open>The events the callback hands over, in order, for the acknowledgements that arrive.\<close>

fun handled :: "nats_msg list \<Rightarrow> delivery list \<Rightarrow> nat list \<Rightarrow> order_created list" where
  "handled msgs [] acked = []"
| "handled msgs ((i, arrives) # ds) acked =
     (if i < length msgs \<and> i \<notin> set acked then
        (case unmarshal_order_created (msg_Data (msgs ! i)) of
           Inl err \<Rightarrow> handled msgs ds acked
         | Inr e \<Rightarrow> e # handled msgs ds (if arrives then i # acked else acked))
      else handled msgs ds acked)"

text \<open>Every message that decodes is one the handler takes.\<close>

definition acceptable :: "(order_created \<Rightarrow> bool) \<Rightarrow> nats_msg list \<Rightarrow> bool" where
  "acceptable P msgs \<longleftrightarrow> (\<forall>m\<in>set msgs. \<forall>e. unmarshal_order_created (msg_Data m) = Inr e \<longrightarrow> P e)"

lemma acceptable_nth:
  "acceptable P msgs \<Longrightarrow> i < length msgs \<Longrightarrow> unmarshal_order_created (msg_Data (msgs ! i)) = Inr e \<Longrightarrow> P e"
  unfolding acceptable_def using nth_mem by blast

lemma deliver_skips:
  "\<not> (cn_up c \<and> i < length msgs \<and> i \<notin> set (cn_acked c)) \<Longrightarrow> deliver otel ctx handle msgs (i, arrives) c = ([], c)"
  by (auto simp: deliver_def)

lemma deliver_undecoded:
  "unmarshal_order_created (msg_Data (msgs ! i)) = Inl err \<Longrightarrow>
     deliver otel ctx handle msgs (i, arrives) c = (effs, c') \<Longrightarrow> c' = c \<and> (\<forall>name. counter_value name effs = 0)"
  by (auto simp: deliver_def on_message_def Let_def split: if_splits)

locale event_consumer =
  fixes handle :: "('c, 's) event_handler"
    and accepts :: "order_created \<Rightarrow> bool"
    and note_event :: "order_created \<Rightarrow> 's \<Rightarrow> 's"
    and counts :: "string \<Rightarrow> order_created \<Rightarrow> int"
  assumes handles: "accepts e \<Longrightarrow> \<exists>effs. handle ctx e s = (Some None, effs, note_event e s) \<and>
      (\<forall>name. counter_value name effs = counts name e)"
begin

lemma deliver_decoded:
  assumes "deliver otel ctx handle msgs (i, arrives) c = (effs, c')"
    and "unmarshal_order_created (msg_Data (msgs ! i)) = Inr e" and "accepts e"
    and "cn_up c" and "i < length msgs" and "i \<notin> set (cn_acked c)"
  shows "c' = c\<lparr>cn_app := note_event e (cn_app c), cn_acked := (if arrives then i # cn_acked c else cn_acked c)\<rparr> \<and>
    (\<forall>name. counter_value name effs = counts name e)"
proof -
  let ?ctx = "ot_Start otel (ot_Extract otel ctx (carrier_Get (msg_Header (msgs ! i)))) (''process '' @ SubjectCreated)"
  from handles [OF assms(3), of ?ctx "cn_app c"] assms show ?thesis
    by (auto simp: deliver_def on_message_def Let_def)
qed

lemma run_deliveries_handled:
  assumes "run_deliveries otel ctx handle msgs ds c = (effs, c')" and "acceptable accepts msgs" and "cn_up c"
  shows "cn_up c' \<and> cn_app c' = fold note_event (handled msgs ds (cn_acked c)) (cn_app c) \<and>
    (\<forall>name. counter_value name effs = sum_list (map (counts name) (handled msgs ds (cn_acked c)))) \<and>
    set (cn_acked c) \<subseteq> set (cn_acked c')"
  using assms
proof (induction ds arbitrary: c effs)
  case (Cons d ds)
  obtain i arrives where d: "d = (i, arrives)" by force
  obtain e1 c1 where s: "deliver otel ctx handle msgs d c = (e1, c1)" by force
  obtain e2 where r: "run_deliveries otel ctx handle msgs ds c1 = (e2, c')" "effs = e1 @ e2"
    using Cons.prems(1) s by (auto split: prod.splits)
  show ?case
  proof (cases "i < length msgs \<and> i \<notin> set (cn_acked c)")
    case False
    with s d have "c1 = c" "e1 = []" by (auto simp: deliver_skips)
    with Cons.IH [OF r(1)] Cons.prems(2,3) r(2) d False show ?thesis by auto
  next
    case True
    show ?thesis
    proof (cases "unmarshal_order_created (msg_Data (msgs ! i))")
      case (Inl err)
      from deliver_undecoded [OF this s [unfolded d]]
      have "c1 = c" "\<forall>name. counter_value name e1 = 0" by blast+
      with Cons.IH [OF r(1)] Cons.prems(2,3) r(2) d True Inl show ?thesis by auto
    next
      case (Inr e)
      with Cons.prems(2) True have "accepts e" using acceptable_nth by blast
      from deliver_decoded [OF s [unfolded d] Inr this Cons.prems(3)] True
      have c1: "c1 = c\<lparr>cn_app := note_event e (cn_app c), cn_acked := (if arrives then i # cn_acked c else cn_acked c)\<rparr>"
        and e1: "\<forall>name. counter_value name e1 = counts name e" by blast+
      from Cons.IH [OF r(1) Cons.prems(2)] c1 Cons.prems(3) e1 r(2) d True Inr show ?thesis
        by (auto split: if_splits)
    qed
  qed
qed simp

text \<open>What is acknowledged was handed to the handler.\<close>

lemma run_deliveries_acked:
  assumes "run_deliveries otel ctx handle msgs ds c = (effs, c')" and "acceptable accepts msgs" and "cn_up c"
    and "i \<in> set (cn_acked c')" and "i \<notin> set (cn_acked c)"
  shows "\<exists>e. unmarshal_order_created (msg_Data (msgs ! i)) = Inr e \<and> e \<in> set (handled msgs ds (cn_acked c))"
  using assms
proof (induction ds arbitrary: c effs)
  case (Cons d ds)
  obtain j arrives where d: "d = (j, arrives)" by force
  obtain e1 c1 where s: "deliver otel ctx handle msgs d c = (e1, c1)" by force
  obtain e2 where r: "run_deliveries otel ctx handle msgs ds c1 = (e2, c')"
    using Cons.prems(1) s by (auto split: prod.splits)
  show ?case
  proof (cases "j < length msgs \<and> j \<notin> set (cn_acked c)")
    case False
    with s d have "c1 = c" by (auto simp: deliver_skips)
    with Cons.IH [OF r] Cons.prems d False show ?thesis by auto
  next
    case True
    show ?thesis
    proof (cases "unmarshal_order_created (msg_Data (msgs ! j))")
      case (Inl err)
      from deliver_undecoded [OF this s [unfolded d]] have "c1 = c" by blast
      with Cons.IH [OF r] Cons.prems d True Inl show ?thesis by auto
    next
      case (Inr e)
      with Cons.prems(2) True have "accepts e" using acceptable_nth by blast
      from deliver_decoded [OF s [unfolded d] Inr this Cons.prems(3)] True
      have "c1 = c\<lparr>cn_app := note_event e (cn_app c), cn_acked := (if arrives then j # cn_acked c else cn_acked c)\<rparr>"
        by blast
      with Cons.IH [OF r] Cons.prems d True Inr show ?thesis by (auto split: if_splits)
    qed
  qed
qed simp

end

text \<open>With every acknowledgement arriving, each message delivered is handled once.\<close>

lemma handled_once:
  assumes "list_all snd ds" and "\<And>i. i < length msgs \<Longrightarrow> unmarshal_order_created (msg_Data (msgs ! i)) = Inr (evs ! i)"
  shows "mset (handled msgs ds acked) =
    image_mset ((!) evs) (mset_set ({..<length msgs} \<inter> fst ` set ds - set acked))"
  using assms(1)
proof (induction ds arbitrary: acked)
  case (Cons d ds)
  obtain i where d: "d = (i, True)" using Cons.prems by (cases d) auto
  let ?S = "\<lambda>ds acked. {..<length msgs} \<inter> fst ` set ds - set acked"
  show ?case
  proof (cases "i < length msgs \<and> i \<notin> set acked")
    case True
    have "?S (d # ds) acked = insert i (?S ds (i # acked))" using True d by auto
    moreover have "i \<notin> ?S ds (i # acked)" by simp
    ultimately have "mset_set (?S (d # ds) acked) = add_mset i (mset_set (?S ds (i # acked)))" by simp
    with Cons True d assms(2) [of i] show ?thesis by simp
  next
    case False
    then have "?S (d # ds) acked = ?S ds acked" using d by auto
    moreover have "handled msgs (d # ds) acked = handled msgs ds acked" using False d by auto
    ultimately show ?thesis using Cons by simp
  qed
qed simp

lemma handled_all:
  assumes "list_all snd ds" and "list_all2 (\<lambda>m e. unmarshal_order_created (msg_Data m) = Inr e) msgs evs"
    and "{..<length msgs} \<subseteq> fst ` set ds"
  shows "mset (handled msgs ds []) = mset evs"
proof -
  have "length evs = length msgs" using assms(2) by (simp add: list_all2_lengthD)
  have "mset (handled msgs ds []) = image_mset ((!) evs) (mset_set ({..<length msgs} \<inter> fst ` set ds))"
    using handled_once [OF assms(1), of msgs evs "[]"] assms(2) by (simp add: list_all2_conv_all_nth)
  also have "{..<length msgs} \<inter> fst ` set ds = {..<length evs}" using assms(3) \<open>length evs = length msgs\<close> by auto
  also have "image_mset ((!) evs) (mset_set {..<length evs}) = mset (map ((!) evs) [0..<length evs])"
    by (simp add: lessThan_atLeast0)
  finally show ?thesis by (simp add: map_nth)
qed

lemma sum_list_handled:
  fixes f :: "order_created \<Rightarrow> int"
  assumes "mset xs = mset ys"
  shows "sum_list (map f xs) = sum_list (map f ys)"
  using assms by (metis mset_map sum_mset_sum_list)

context event_consumer
begin

lemma run_deliveries_acks:
  assumes "run_deliveries otel ctx handle msgs ds c = (effs, c')" and "acceptable accepts msgs" and "cn_up c"
    and "(i, True) \<in> set ds" and "i < length msgs" and "unmarshal_order_created (msg_Data (msgs ! i)) = Inr e"
  shows "i \<in> set (cn_acked c')"
  using assms(1,3,4)
proof (induction ds arbitrary: c effs)
  case (Cons d ds)
  obtain e1 c1 where s: "deliver otel ctx handle msgs d c = (e1, c1)" by force
  obtain e2 where r: "run_deliveries otel ctx handle msgs ds c1 = (e2, c')"
    using Cons.prems(1) s by (auto split: prod.splits)
  have one: "run_deliveries otel ctx handle msgs [d] c = (e1, c1)" using s by simp
  from run_deliveries_handled [OF one assms(2) Cons.prems(2)] have up: "cn_up c1" by blast
  have stays: "i \<in> set (cn_acked c1) \<Longrightarrow> i \<in> set (cn_acked c')"
    using run_deliveries_handled [OF r assms(2) up] by blast
  show ?case
  proof (cases "d = (i, True)")
    case True
    have "i \<in> set (cn_acked c1)"
    proof (cases "i \<in> set (cn_acked c)")
      case True
      then show ?thesis using run_deliveries_handled [OF one assms(2) Cons.prems(2)] by blast
    next
      case False
      have "accepts e" using acceptable_nth [OF assms(2,5,6)] .
      from deliver_decoded [OF s [unfolded True] assms(6) this Cons.prems(2) assms(5) False]
      show ?thesis by simp
    qed
    then show ?thesis by (rule stays)
  next
    case False
    then have "(i, True) \<in> set ds" using Cons.prems(3) by auto
    from Cons.IH [OF r up this] show ?thesis .
  qed
qed simp

end

section \<open>Both handlers keep the contract\<close>

definition note_stats :: "order_created \<Rightarrow> stats \<Rightarrow> stats" where
  "note_stats e s =
     \<lparr>st_ordersCount = to_int64 (st_ordersCount s + 1),
      st_totalQuantity = to_int64 (st_totalQuantity s + oc_Quantity e)\<rparr>"

definition stats_counts :: "string \<Rightarrow> order_created \<Rightarrow> int" where
  "stats_counts name e =
     counted_by name (Counter_Inc ''analytics_orders_recorded_total'' []) +
     counted_by name (Counter_Add ''analytics_quantity_reserved_total'' [] (oc_Quantity e))"

interpretation analytics: event_consumer "analytics_handleOrderCreated otel" "\<lambda>e. 0 \<le> oc_Quantity e" note_stats stats_counts
  for otel :: "'c otel"
proof unfold_locales
  fix e :: order_created and ctx :: 'c and s
  assume "0 \<le> oc_Quantity e"
  then have "analytics_handleOrderCreated otel ctx e s =
      (Some None, [Counter_Inc ''analytics_orders_recorded_total'' [],
         Counter_Add ''analytics_quantity_reserved_total'' [] (oc_Quantity e),
         Log_Info ''order recorded'' (event_attrs otel ctx e)], note_stats e s)"
    by (simp add: analytics_handleOrderCreated_def Stats_Record_def prom_Add_def note_stats_def Let_def)
  then show "\<exists>effs. analytics_handleOrderCreated otel ctx e s = (Some None, effs, note_stats e s) \<and>
      (\<forall>name. counter_value name effs = stats_counts name e)"
    by (simp add: stats_counts_def del: counted_by.simps(1,2))
qed

interpretation notification: event_consumer "notification_handleOrderCreated otel" "\<lambda>e. True" "\<lambda>e s. s"
  "\<lambda>name e. counted_by name (Counter_Inc ''notifications_sent_total'' [])"
  for otel :: "'c otel"
  by unfold_locales (simp add: notification_handleOrderCreated_def del: counted_by.simps(1))

lemma to_int64_add_right: "to_int64 (b + to_int64 a) = to_int64 (b + a)"
  using to_int64_add [of a b] by (simp add: add.commute)

lemma fold_note_stats:
  "fold note_stats es s =
     (if es = [] then s
      else \<lparr>st_ordersCount = to_int64 (st_ordersCount s + int (length es)),
            st_totalQuantity = to_int64 (st_totalQuantity s + sum_list (map oc_Quantity es))\<rparr>)"
  by (induction es arbitrary: s) (auto simp: note_stats_def to_int64_add to_int64_add_right ac_simps)

lemma fold_note_zero:
  "fold note_stats es zero_stats =
     \<lparr>st_ordersCount = to_int64 (int (length es)), st_totalQuantity = to_int64 (sum_list (map oc_Quantity es))\<rparr>"
  by (auto simp: fold_note_stats zero_stats_def in_int64_def)

lemma sum_stats_counts:
  "sum_list (map (stats_counts ''analytics_orders_recorded_total'') es) = int (length es)"
  "sum_list (map (stats_counts ''analytics_quantity_reserved_total'') es) = sum_list (map oc_Quantity es)"
  by (induction es) (auto simp: stats_counts_def)

section \<open>Properties\<close>

lemma acceptable_list_all2:
  "list_all2 (\<lambda>m e. unmarshal_order_created (msg_Data m) = Inr e \<and> P e) msgs evs \<Longrightarrow> acceptable P msgs"
  by (auto simp: acceptable_def list_all2_conv_all_nth in_set_conv_nth)

text \<open>The consumer a service starts with, on a fresh durable.\<close>

definition fresh :: "'s \<Rightarrow> 's consumer" where
  "fresh s = \<lparr>cn_acked = [], cn_app = s, cn_up = True\<rparr>"

lemma fresh_simps [simp]: "cn_acked (fresh s) = []" "cn_app (fresh s) = s" "cn_up (fresh s)"
  by (simp_all add: fresh_def)

text \<open>Messages as the publisher sends them, for the witnesses.\<close>

definition sample_event :: "string \<Rightarrow> int \<Rightarrow> order_created" where
  "sample_event i q = \<lparr>oc_OrderID = i, oc_SKU = ''A'', oc_Quantity = q, oc_Status = ''confirmed'',
     oc_CreatedAt = zero_time\<rparr>"

definition event_msg :: "order_created \<Rightarrow> nats_msg" where
  "event_msg e = \<lparr>msg_Subject = SubjectCreated,
     msg_Data = (case order_created_json e of None \<Rightarrow> [] | Some j \<Rightarrow> render j), msg_Header = []\<rparr>"

lemma unmarshal_event_msg: "event_ok e \<Longrightarrow> unmarshal_order_created (msg_Data (event_msg e)) = Inr e"
  using event_decodes [of e, OF _ jsonb_faithful_render] by (auto simp: event_msg_def)

lemma event_ok_sample [simp]: "ascii i \<Longrightarrow> in_int64 q \<Longrightarrow> event_ok (sample_event i q)"
  by (simp add: event_ok_def sample_event_def ascii_def zero_time_def valid_utc_def valid_fields_def days_in_def)

abbreviation sample_msgs :: "nats_msg list" where
  "sample_msgs \<equiv> [event_msg (sample_event ''x'' 3), event_msg (sample_event ''y'' 4)]"

lemma sample_msgs_decode:
  "list_all2 (\<lambda>m e. unmarshal_order_created (msg_Data m) = Inr e \<and> 0 \<le> oc_Quantity e)
     sample_msgs [sample_event ''x'' 3, sample_event ''y'' 4]"
proof -
  have "event_ok (sample_event ''x'' 3)" "event_ok (sample_event ''y'' 4)"
    by (simp_all add: ascii_def in_int64_def)
  then show ?thesis by (simp add: unmarshal_event_msg) (simp add: sample_event_def)
qed

text \<open>
  The running totals: when every message of the stream decodes to an order of non-negative
  quantity and every acknowledgement arrives, then however the deliveries are ordered and repeated,
  once each message has been delivered all are acknowledged, the process is up, and \<open>/stats\<close> shows the
  number of orders and the sum of their quantities, modulo 64-bit wrap-around.
\<close>

theorem analytics_totals_exact:
  assumes "run_deliveries otel ctx (analytics_handleOrderCreated otel) msgs ds (fresh zero_stats) = (effs, c')"
    and "list_all2 (\<lambda>m e. unmarshal_order_created (msg_Data m) = Inr e \<and> 0 \<le> oc_Quantity e) msgs evs"
    and "list_all snd ds" and "{..<length msgs} \<subseteq> fst ` set ds"
  shows "cn_up c' \<and> {..<length msgs} \<subseteq> set (cn_acked c') \<and>
    Stats_Snapshot (cn_app c') =
      \<lparr>sn_OrdersCount = to_int64 (int (length evs)), sn_TotalQuantityReserved = to_int64 (sum_list (map oc_Quantity evs))\<rparr>"
proof -
  have acc: "acceptable (\<lambda>e. 0 \<le> oc_Quantity e) msgs" by (rule acceptable_list_all2 [OF assms(2)])
  have dec: "list_all2 (\<lambda>m e. unmarshal_order_created (msg_Data m) = Inr e) msgs evs"
    by (rule list_all2_mono [OF assms(2)]) simp
  note run = analytics.run_deliveries_handled [OF assms(1) acc]
  have m: "mset (handled msgs ds []) = mset evs" by (rule handled_all [OF assms(3) dec assms(4)])
  from mset_eq_length [OF m] sum_list_handled [OF m, of oc_Quantity] run
  have "Stats_Snapshot (cn_app c') =
      \<lparr>sn_OrdersCount = to_int64 (int (length evs)), sn_TotalQuantityReserved = to_int64 (sum_list (map oc_Quantity evs))\<rparr>"
    by (simp add: fold_note_zero Stats_Snapshot_def)
  moreover have "i \<in> set (cn_acked c')" if "i < length msgs" for i
  proof -
    from that assms(3,4) have "(i, True) \<in> set ds" by (force simp: list_all_iff)
    with analytics.run_deliveries_acks [OF assms(1) acc _ this that] that dec show ?thesis
      by (simp add: list_all2_conv_all_nth)
  qed
  ultimately show ?thesis using run by auto
qed

theorem analytics_totals_exact_witness:
  "let (effs, c) = run_deliveries plain_otel [] (analytics_handleOrderCreated plain_otel) sample_msgs
         [(1, True), (0, True), (1, True)] (fresh zero_stats)
   in Stats_Snapshot (cn_app c) = \<lparr>sn_OrdersCount = 2, sn_TotalQuantityReserved = 7\<rparr>"
proof -
  obtain effs c where r: "run_deliveries plain_otel [] (analytics_handleOrderCreated plain_otel) sample_msgs
         [(1, True), (0, True), (1, True)] (fresh zero_stats) = (effs, c)" by (rule prod.exhaust)
  have "{..<length sample_msgs} \<subseteq> fst ` set [(1 :: nat, True), (0, True), (1, True)]" by (auto simp: less_Suc_eq)
  from analytics_totals_exact [OF r sample_msgs_decode _ this] r show ?thesis
    by (simp add: sample_event_def in_int64_def)
qed

text \<open>
  Whatever is delivered, redelivered, undecodable or left unacknowledged, \<open>/stats\<close> and the two
  Prometheus counters agree, up to the 64-bit wrap-around of the struct, as long as no message
  decodes to a negative quantity; and the process stays up.
\<close>

theorem stats_and_metrics_agree:
  assumes "run_deliveries otel ctx (analytics_handleOrderCreated otel) msgs ds (fresh zero_stats) = (effs, c')"
    and "acceptable (\<lambda>e. 0 \<le> oc_Quantity e) msgs"
  shows "cn_up c' \<and> Stats_Snapshot (cn_app c') =
      \<lparr>sn_OrdersCount = to_int64 (counter_value ''analytics_orders_recorded_total'' effs),
       sn_TotalQuantityReserved = to_int64 (counter_value ''analytics_quantity_reserved_total'' effs)\<rparr>"
  using analytics.run_deliveries_handled [OF assms] by (simp add: fold_note_zero sum_stats_counts Stats_Snapshot_def)

theorem stats_and_metrics_agree_witness:
  "let (effs, c) = run_deliveries plain_otel [] (analytics_handleOrderCreated plain_otel) sample_msgs
         [(0, False), (0, True)] (fresh zero_stats)
   in cn_up c \<and> sn_OrdersCount (Stats_Snapshot (cn_app c)) = to_int64 (counter_value ''analytics_orders_recorded_total'' effs)"
proof -
  obtain effs c where r: "run_deliveries plain_otel [] (analytics_handleOrderCreated plain_otel) sample_msgs
         [(0, False), (0, True)] (fresh zero_stats) = (effs, c)" by (rule prod.exhaust)
  from stats_and_metrics_agree [OF r acceptable_list_all2 [OF sample_msgs_decode]] r show ?thesis by simp
qed

text \<open>
  At-least-once handling: in notification-service, whatever is delivered in whatever order and
  whichever acknowledgements get lost, every message that ends up acknowledged decoded and was handed
  to the handler, and the counter of notifications is exactly the number of hand-overs.
\<close>

theorem acknowledged_was_notified:
  assumes "run_deliveries otel ctx (notification_handleOrderCreated otel) msgs ds (fresh ()) = (effs, c')"
    and "i \<in> set (cn_acked c')"
  shows "(\<exists>e. unmarshal_order_created (msg_Data (msgs ! i)) = Inr e \<and> e \<in> set (handled msgs ds [])) \<and>
    counter_value ''notifications_sent_total'' effs = int (length (handled msgs ds []))"
proof -
  have acc: "acceptable (\<lambda>e. True) msgs" by (simp add: acceptable_def)
  from notification.run_deliveries_acked [OF assms(1) acc _ assms(2)]
    notification.run_deliveries_handled [OF assms(1) acc]
  show ?thesis by (simp add: sum_list_triv)
qed

theorem acknowledged_was_notified_witness:
  "let (effs, c) = run_deliveries plain_otel [] (notification_handleOrderCreated plain_otel) sample_msgs
         [(1, False), (1, True)] (fresh ())
   in counter_value ''notifications_sent_total'' effs = 2 \<and> cn_acked c = [1]"
proof -
  have u: "unmarshal_order_created (msg_Data (event_msg (sample_event ''y'' 4))) = Inr (sample_event ''y'' 4)"
    by (rule unmarshal_event_msg) (simp add: ascii_def in_int64_def)
  obtain effs c where r: "run_deliveries plain_otel [] (notification_handleOrderCreated plain_otel) sample_msgs
         [(1, False), (1, True)] (fresh ()) = (effs, c)" by (rule prod.exhaust)
  have "cn_acked c = [1]"
    using r u by (auto simp: deliver_def on_message_def notification_handleOrderCreated_def Let_def)
  with acknowledged_was_notified [OF r, of 1] r u show ?thesis by simp
qed

text \<open>A process that is down handles nothing.\<close>

lemma run_deliveries_down: "\<not> cn_up c \<Longrightarrow> run_deliveries otel ctx handle msgs ds c = ([], c)"
  by (induction ds) (auto simp: deliver_def Let_def split: prod.splits)

text \<open>What one delivery of a message does that analytics-service cannot handle.\<close>

lemma analytics_deliver_undecoded:
  "unmarshal_order_created (msg_Data (msgs ! i)) = Inl err \<Longrightarrow> cn_up c \<Longrightarrow> i < length msgs \<Longrightarrow> i \<notin> set (cn_acked c) \<Longrightarrow>
     deliver otel ctx (analytics_handleOrderCreated otel) msgs (i, arrives) c =
       ([Log_Error ''failed to decode order created event'' [(''error'', err_text err)]], c)"
  by (simp add: deliver_def on_message_def Let_def)

lemma analytics_deliver_negative:
  "unmarshal_order_created (msg_Data (msgs ! i)) = Inr e \<Longrightarrow> oc_Quantity e < 0 \<Longrightarrow> cn_up c \<Longrightarrow> i < length msgs \<Longrightarrow>
     i \<notin> set (cn_acked c) \<Longrightarrow>
     deliver otel ctx (analytics_handleOrderCreated otel) msgs (i, arrives) c =
       ([Counter_Inc ''analytics_orders_recorded_total'' []],
        c\<lparr>cn_app := \<lparr>st_ordersCount = to_int64 (st_ordersCount (cn_app c) + 1),
                       st_totalQuantity = to_int64 (st_totalQuantity (cn_app c) + oc_Quantity e)\<rparr>, cn_up := False\<rparr>)"
  by (simp add: deliver_def on_message_def analytics_handleOrderCreated_def Stats_Record_def prom_Add_def Let_def)

lemma analytics_unhandled_unacked:
  assumes "\<And>e. unmarshal_order_created (msg_Data (msgs ! i)) = Inr e \<Longrightarrow> oc_Quantity e < 0"
  shows "run_deliveries otel ctx (analytics_handleOrderCreated otel) msgs ds c0 = (effs, c) \<Longrightarrow>
    i \<notin> set (cn_acked c0) \<Longrightarrow> i \<notin> set (cn_acked c)"
proof (induction ds arbitrary: c0 effs)
  case (Cons d ds)
  obtain j arrives where d: "d = (j, arrives)" by force
  obtain e1 c1 where s: "deliver otel ctx (analytics_handleOrderCreated otel) msgs d c0 = (e1, c1)" by force
  obtain e2 where "run_deliveries otel ctx (analytics_handleOrderCreated otel) msgs ds c1 = (e2, c)"
    using Cons.prems(1) s by (auto split: prod.splits)
  moreover have "i \<notin> set (cn_acked c1)"
    using s d Cons.prems(2) assms
    by (auto simp: deliver_def on_message_def analytics_handleOrderCreated_def Stats_Record_def prom_Add_def Let_def
        split: if_splits sum.splits)
  ultimately show ?case using Cons.IH by blast
qed simp

text \<open>
  C30. A message analytics-service cannot handle is never acknowledged, whatever is delivered around it and
  from whatever state the consumer starts. While the process is up, each further delivery of one that does
  not decode logs the error and changes nothing, neither totals nor acknowledgements nor counters; the first
  delivery of one that carries a negative quantity makes Prometheus' \<open>Add\<close> panic and ends the process,
  after which nothing is handled any more.
\<close>

theorem unhandled_never_acknowledged:
  assumes "run_deliveries otel ctx (analytics_handleOrderCreated otel) msgs ds c0 = (effs, c)"
    and "i < length msgs" and "i \<notin> set (cn_acked c0)"
  shows "case unmarshal_order_created (msg_Data (msgs ! i)) of
      Inl err \<Rightarrow> i \<notin> set (cn_acked c) \<and>
        (cn_up c \<longrightarrow> deliver otel ctx (analytics_handleOrderCreated otel) msgs (i, arrives) c =
          ([Log_Error ''failed to decode order created event'' [(''error'', err_text err)]], c))
    | Inr e \<Rightarrow> oc_Quantity e < 0 \<longrightarrow> i \<notin> set (cn_acked c) \<and>
        (let (effs', c') = deliver otel ctx (analytics_handleOrderCreated otel) msgs (i, arrives) c
         in \<not> cn_up c' \<and> cn_acked c' = cn_acked c \<and>
            counter_value ''analytics_quantity_reserved_total'' effs' = 0 \<and>
            run_deliveries otel ctx (analytics_handleOrderCreated otel) msgs ds' c' = ([], c'))"
proof (cases "unmarshal_order_created (msg_Data (msgs ! i))")
  case (Inl err)
  with analytics_unhandled_unacked [OF _ assms(1,3)] have "i \<notin> set (cn_acked c)" by simp
  with Inl show ?thesis by (simp add: analytics_deliver_undecoded [OF Inl _ assms(2)])
next
  case (Inr e)
  show ?thesis
  proof (cases "oc_Quantity e < 0")
    case True
    with Inr analytics_unhandled_unacked [OF _ assms(1,3)] have un: "i \<notin> set (cn_acked c)" by simp
    show ?thesis
    proof (cases "cn_up c")
      case up: True
      with Inr True un show ?thesis
        by (simp add: analytics_deliver_negative [OF Inr True up assms(2) un] run_deliveries_down)
    next
      case False
      with Inr True un show ?thesis by (simp add: deliver_skips run_deliveries_down)
    qed
  qed (simp add: Inr)
qed

theorem unhandled_never_acknowledged_witness:
  "let (effs, c) = run_deliveries plain_otel [] (analytics_handleOrderCreated plain_otel)
         [event_msg (sample_event ''y'' 4), event_msg (sample_event ''x'' (- 1))] [(0, True)] (fresh zero_stats);
       (effs', c') = deliver plain_otel [] (analytics_handleOrderCreated plain_otel)
         [event_msg (sample_event ''y'' 4), event_msg (sample_event ''x'' (- 1))] (1, True) c
   in \<not> cn_up c' \<and> 1 \<notin> set (cn_acked c')"
proof -
  let ?e = "sample_event ''x'' (- 1)" and ?ms = "[event_msg (sample_event ''y'' 4), event_msg (sample_event ''x'' (- 1))]"
  have u: "unmarshal_order_created (msg_Data (event_msg ?e)) = Inr ?e"
    by (rule unmarshal_event_msg) (simp add: ascii_def in_int64_def)
  have q: "oc_Quantity ?e = - 1" by (simp add: sample_event_def)
  obtain effs c where r: "run_deliveries plain_otel [] (analytics_handleOrderCreated plain_otel) ?ms [(0, True)] (fresh zero_stats) = (effs, c)"
    by (rule prod.exhaust)
  from unhandled_never_acknowledged [OF r, of 1 True] u q r show ?thesis by (auto simp: Let_def split: prod.splits)
qed

text \<open>
  A lost acknowledgement makes the totals overcount: the message is delivered again and recorded
  again, so one order of three units shows as two orders and six units.
\<close>

theorem redelivery_counts_twice:
  "let (effs, c) = run_deliveries plain_otel [] (analytics_handleOrderCreated plain_otel)
         [event_msg (sample_event ''x'' 3)] [(0, False), (0, True)] (fresh zero_stats)
   in Stats_Snapshot (cn_app c) = \<lparr>sn_OrdersCount = 2, sn_TotalQuantityReserved = 6\<rparr>"
proof -
  let ?e = "sample_event ''x'' 3"
  have u: "unmarshal_order_created (msg_Data (event_msg ?e)) = Inr ?e"
    by (rule unmarshal_event_msg) (simp add: ascii_def in_int64_def)
  have q: "oc_Quantity ?e = 3" by (simp add: sample_event_def)
  show ?thesis
    using u q by (simp add: deliver_def on_message_def analytics_handleOrderCreated_def Stats_Record_def prom_Add_def
        zero_stats_def fresh_def Stats_Snapshot_def in_int64_def Let_def)
qed

text \<open>
  \<open>GET /stats\<close> answers 200 with a document from which a client reads the totals back, and
  changes nothing.
\<close>

theorem stats_endpoint:
  assumes "req_Method r = ''GET''" and "req_Path r = ''/stats''"
    and "in_int64 (st_ordersCount s)" and "in_int64 (st_totalQuantity s)"
    and "analytics_http connected scrape env r s = (r', calls, effs, s')"
  shows "sent_status calls = 200 \<and> s' = s \<and>
    parse_first (sent_body calls) = Some (JObj
      [(''orders_count'', JNum (Itoa (st_ordersCount s))), (''total_quantity_reserved'', JNum (Itoa (st_totalQuantity s)))])"
proof -
  have "path_segs ''/stats'' = [''stats'']" by (rule path_segs_last) simp_all
  let ?j = "snapshot_json (Stats_Snapshot s)"
  let ?rts = "analytics_routes connected scrape"
  have "\<exists>r1. ServeMux ?rts r s = (r1, WriteJSON 200 (Some ?j), [], s)"
    using assms(1,2) \<open>path_segs ''/stats'' = [''stats'']\<close>
    by (simp add: ServeMux_def find_route_def route_matches_def analytics_routes_def StatsHandler_def Let_def)
  then obtain r1 where m: "ServeMux ?rts r s = (r1, WriteJSON 200 (Some ?j), [], s)" by blast
  from handler_chain_calls [OF m, of env] assms(5)
  have c: "calls = WriteJSON 200 (Some ?j)" "s' = s" by (auto simp: analytics_http_def)
  have "plain ?j" using assms(3,4) by (simp add: snapshot_json_def Stats_Snapshot_def ascii_def)
  from parse_first_render [OF this, of "[CHR 0x0A]"] c show ?thesis
    by (simp add: WriteJSON_def snapshot_json_def Stats_Snapshot_def)
qed

theorem stats_endpoint_witness:
  "let (r', calls, effs, s') = analytics_http (\<lambda>s. True) (\<lambda>r s. ([], [], s)) \<lparr>env_ms = 1, env_trace = None\<rparr>
         \<lparr>req_Method = ''GET'', req_Path = ''/stats'', req_Pattern = [], req_PathValues = [], req_Body = []\<rparr>
         \<lparr>st_ordersCount = 2, st_totalQuantity = 9\<rparr>
   in sent_status calls = 200 \<and> s' = \<lparr>st_ordersCount = 2, st_totalQuantity = 9\<rparr>"
proof -
  let ?r = "\<lparr>req_Method = ''GET'', req_Path = ''/stats'', req_Pattern = [], req_PathValues = [], req_Body = []\<rparr>"
  let ?s = "\<lparr>st_ordersCount = 2, st_totalQuantity = 9\<rparr>"
  obtain r' calls effs s' where r: "analytics_http (\<lambda>s. True) (\<lambda>r s. ([], [], s)) \<lparr>env_ms = 1, env_trace = None\<rparr> ?r ?s
      = (r', calls, effs, s')" by (rule prod_cases4)
  have "in_int64 (st_ordersCount ?s)" "in_int64 (st_totalQuantity ?s)" by (simp_all add: in_int64_def)
  from stats_endpoint [OF _ _ this r] r show ?thesis by simp
qed

text \<open>What a header holds after the propagator has written into it: for each key, the last value.\<close>

lemma fold_Set_map_of:
  "carrier_Get (fold (\<lambda>(k, v). carrier_Set k v) xs h) k =
     (case map_of (rev xs) k of Some v \<Rightarrow> v | None \<Rightarrow> carrier_Get h k)"
  by (induction xs arbitrary: h) (auto simp: carrier_Get_Set map_add_def split: option.splits)

lemma carrier_Get_Nil: "carrier_Get [] k = []"
  by (simp add: carrier_Get_def)

text \<open>
  C24. Round trip over the broker: an event that order-service stores as \<open>jsonb\<close> and publishes while the
  broker answers and has not seen its id becomes one message at the end of the stream, with the id;
  the consumer's callback hands its handler that very event, in a span whose parent was extracted
  from exactly the trace headers that the publisher's span injected.
\<close>

theorem event_and_trace_cross_the_broker:
  assumes "event_ok e" and "jsonb_faithful jsonb" and "order_created_json e = Some j"
    and "weather b = []" and "w3c otel" and "i \<notin> set (recent b)"
    and "Publish otel pctx SubjectCreated (jsonb j) i b = (r, b')"
  shows "\<exists>m. r = None \<and> stream b' = stream b @ [m] \<and> msg_id m = i \<and> msg_Subject m = SubjectCreated \<and>
    on_message otel ctx handle m s =
      (let injected = map_of (rev (ot_Inject otel (ot_Start otel pctx (''publish '' @ SubjectCreated))));
           get = (\<lambda>k. case injected k of Some v \<Rightarrow> v | None \<Rightarrow> if k = ''Nats-Msg-Id'' then i else [])
       in case handle (ot_Start otel (ot_Extract otel ctx get) (''process '' @ SubjectCreated)) e s of
            (None, effs, s') \<Rightarrow> (None, effs, s')
          | (Some (Some err), effs, s') \<Rightarrow>
              (Some Nak, effs @ [Log_Error ''failed to handle order created event''
                 [(''order_id'', oc_OrderID e), (''error'', err_text err)]], s')
          | (Some None, effs, s') \<Rightarrow> (Some Ack, effs, s'))"
proof -
  define xs where "xs = ot_Inject otel (ot_Start otel pctx (''publish '' @ SubjectCreated))"
  let ?h = "fold (\<lambda>(k, v). carrier_Set k v) xs (carrier_Set ''Nats-Msg-Id'' i [])"
  let ?m = "\<lparr>msg_Subject = SubjectCreated, msg_Data = jsonb j, msg_Header = ?h\<rparr>"
  have get: "carrier_Get ?h = (\<lambda>k. case map_of (rev xs) k of Some v \<Rightarrow> v | None \<Rightarrow> if k = ''Nats-Msg-Id'' then i else [])"
    by (rule ext) (simp only: fold_Set_map_of carrier_Get_Set carrier_Get_Nil)
  have "fst ` set xs \<subseteq> {''traceparent'', ''tracestate'', ''baggage''}" using assms(5) by (simp add: w3c_def xs_def)
  then have "''Nats-Msg-Id'' \<notin> fst ` set xs" by auto
  then have id: "msg_id ?m = i" by (simp add: msg_id_def fold_Set_Get carrier_Get_Set)
  have "js_PublishMsg ?m b = (None, b\<lparr>stream := stream b @ [?m], recent := i # recent b\<rparr>)"
    using assms(4,6) id by (simp add: js_PublishMsg_def stream_store_def)
  with assms(7) have "r = None" "stream b' = stream b @ [?m]" by (auto simp: Publish_def Let_def xs_def)
  moreover have "unmarshal_order_created (jsonb j) = Inr e"
    using event_decodes [OF assms(1,2)] assms(3) by auto
  ultimately show ?thesis unfolding xs_def [symmetric] using id
    by (intro exI [of _ ?m]) (simp add: on_message_def get Let_def)
qed

theorem event_and_trace_cross_the_broker_witness:
  "\<exists>j m b'. Publish plain_otel ''t7'' SubjectCreated (render j) ''outbox-1'' \<lparr>stream = [], recent = [], weather = []\<rparr> = (None, b') \<and>
     stream b' = [m] \<and> on_message plain_otel [] (\<lambda>c e s. (Some None, [], s @ [(c, e)])) m [] =
       (Some Ack, [], [(''t7'', sample_event ''x'' 3)])"
proof -
  let ?b = "\<lparr>stream = [], recent = [], weather = []\<rparr>"
  have ok: "event_ok (sample_event ''x'' 3)" by (simp add: ascii_def in_int64_def)
  from event_decodes [OF this jsonb_faithful_render] obtain j where j: "order_created_json (sample_event ''x'' 3) = Some j" by blast
  have w: "w3c plain_otel" by (auto simp: w3c_def plain_otel_def)
  obtain r b' where p: "Publish plain_otel ''t7'' SubjectCreated (render j) ''outbox-1'' ?b = (r, b')" by force
  from event_and_trace_cross_the_broker [OF ok jsonb_faithful_render j _ w _ p, of "[]"
      "\<lambda>c e s. (Some None, [], s @ [(c, e)])" "[]"] obtain m where
    "r = None" "stream b' = [m]" "on_message plain_otel [] (\<lambda>c e s. (Some None, [], s @ [(c, e)])) m [] =
       (Some Ack, [], [(''t7'', sample_event ''x'' 3)])"
    by (auto simp: plain_otel_def)
  with p show ?thesis by blast
qed

end
