(* ===== verification/Gateway.thy ===== *)
theory Gateway
  imports OrderHandler Consumers
begin

text \<open>
  api-gateway: the reverse proxies (\<open>proxy/proxy.go\<close>), the health check and the route table of
  \<open>main.go\<close>. Of the standard library, \<open>httputil\<close>'s single-host proxy is modelled; \<open>url.Parse\<close>, the \<open>%q\<close>
  verb and the file server are parameters, and so is \<open>dial\<close>, the server that answers at a URL. A
  round trip works, or loses the request or the response; a response arrives whole or not at all.
  Shown: the gateway is transparent, answers 502 when it must, and brings each request it proxies to
  the handler of the service it is meant for.
\<close>

section \<open>The single-host reverse proxy\<close>

record url =
  url_Scheme :: string
  url_Host :: string
  url_Path :: string

record 'w gateway_world =
  gw_peer :: 'w
  gw_net :: "io list"

definition singleJoiningSlash :: "string \<Rightarrow> string \<Rightarrow> string" where
  "singleJoiningSlash a b =
     (let aslash = (a \<noteq> [] \<and> last a = CHR ''/''); bslash = (b \<noteq> [] \<and> hd b = CHR ''/'')
      in if aslash \<and> bslash then a @ tl b
         else if \<not> aslash \<and> \<not> bslash then a @ ''/'' @ b
         else a @ b)"

text \<open>The header calls that come before the status line.\<close>

fun sent_headers :: "rw_call list \<Rightarrow> rw_call list" where
  "sent_headers [] = []"
| "sent_headers (SetHeader k v # cs) = SetHeader k v # sent_headers cs"
| "sent_headers (WriteHeader n # cs) = (if 100 \<le> n \<and> n \<le> 199 \<and> n \<noteq> 101 then sent_headers cs else [])"
| "sent_headers (Write b # cs) = []"

definition copy_response :: "rw_call list \<Rightarrow> rw_call list" where
  "copy_response calls = sent_headers calls @ [WriteHeader (sent_status calls), Write (sent_body calls)]"

text \<open>The backend gets a request of its own: the joined path, and no pattern yet.\<close>

definition outgoing :: "url \<Rightarrow> request \<Rightarrow> request" where
  "outgoing u r = r\<lparr>req_Path := singleJoiningSlash (url_Path u) (req_Path r), req_Pattern := [], req_PathValues := []\<rparr>"

abbreviation refused :: go_error where
  "refused \<equiv> Driver_Error ''connection refused''"

abbreviation broken :: go_error where
  "broken \<equiv> Driver_Error ''EOF''"

definition ReverseProxy ::
  "(url \<Rightarrow> 'w server option) \<Rightarrow> url \<Rightarrow> (request \<Rightarrow> go_error \<Rightarrow> rw_call list \<times> effect list) \<Rightarrow>
   'w gateway_world endpoint" where
  "ReverseProxy dial u ErrorHandler r g =
     (let outreq = outgoing u r;
          failed = (\<lambda>err g'. let (calls, effs) = ErrorHandler outreq err in (calls, effs, g'))
      in case dial u of
           None \<Rightarrow> failed refused g
         | Some server \<Rightarrow>
             (let (x, rest) = next_io (gw_net g);
                  (r', calls, effs, w') = server outreq (gw_peer g)
              in case x of
                   Works \<Rightarrow> (copy_response calls, [], \<lparr>gw_peer = w', gw_net = rest\<rparr>)
                 | Fails_before \<Rightarrow> failed broken (g\<lparr>gw_net := rest\<rparr>)
                 | Fails_after \<Rightarrow> failed broken \<lparr>gw_peer = w', gw_net = rest\<rparr>))"

section \<open>proxy.go\<close>

definition proxy_ErrorHandler :: "string \<Rightarrow> request \<Rightarrow> go_error \<Rightarrow> rw_call list \<times> effect list" where
  "proxy_ErrorHandler target r err =
     (WriteError 502 ''upstream service unavailable'',
      [Log_Error ''proxy error'' [(''target'', target), (''path'', req_Path r), (''error'', err_text err)]])"

definition NewReverseProxy ::
  "(string \<Rightarrow> string) \<Rightarrow> (string \<Rightarrow> go_error + url) \<Rightarrow> (url \<Rightarrow> 'w server option) \<Rightarrow> string \<Rightarrow>
   go_error + 'w gateway_world endpoint" where
  "NewReverseProxy fmt_q url_Parse dial target =
     (case url_Parse target of
        Inl err \<Rightarrow> Inl (Wrapped (''parse target url '' @ fmt_q target) err)
      | Inr targetURL \<Rightarrow> Inr (ReverseProxy dial targetURL (proxy_ErrorHandler target)))"

section \<open>The server of main.go\<close>

definition gateway_HealthHandler :: "'s endpoint" where
  "gateway_HealthHandler r s = (WriteJSON 200 (Some (JObj [(''status'', JStr ''ok'')])), [], s)"

definition gateway_routes ::
  "'s endpoint \<Rightarrow> 's endpoint \<Rightarrow> 's endpoint \<Rightarrow> 's endpoint \<Rightarrow> 's endpoint \<Rightarrow> 's route list" where
  "gateway_routes orderProxy inventoryProxy analyticsProxy scrape files =
     [\<lparr>rt_Text = ''GET /healthz'', rt_Method = Some ''GET'', rt_Segs = [Lit ''healthz''],
       rt_Handler = gateway_HealthHandler\<rparr>,
      \<lparr>rt_Text = ''GET /metrics'', rt_Method = Some ''GET'', rt_Segs = [Lit ''metrics''], rt_Handler = scrape\<rparr>,
      \<lparr>rt_Text = ''POST /orders'', rt_Method = Some ''POST'', rt_Segs = [Lit ''orders''], rt_Handler = orderProxy\<rparr>,
      \<lparr>rt_Text = ''GET /orders/{id}'', rt_Method = Some ''GET'', rt_Segs = [Lit ''orders'', Wild ''id''],
       rt_Handler = orderProxy\<rparr>,
      \<lparr>rt_Text = ''GET /items/{sku}'', rt_Method = Some ''GET'', rt_Segs = [Lit ''items'', Wild ''sku''],
       rt_Handler = inventoryProxy\<rparr>,
      \<lparr>rt_Text = ''POST /items/{sku}/restock'', rt_Method = Some ''POST'',
       rt_Segs = [Lit ''items'', Wild ''sku'', Lit ''restock''], rt_Handler = inventoryProxy\<rparr>,
      \<lparr>rt_Text = ''GET /stats'', rt_Method = Some ''GET'', rt_Segs = [Lit ''stats''], rt_Handler = analyticsProxy\<rparr>,
      \<lparr>rt_Text = ''/'', rt_Method = None, rt_Segs = [Multi], rt_Handler = files\<rparr>]"

definition gateway_http ::
  "'s endpoint \<Rightarrow> 's endpoint \<Rightarrow> 's endpoint \<Rightarrow> 's endpoint \<Rightarrow> 's endpoint \<Rightarrow> req_env \<Rightarrow> 's server" where
  "gateway_http orderProxy inventoryProxy analyticsProxy scrape files env =
     handler_chain env (gateway_routes orderProxy inventoryProxy analyticsProxy scrape files)"

section \<open>What the proxy does\<close>

lemma sent_headers_skip:
  "sent_status (sent_headers cs @ ds) = sent_status ds" "sent_body (sent_headers cs @ ds) = sent_body ds"
  by (induction cs rule: sent_headers.induct) auto

lemma copy_response_faithful:
  "200 \<le> sent_status cs \<Longrightarrow> sent_status (copy_response cs) = sent_status cs"
  "sent_body (copy_response cs) = sent_body cs"
  by (simp_all add: copy_response_def sent_headers_skip)

lemma one_status_copy_response: "200 \<le> sent_status cs \<Longrightarrow> one_status (copy_response cs)"
proof -
  have "one_status (sent_headers cs @ [WriteHeader n, Write b])" if "200 \<le> n" for n b
    using that by (induction cs rule: sent_headers.induct) auto
  then show "200 \<le> sent_status cs \<Longrightarrow> one_status (copy_response cs)" by (simp add: copy_response_def)
qed

lemma joining_root: "path \<noteq> [] \<Longrightarrow> hd path = CHR ''/'' \<Longrightarrow> singleJoiningSlash [] path = path"
  by (simp add: singleJoiningSlash_def)

section \<open>Routing\<close>

datatype backend = Orders | Inventory | Analytics

text \<open>Which requests go to which service.\<close>

fun proxied :: "string \<Rightarrow> string list \<Rightarrow> backend option" where
  "proxied m [a] =
     (if m = ''POST'' \<and> a = ''orders'' then Some Orders
      else if (m = ''GET'' \<or> m = ''HEAD'') \<and> a = ''stats'' then Some Analytics else None)"
| "proxied m [a, x] =
     (if (m = ''GET'' \<or> m = ''HEAD'') \<and> x \<noteq> ''/'' then
        (if a = ''orders'' then Some Orders else if a = ''items'' then Some Inventory else None)
      else None)"
| "proxied m [a, x, c] =
     (if m = ''POST'' \<and> a = ''items'' \<and> x \<noteq> ''/'' \<and> c = ''restock'' then Some Inventory else None)"
| "proxied m _ = None"

text \<open>The pattern a proxied request matches.\<close>

definition proxied_pattern :: "string \<Rightarrow> string list \<Rightarrow> string" where
  "proxied_pattern m segs =
     (case segs of
        [a] \<Rightarrow> (if m = ''POST'' then ''POST /orders'' else ''GET /stats'')
      | [a, x] \<Rightarrow> (if a = ''orders'' then ''GET /orders/{id}'' else ''GET /items/{sku}'')
      | _ \<Rightarrow> ''POST /items/{sku}/restock'')"

lemma proxied_cases:
  assumes "proxied m segs = Some b"
  obtains (create) "b = Orders" "m = ''POST''" "segs = [''orders'']"
  | (order) x where "b = Orders" "m = ''GET'' \<or> m = ''HEAD''" "segs = [''orders'', x]" "x \<noteq> ''/''"
  | (item) x where "b = Inventory" "m = ''GET'' \<or> m = ''HEAD''" "segs = [''items'', x]" "x \<noteq> ''/''"
  | (restock) x where "b = Inventory" "m = ''POST''" "segs = [''items'', x, ''restock'']" "x \<noteq> ''/''"
  | (stats) "b = Analytics" "m = ''GET'' \<or> m = ''HEAD''" "segs = [''stats'']"
  using assms by (cases "(m, segs)" rule: proxied.cases) (auto split: if_splits)

lemmas route_defs = find_route_def route_matches_def proxied_pattern_def

lemma gateway_finds:
  assumes "proxied m segs = Some b"
  shows "\<exists>rt. find_route (gateway_routes op ip ap scrape files) m segs = Some rt \<and>
    rt_Text rt = proxied_pattern m segs \<and>
    rt_Handler rt = (case b of Orders \<Rightarrow> op | Inventory \<Rightarrow> ip | Analytics \<Rightarrow> ap)"
  using assms
proof (cases rule: proxied_cases)
  case create
  then show ?thesis by (simp add: route_defs gateway_routes_def)
next
  case (order x)
  then show ?thesis by (elim disjE) (simp_all add: route_defs gateway_routes_def)
next
  case (item x)
  then show ?thesis by (elim disjE) (simp_all add: route_defs gateway_routes_def)
next
  case (restock x)
  then show ?thesis by (simp add: route_defs gateway_routes_def)
next
  case stats
  then show ?thesis by (elim disjE) (simp_all add: route_defs gateway_routes_def)
qed

text \<open>What the middleware makes of a route that is found.\<close>

lemma handler_chain_found:
  assumes "find_route rts (req_Method r) (path_segs (req_Path r)) = Some rt"
    and "\<And>r'. req_Method r' = req_Method r \<Longrightarrow> req_Path r' = req_Path r \<Longrightarrow> req_Body r' = req_Body r \<Longrightarrow>
      rt_Handler rt r' s = (calls, effs, s')"
  shows "\<exists>r' more. handler_chain env rts r s = (r', calls, effs @ more, s') \<and> req_Pattern r' = rt_Text rt \<and>
    req_Method r' = req_Method r \<and>
    Counter_Inc ''http_requests_total'' [req_Method r, path_label r', Itoa (rec_status (record_calls calls))] \<in> set more"
proof -
  let ?r = "r\<lparr>req_Pattern := rt_Text rt, req_PathValues := the (match_segs (rt_Segs rt) (path_segs (req_Path r)))\<rparr>"
  have "rt_Handler rt ?r s = (calls, effs, s')" by (rule assms(2)) simp_all
  with assms(1) have m: "ServeMux rts r s = (?r, calls, effs, s')"
    by (simp add: ServeMux_def Let_def)
  show ?thesis unfolding handler_chain_eq m by (simp add: Let_def)
qed

section \<open>Properties\<close>

abbreviation service_proxy :: "(url \<Rightarrow> 'w server option) \<Rightarrow> (backend \<Rightarrow> string) \<Rightarrow> (backend \<Rightarrow> url) \<Rightarrow> backend \<Rightarrow> 'w gateway_world endpoint" where
  "service_proxy dial target u b \<equiv> ReverseProxy dial (u b) (proxy_ErrorHandler (target b))"

abbreviation service_gateway ::
  "(url \<Rightarrow> 'w server option) \<Rightarrow> (backend \<Rightarrow> string) \<Rightarrow> (backend \<Rightarrow> url) \<Rightarrow> 'w gateway_world endpoint \<Rightarrow>
   'w gateway_world endpoint \<Rightarrow> req_env \<Rightarrow> 'w gateway_world server" where
  "service_gateway dial target u \<equiv> gateway_http (service_proxy dial target u Orders)
     (service_proxy dial target u Inventory) (service_proxy dial target u Analytics)"

lemma gateway_runs_proxy:
  assumes "proxied (req_Method r) (path_segs (req_Path r)) = Some b"
    and "\<And>r'. req_Method r' = req_Method r \<Longrightarrow> req_Path r' = req_Path r \<Longrightarrow> req_Body r' = req_Body r \<Longrightarrow>
      service_proxy dial target u b r' g = (calls, effs, g')"
  shows "\<exists>r' more. service_gateway dial target u scrape files env r g = (r', calls, effs @ more, g') \<and>
    req_Pattern r' = proxied_pattern (req_Method r) (path_segs (req_Path r)) \<and> req_Method r' = req_Method r \<and>
    Counter_Inc ''http_requests_total'' [req_Method r, path_label r', Itoa (rec_status (record_calls calls))] \<in> set more"
proof -
  obtain rt where
    rt: "find_route (gateway_routes (service_proxy dial target u Orders) (service_proxy dial target u Inventory)
        (service_proxy dial target u Analytics) scrape files) (req_Method r) (path_segs (req_Path r)) = Some rt"
      "rt_Text rt = proxied_pattern (req_Method r) (path_segs (req_Path r))"
      "rt_Handler rt = service_proxy dial target u b"
    using gateway_finds [OF assms(1), of "service_proxy dial target u Orders" "service_proxy dial target u Inventory"
        "service_proxy dial target u Analytics" scrape files]
    by (cases b) auto
  from handler_chain_found [OF rt(1), of g calls effs g' env] rt(2,3) assms(2)
  show ?thesis by (simp add: gateway_http_def)
qed

text \<open>What a proxied route answers when the round trip works.\<close>

lemma proxy_passes_on:
  assumes "proxied (req_Method r) (path_segs (req_Path r)) = Some b"
    and "req_Path r = CHR ''/'' # p" and "url_Path (u b) = []"
    and "dial (u b) = Some server" and "fst (next_io (gw_net g)) = Works"
    and "server (r\<lparr>req_Pattern := [], req_PathValues := []\<rparr>) (gw_peer g) = (r1, answer, effs1, w1)"
    and "200 \<le> sent_status answer"
    and "service_gateway dial target u scrape files env r g = (r', calls, effs, g')"
  shows "sent_status calls = sent_status answer \<and> sent_body calls = sent_body answer \<and> gw_peer g' = w1 \<and>
    Counter_Inc ''http_requests_total''
      [req_Method r, proxied_pattern (req_Method r) (path_segs (req_Path r)), Itoa (sent_status answer)] \<in> set effs"
proof -
  let ?g = "\<lparr>gw_peer = w1, gw_net = snd (next_io (gw_net g))\<rparr>"
  have out: "outgoing (u b) r0 = r\<lparr>req_Pattern := [], req_PathValues := []\<rparr>"
    if "req_Method r0 = req_Method r" "req_Path r0 = req_Path r" "req_Body r0 = req_Body r" for r0
    using that assms(2,3) by (cases r0, cases r) (simp add: outgoing_def joining_root)
  have run: "service_proxy dial target u b r0 g = (copy_response answer, [], ?g)"
    if "req_Method r0 = req_Method r" "req_Path r0 = req_Path r" "req_Body r0 = req_Body r" for r0
    using assms(4-6) out [OF that] by (auto simp: ReverseProxy_def Let_def split: prod.splits)
  obtain r2 more where chain: "service_gateway dial target u scrape files env r g = (r2, copy_response answer, [] @ more, ?g)"
    and r2: "req_Pattern r2 = proxied_pattern (req_Method r) (path_segs (req_Path r))"
    and m: "Counter_Inc ''http_requests_total''
        [req_Method r, path_label r2, Itoa (rec_status (record_calls (copy_response answer)))] \<in> set more"
    using gateway_runs_proxy [where r = r and b = b and g = g and dial = dial and target = target and u = u
        and scrape = scrape and files = files and env = env, OF assms(1) run] by blast
  have "path_label r2 = proxied_pattern (req_Method r) (path_segs (req_Path r))"
    unfolding path_label_def r2 by (simp add: proxied_pattern_def split: list.splits)
  moreover have "rec_status (record_calls (copy_response answer)) = sent_status answer"
    using recorder_sees_sent_status [OF one_status_copy_response] copy_response_faithful(1) assms(7) by simp
  ultimately show ?thesis using chain m assms(7,8) by (simp add: copy_response_faithful)
qed

text \<open>
  C32. The gateway is transparent: for each of the five routes it proxies, when the round trip works
  the client gets the status and the body with which the service answers that very request, the
  service's world changes as that answer changes it, and the gateway counts the status it passed on.
\<close>

theorem gateway_transparent:
  assumes "proxied (req_Method r) (path_segs (req_Path r)) = Some b"
    and "req_Path r = CHR ''/'' # p" and "url_Path (u b) = []"
    and "dial (u b) = Some server" and "fst (next_io (gw_net g)) = Works"
    and "server (r\<lparr>req_Pattern := [], req_PathValues := []\<rparr>) (gw_peer g) = (r1, answer, effs1, w1)"
    and "200 \<le> sent_status answer"
    and "service_gateway dial target u scrape files env r g = (r', calls, effs, g')"
  shows "sent_status calls = sent_status answer \<and> sent_body calls = sent_body answer \<and> gw_peer g' = w1 \<and>
    Counter_Inc ''http_requests_total''
      [req_Method r, proxied_pattern (req_Method r) (path_segs (req_Path r)), Itoa (sent_status answer)] \<in> set effs"
  by (rule proxy_passes_on [OF assms])

text \<open>A backend that counts the requests it answers, for the witnesses.\<close>

definition echo_server :: "nat server" where
  "echo_server r w = (r, WriteJSON 201 (Some (JStr (req_Body r))), [], w + 1)"

definition sample_url :: "backend \<Rightarrow> url" where
  "sample_url b = \<lparr>url_Scheme = ''http'', url_Host = ''localhost'', url_Path = []\<rparr>"

abbreviation sample_post :: request where
  "sample_post \<equiv> \<lparr>req_Method = ''POST'', req_Path = ''/orders'', req_Pattern = [], req_PathValues = [], req_Body = ''x''\<rparr>"

lemma sample_post_proxied: "proxied (req_Method sample_post) (path_segs (req_Path sample_post)) = Some Orders"
proof -
  have "path_segs ''/orders'' = [''orders'']" by (rule path_segs_last) simp_all
  then show ?thesis by simp
qed

abbreviation sample_gateway :: "(url \<Rightarrow> nat server option) \<Rightarrow> nat gateway_world server" where
  "sample_gateway dial \<equiv> service_gateway dial (\<lambda>b. ''http://localhost'') sample_url (\<lambda>r g. ([], [], g)) (\<lambda>r g. ([], [], g))
     \<lparr>env_ms = 1, env_trace = None\<rparr>"

theorem gateway_transparent_witness:
  "let (r', calls, effs, g') = sample_gateway (\<lambda>u. Some echo_server) sample_post \<lparr>gw_peer = 4, gw_net = [Works]\<rparr>
   in sent_status calls = 201 \<and> gw_peer g' = 5"
proof -
  let ?g = "\<lparr>gw_peer = 4, gw_net = [Works]\<rparr>"
  obtain r' calls effs g' where r: "sample_gateway (\<lambda>u. Some echo_server) sample_post ?g = (r', calls, effs, g')"
    by (rule prod_cases4)
  have "url_Path (sample_url Orders) = []" by (simp add: sample_url_def)
  moreover have "echo_server (sample_post\<lparr>req_Pattern := [], req_PathValues := []\<rparr>) (gw_peer ?g) =
      (sample_post, WriteJSON 201 (Some (JStr ''x'')), [], 5)" by (simp add: echo_server_def)
  ultimately show ?thesis
    using gateway_transparent [OF sample_post_proxied _ _ _ _ _ _ r] r by simp
qed

text \<open>
  C33. When no server answers at the target, or the request or the response is lost, the client of a
  proxied route gets 502 with the error message, the failure is logged with the target, and the
  service's world is as it was unless only the response was lost.
\<close>

theorem gateway_bad_gateway:
  assumes "proxied (req_Method r) (path_segs (req_Path r)) = Some b"
    and "dial (u b) = None \<or> fst (next_io (gw_net g)) \<noteq> Works"
    and "service_gateway dial target u scrape files env r g = (r', calls, effs, g')"
  shows "sent_status calls = 502 \<and>
    parse_first (sent_body calls) = Some (JObj [(''error'', JStr ''upstream service unavailable'')]) \<and>
    (\<exists>path err. Log_Error ''proxy error'' [(''target'', target b), (''path'', path), (''error'', err)] \<in> set effs) \<and>
    (dial (u b) = None \<or> fst (next_io (gw_net g)) = Fails_before \<longrightarrow> gw_peer g' = gw_peer g)"
proof -
  let ?calls = "WriteError 502 ''upstream service unavailable''"
  let ?log = "\<lambda>path err. Log_Error ''proxy error'' [(''target'', target b), (''path'', path), (''error'', err_text err)]"
  define err where "err = (if dial (u b) = None then refused else broken)"
  define path where "path = singleJoiningSlash (url_Path (u b)) (req_Path r)"
  define g1 where "g1 = snd (snd (service_proxy dial target u b r g))"
  have run: "service_proxy dial target u b r0 g = (?calls, [?log path err], snd (snd (service_proxy dial target u b r0 g)))"
    and same: "snd (snd (service_proxy dial target u b r0 g)) = g1"
    if "req_Method r0 = req_Method r" "req_Path r0 = req_Path r" "req_Body r0 = req_Body r" for r0
  proof -
    have out: "outgoing (u b) r0 = outgoing (u b) r" using that by (cases r0, cases r) (simp add: outgoing_def)
    show "snd (snd (service_proxy dial target u b r0 g)) = g1"
      by (simp add: g1_def ReverseProxy_def out Let_def split: prod.splits option.splits io.splits)
    show "service_proxy dial target u b r0 g = (?calls, [?log path err], snd (snd (service_proxy dial target u b r0 g)))"
      using assms(2) that(2)
      by (auto simp: ReverseProxy_def proxy_ErrorHandler_def err_def path_def outgoing_def Let_def
          split: prod.splits option.splits io.splits)
  qed
  have "service_proxy dial target u b r0 g = (?calls, [?log path err], g1)"
    if "req_Method r0 = req_Method r" "req_Path r0 = req_Path r" "req_Body r0 = req_Body r" for r0
    using run [OF that] same [OF that] by simp
  then obtain r2 more where "service_gateway dial target u scrape files env r g = (r2, ?calls, [?log path err] @ more, g1)"
    using gateway_runs_proxy [where r = r and b = b and g = g and dial = dial and target = target and u = u
      and scrape = scrape and files = files and env = env, OF assms(1)] by blast
  with assms(3) have e: "(r', calls, effs, g') = (r2, ?calls, [?log path err] @ more, g1)" by (simp only:)
  have c: "calls = ?calls" "?log path err \<in> set effs" "g' = g1" using e by (simp_all only: prod.inject) simp
  have "dial (u b) = None \<or> fst (next_io (gw_net g)) = Fails_before \<Longrightarrow> gw_peer g1 = gw_peer g"
    by (auto simp: g1_def ReverseProxy_def Let_def split: prod.splits option.splits)
  moreover have "parse_first (sent_body ?calls) = Some (JObj [(''error'', JStr ''upstream service unavailable'')])"
    by (rule WriteError_body) (simp add: ascii_def)
  ultimately show ?thesis using c(2) unfolding c(1,3) by (intro conjI exI [of _ path] exI [of _ "err_text err"]) simp_all
qed

theorem gateway_bad_gateway_witness:
  "let (r', calls, effs, g') = sample_gateway (\<lambda>u. Some echo_server) sample_post \<lparr>gw_peer = 4, gw_net = [Fails_before]\<rparr>
   in sent_status calls = 502 \<and> gw_peer g' = 4"
proof -
  let ?g = "\<lparr>gw_peer = 4, gw_net = [Fails_before]\<rparr>"
  obtain r' calls effs g' where r: "sample_gateway (\<lambda>u. Some echo_server) sample_post ?g = (r', calls, effs, g')"
    by (rule prod_cases4)
  show ?thesis using gateway_bad_gateway [OF sample_post_proxied _ r] r by simp
qed

section \<open>The gateway in front of the services\<close>

text \<open>The three services as one world behind the gateway, each its own part of it.\<close>

record ('o, 'i) services =
  sv_orders :: 'o
  sv_inventory :: 'i
  sv_stats :: stats

definition peer_of :: "('w \<Rightarrow> 's) \<Rightarrow> ('s \<Rightarrow> 'w \<Rightarrow> 'w) \<Rightarrow> 's server \<Rightarrow> 'w server" where
  "peer_of get put server r w = (let (r', calls, effs, x) = server r (get w) in (r', calls, effs, put x w))"

abbreviation order_peer :: "'o server \<Rightarrow> ('o, 'i) services server" where
  "order_peer \<equiv> peer_of sv_orders (\<lambda>x w. w\<lparr>sv_orders := x\<rparr>)"

abbreviation inventory_peer :: "'i server \<Rightarrow> ('o, 'i) services server" where
  "inventory_peer \<equiv> peer_of sv_inventory (\<lambda>x w. w\<lparr>sv_inventory := x\<rparr>)"

abbreviation analytics_peer :: "stats server \<Rightarrow> ('o, 'i) services server" where
  "analytics_peer \<equiv> peer_of sv_stats (\<lambda>x w. w\<lparr>sv_stats := x\<rparr>)"

text \<open>The client gets the status and the body of an answer.\<close>

definition same_answer :: "rw_call list \<Rightarrow> rw_call list \<Rightarrow> bool" where
  "same_answer calls answer \<longleftrightarrow> sent_status calls = sent_status answer \<and> sent_body calls = sent_body answer"

lemma handlers_final:
  "200 \<le> sent_status (fst (createOrder reserve so otel oenv r w))" "200 \<le> sent_status (fst (order_getOrder getO r w))"
  "200 \<le> sent_status (fst (inventory_getItem getI r s))" "200 \<le> sent_status (fst (inventory_restockItem restock r s))"
  "200 \<le> sent_status (fst (StatsHandler r st))"
  by (auto simp: createOrder_def order_getOrder_def inventory_getItem_def inventory_restockItem_def StatsHandler_def Let_def
      split: sum.splits option.splits prod.splits)

text \<open>A route of a service's table, asked for through the gateway.\<close>

lemma gateway_reaches:
  assumes "proxied (req_Method r) (path_segs (req_Path r)) = Some b"
    and "find_route rts (req_Method r) (path_segs (req_Path r)) = Some rt"
    and "\<And>r s. 200 \<le> sent_status (fst (rt_Handler rt r s))"
    and "dial (u b) = Some (peer_of get put (handler_chain env1 rts))"
    and "url_Path (u b) = []" and "fst (next_io (gw_net g)) = Works" and "req_Path r = CHR ''/'' # p"
    and "service_gateway dial target u scrape files env r g = (r', calls, effs, g')"
  shows "let (answer, e, x) = rt_Handler rt (r\<lparr>req_Pattern := rt_Text rt,
        req_PathValues := the (match_segs (rt_Segs rt) (path_segs (req_Path r)))\<rparr>) (get (gw_peer g))
    in same_answer calls answer \<and> gw_peer g' = put x (gw_peer g)"
proof -
  let ?r = "r\<lparr>req_Pattern := [], req_PathValues := []\<rparr>"
  obtain answer e x where h: "rt_Handler rt (r\<lparr>req_Pattern := rt_Text rt,
        req_PathValues := the (match_segs (rt_Segs rt) (path_segs (req_Path r)))\<rparr>) (get (gw_peer g)) = (answer, e, x)"
    by (rule prod_cases3)
  with assms(2) have m: "\<exists>r1. ServeMux rts ?r (get (gw_peer g)) = (r1, answer, e, x)" by (simp add: ServeMux_def Let_def)
  then obtain r1 more where "handler_chain env1 rts ?r (get (gw_peer g)) = (r1, answer, more, x)"
    using handler_chain_calls [of rts ?r "get (gw_peer g)" _ answer e x env1] by metis
  then have "peer_of get put (handler_chain env1 rts) ?r (gw_peer g) = (r1, answer, more, put x (gw_peer g))"
    by (simp add: peer_of_def)
  moreover have "200 \<le> sent_status answer" using assms(3) h by (metis fst_conv)
  ultimately show ?thesis
    using proxy_passes_on [OF assms(1,7,5,4,6) _ _ assms(8)] h by (auto simp: same_answer_def)
qed

text \<open>
  C34. The gateway's routes, its wiring and the services' routes fit together: with the three services behind
  their URLs and a round trip that works, each of the five proxied requests is answered, through both route
  tables and both middlewares, by the handler it is meant for and on that service's state alone:
  \<open>POST /orders\<close> by \<open>createOrder\<close>, \<open>GET /orders/{id}\<close> by \<open>getOrder\<close>, \<open>GET /items/{sku}\<close> by \<open>getItem\<close>,
  \<open>POST /items/{sku}/restock\<close> by \<open>restockItem\<close>, \<open>GET /stats\<close> by the stats handler (\<open>HEAD\<close> like \<open>GET\<close>), with the
  path's value where there is one. The configured URLs have no path of their own.
\<close>

theorem gateway_routes_served:
  fixes g :: "('i \<times> 'd, 's) services gateway_world"
  defines "w \<equiv> gw_peer g"
  assumes "dial (u Orders) = Some (order_peer (order_http reserve so getO otel ping1 scrape1 oenv env1))"
    and "dial (u Inventory) = Some (inventory_peer (inventory_http getI restock ping2 scrape2 env2))"
    and "dial (u Analytics) = Some (analytics_peer (analytics_http connected scrape3 env3))"
    and "\<And>b. url_Path (u b) = []" and "fst (next_io (gw_net g)) = Works" and "req_Path r = CHR ''/'' # p"
    and "service_gateway dial target u scrape files env r g = (r', calls, effs, g')"
  shows
    "(req_Method r = ''POST'' \<and> path_segs (req_Path r) = [''orders''] \<longrightarrow>
        (let (answer, effs1, x) = createOrder reserve so otel oenv
           (r\<lparr>req_Pattern := ''POST /orders'', req_PathValues := []\<rparr>) (sv_orders w)
         in same_answer calls answer \<and> gw_peer g' = w\<lparr>sv_orders := x\<rparr>)) \<and>
     (req_Method r \<in> {''GET'', ''HEAD''} \<and> path_segs (req_Path r) = [''orders'', i] \<and> i \<noteq> ''/'' \<longrightarrow>
        (let (answer, effs1, x) = order_getOrder getO
           (r\<lparr>req_Pattern := ''GET /orders/{id}'', req_PathValues := [(''id'', i)]\<rparr>) (sv_orders w)
         in same_answer calls answer \<and> gw_peer g' = w\<lparr>sv_orders := x\<rparr>)) \<and>
     (req_Method r \<in> {''GET'', ''HEAD''} \<and> path_segs (req_Path r) = [''items'', i] \<and> i \<noteq> ''/'' \<longrightarrow>
        (let (answer, effs1, x) = inventory_getItem getI
           (r\<lparr>req_Pattern := ''GET /items/{sku}'', req_PathValues := [(''sku'', i)]\<rparr>) (sv_inventory w)
         in same_answer calls answer \<and> gw_peer g' = w\<lparr>sv_inventory := x\<rparr>)) \<and>
     (req_Method r = ''POST'' \<and> path_segs (req_Path r) = [''items'', i, ''restock''] \<and> i \<noteq> ''/'' \<longrightarrow>
        (let (answer, effs1, x) = inventory_restockItem restock
           (r\<lparr>req_Pattern := ''POST /items/{sku}/restock'', req_PathValues := [(''sku'', i)]\<rparr>) (sv_inventory w)
         in same_answer calls answer \<and> gw_peer g' = w\<lparr>sv_inventory := x\<rparr>)) \<and>
     (req_Method r \<in> {''GET'', ''HEAD''} \<and> path_segs (req_Path r) = [''stats''] \<longrightarrow>
        (let (answer, effs1, x) = StatsHandler
           (r\<lparr>req_Pattern := ''GET /stats'', req_PathValues := []\<rparr>) (sv_stats w)
         in same_answer calls answer \<and> gw_peer g' = w\<lparr>sv_stats := x\<rparr>))"
proof (intro conjI impI)
  note through = gateway_reaches [OF _ _ _ _ assms(5-8), folded w_def]
  note found = route_defs order_Register_def inventory_Register_def analytics_routes_def service_routes_def
  note peers = assms(2-4) [unfolded order_http_def inventory_http_def analytics_http_def]
  show "let (answer, effs1, x) = createOrder reserve so otel oenv (r\<lparr>req_Pattern := ''POST /orders'', req_PathValues := []\<rparr>) (sv_orders w)
      in same_answer calls answer \<and> gw_peer g' = w\<lparr>sv_orders := x\<rparr>"
    if "req_Method r = ''POST'' \<and> path_segs (req_Path r) = [''orders'']"
    using through [OF _ _ _ peers(1), of "\<lparr>rt_Text = ''POST /orders'', rt_Method = Some ''POST'',
        rt_Segs = [Lit ''orders''], rt_Handler = createOrder reserve so otel oenv\<rparr>"] that
    by (simp add: found handlers_final)
  show "let (answer, effs1, x) = order_getOrder getO (r\<lparr>req_Pattern := ''GET /orders/{id}'', req_PathValues := [(''id'', i)]\<rparr>) (sv_orders w)
      in same_answer calls answer \<and> gw_peer g' = w\<lparr>sv_orders := x\<rparr>"
    if "req_Method r \<in> {''GET'', ''HEAD''} \<and> path_segs (req_Path r) = [''orders'', i] \<and> i \<noteq> ''/''"
    using through [OF _ _ _ peers(1), of "\<lparr>rt_Text = ''GET /orders/{id}'', rt_Method = Some ''GET'',
        rt_Segs = [Lit ''orders'', Wild ''id''], rt_Handler = order_getOrder getO\<rparr>"] that
    by (auto simp: found handlers_final)
  show "let (answer, effs1, x) = inventory_getItem getI (r\<lparr>req_Pattern := ''GET /items/{sku}'', req_PathValues := [(''sku'', i)]\<rparr>) (sv_inventory w)
      in same_answer calls answer \<and> gw_peer g' = w\<lparr>sv_inventory := x\<rparr>"
    if "req_Method r \<in> {''GET'', ''HEAD''} \<and> path_segs (req_Path r) = [''items'', i] \<and> i \<noteq> ''/''"
    using through [OF _ _ _ peers(2), of "\<lparr>rt_Text = ''GET /items/{sku}'', rt_Method = Some ''GET'',
        rt_Segs = [Lit ''items'', Wild ''sku''], rt_Handler = inventory_getItem getI\<rparr>"] that
    by (auto simp: found handlers_final)
  show "let (answer, effs1, x) = inventory_restockItem restock
        (r\<lparr>req_Pattern := ''POST /items/{sku}/restock'', req_PathValues := [(''sku'', i)]\<rparr>) (sv_inventory w)
      in same_answer calls answer \<and> gw_peer g' = w\<lparr>sv_inventory := x\<rparr>"
    if "req_Method r = ''POST'' \<and> path_segs (req_Path r) = [''items'', i, ''restock''] \<and> i \<noteq> ''/''"
    using through [OF _ _ _ peers(2), of "\<lparr>rt_Text = ''POST /items/{sku}/restock'', rt_Method = Some ''POST'',
        rt_Segs = [Lit ''items'', Wild ''sku'', Lit ''restock''], rt_Handler = inventory_restockItem restock\<rparr>"] that
    by (auto simp: found handlers_final)
  show "let (answer, effs1, x) = StatsHandler (r\<lparr>req_Pattern := ''GET /stats'', req_PathValues := []\<rparr>) (sv_stats w)
      in same_answer calls answer \<and> gw_peer g' = w\<lparr>sv_stats := x\<rparr>"
    if "req_Method r \<in> {''GET'', ''HEAD''} \<and> path_segs (req_Path r) = [''stats'']"
    using through [OF _ _ _ peers(3), of "\<lparr>rt_Text = ''GET /stats'', rt_Method = Some ''GET'',
        rt_Segs = [Lit ''stats''], rt_Handler = StatsHandler\<rparr>"] that
    by (auto simp: found handlers_final)
qed

text \<open>\<open>GET /stats\<close> through the gateway, of a consumer that has recorded two orders of seven units.\<close>

definition sample_peer_url :: "backend \<Rightarrow> url" where
  "sample_peer_url b = \<lparr>url_Scheme = ''http'',
     url_Host = (case b of Orders \<Rightarrow> ''orders'' | Inventory \<Rightarrow> ''inventory'' | Analytics \<Rightarrow> ''analytics''), url_Path = []\<rparr>"

theorem gateway_routes_served_witness:
  "\<exists>dial r' calls effs g'. service_gateway dial (\<lambda>b. []) sample_peer_url (\<lambda>r g. ([], [], g)) (\<lambda>r g. ([], [], g))
      \<lparr>env_ms = 1, env_trace = None\<rparr>
      \<lparr>req_Method = ''GET'', req_Path = ''/stats'', req_Pattern = [], req_PathValues = [], req_Body = []\<rparr>
      \<lparr>gw_peer = \<lparr>sv_orders = ((), ()), sv_inventory = (), sv_stats = \<lparr>st_ordersCount = 2, st_totalQuantity = 7\<rparr>\<rparr>, gw_net = []\<rparr> =
      (r', calls, effs, g') \<and> sent_status calls = 200 \<and>
      sent_body calls = sent_body (WriteJSON 200 (Some (snapshot_json \<lparr>sn_OrdersCount = 2, sn_TotalQuantityReserved = 7\<rparr>)))"
proof -
  let ?env = "\<lparr>env_ms = 1, env_trace = None\<rparr>"
  let ?orders = "order_http (\<lambda>e s q i. (None, [], i)) (\<lambda>ord e d. (None, d)) (\<lambda>i d. (Inl Order_ErrNotFound, d)) plain_otel
      (\<lambda>w. (None, w)) (\<lambda>r w. ([], [], w)) sample_order_env ?env :: (unit \<times> unit) server"
  let ?inventory = "inventory_http (\<lambda>s w. (Inl Inventory_ErrNotFound, w)) (\<lambda>s q w. (Inl Inventory_ErrNotFound, w))
      (\<lambda>w. (None, w)) (\<lambda>r w. ([], [], w)) ?env :: unit server"
  let ?analytics = "analytics_http (\<lambda>s. True) (\<lambda>r w. ([], [], w)) ?env"
  define dial where "dial t = (if url_Host t = ''orders'' then Some (order_peer ?orders)
      else if url_Host t = ''inventory'' then Some (inventory_peer ?inventory) else Some (analytics_peer ?analytics))" for t :: url
  let ?r = "\<lparr>req_Method = ''GET'', req_Path = ''/stats'', req_Pattern = [], req_PathValues = [], req_Body = []\<rparr>"
  let ?g = "\<lparr>gw_peer = \<lparr>sv_orders = ((), ()), sv_inventory = (), sv_stats = \<lparr>st_ordersCount = 2, st_totalQuantity = 7\<rparr>\<rparr>,
      gw_net = []\<rparr>"
  obtain r' calls effs g' where run: "service_gateway dial (\<lambda>b. []) sample_peer_url (\<lambda>r g. ([], [], g)) (\<lambda>r g. ([], [], g)) ?env ?r ?g =
      (r', calls, effs, g')" by (rule prod_cases4)
  have d: "dial (sample_peer_url Orders) = Some (order_peer ?orders)"
    "dial (sample_peer_url Inventory) = Some (inventory_peer ?inventory)"
    "dial (sample_peer_url Analytics) = Some (analytics_peer ?analytics)" and u: "url_Path (sample_peer_url b) = []" for b
    by (simp_all add: dial_def sample_peer_url_def)
  have "path_segs ''/stats'' = [''stats'']" by (rule path_segs_last) simp_all
  with gateway_routes_served [OF d u _ _ run, of "''stats''"]
  have "same_answer calls (WriteJSON 200 (Some (snapshot_json \<lparr>sn_OrdersCount = 2, sn_TotalQuantityReserved = 7\<rparr>)))"
    by (simp add: StatsHandler_def Stats_Snapshot_def)
  then have "sent_status calls = 200 \<and>
      sent_body calls = sent_body (WriteJSON 200 (Some (snapshot_json \<lparr>sn_OrdersCount = 2, sn_TotalQuantityReserved = 7\<rparr>)))"
    by (simp add: same_answer_def)
  with run show ?thesis by blast
qed

end
