(* ===== verification/Platform.thy ===== *)
theory Platform
  imports Gateway OutboxRelay
begin

text \<open>
  The platform put together: clients visit the gateway, the gateway proxies to the three services with
  an HTTP server, order-service reserves through its client and the gRPC server of inventory-service,
  its relay polls the outbox, and JetStream delivers the stream to analytics-service. A run is a
  sequence of such actions, each with the failures it meets; what the components promise is combined
  into one invariant. Shown: no overselling end to end, one event for every order and for nothing else,
  and that the totals catch up with the orders.
\<close>

section \<open>The services behind the gateway\<close>

text \<open>\<open>pool.Ping\<close>: an empty statement.\<close>

definition pg_Ping :: "'t pg \<Rightarrow> go_error option \<times> 't pg" where
  "pg_Ping db = (let (r, db') = pg_query (\<lambda>t. (Inr (), t)) db in (result_error r, db'))"

definition order_ping :: "'r order_world \<Rightarrow> go_error option \<times> 'r order_world" where
  "order_ping w = (let (e, d) = pg_Ping (snd w) in (e, (fst w, d)))"

definition inventory_ping :: "(stock pg, 'r) caching \<Rightarrow> go_error option \<times> (stock pg, 'r) caching" where
  "inventory_ping c = (let (e, s) = pg_Ping (cs_next c) in (e, c\<lparr>cs_next := s\<rparr>))"

text \<open>The scrape endpoints and the file server only read.\<close>

definition static :: "(request \<Rightarrow> rw_call list) \<Rightarrow> 's endpoint" where
  "static page r s = (page r, [], s)"

record 'r platform =
  pl_orders :: "'r order_world"
  pl_broker :: broker
  pl_analytics :: "stats consumer"

abbreviation pl_inventory :: "'r platform \<Rightarrow> (stock pg, 'r) caching" where
  "pl_inventory w \<equiv> peer (fst (pl_orders w))"

abbreviation pl_stock :: "'r platform \<Rightarrow> stock" where
  "pl_stock w \<equiv> world_stock (pl_orders w)"

abbreviation pl_db :: "'r platform \<Rightarrow> order_db" where
  "pl_db w \<equiv> world_db (pl_orders w)"

text \<open>The libraries and the wiring: what answers at a URL is one of the services, or nothing.\<close>

record ('c, 'r) setting =
  sg_redis :: "'r redis_client"
  sg_otel :: "'c otel"
  sg_jsonb :: "json \<Rightarrow> string"
  sg_page :: "request \<Rightarrow> rw_call list"
  sg_target :: "backend \<Rightarrow> string"
  sg_url :: "backend \<Rightarrow> url"
  sg_backend_at :: "url \<Rightarrow> backend option"

text \<open>A client's request with all it meets on its way.\<close>

record 'c visit =
  vs_request :: request
  vs_order_env :: "'c order_env"
  vs_env :: req_env
  vs_reachable :: "backend \<Rightarrow> bool"
  vs_net :: "io list"
  vs_nats :: bool

definition serve_in :: "('w \<Rightarrow> 's) \<Rightarrow> ('s \<Rightarrow> 'w \<Rightarrow> 'w) \<Rightarrow> 's server \<Rightarrow> 'w server" where
  "serve_in get put server r w = (let (r', calls, effs, s) = server r (get w) in (r', calls, effs, put s w))"

definition backend_server :: "('c, 'r) setting \<Rightarrow> 'c visit \<Rightarrow> backend \<Rightarrow> 'r platform server" where
  "backend_server S v b =
     (case b of
        Orders \<Rightarrow>
          serve_in pl_orders (\<lambda>s w. w\<lparr>pl_orders := s\<rparr>)
            (order_service_http (sg_redis S) (sg_otel S) order_ping (static (sg_page S)) (vs_order_env v) (vs_env v))
      | Inventory \<Rightarrow>
          serve_in pl_inventory (\<lambda>s w. w\<lparr>pl_orders := ((fst (pl_orders w))\<lparr>peer := s\<rparr>, snd (pl_orders w))\<rparr>)
            (inventory_http (caching_GetItem (sg_redis S) pg_GetItem) (caching_RestockItem (sg_redis S) pg_RestockItem)
              inventory_ping (static (sg_page S)) (vs_env v))
      | Analytics \<Rightarrow>
          serve_in (\<lambda>w. cn_app (pl_analytics w)) (\<lambda>s w. w\<lparr>pl_analytics := (pl_analytics w)\<lparr>cn_app := s\<rparr>\<rparr>)
            (analytics_http (\<lambda>s. vs_nats v) (static (sg_page S)) (vs_env v)))"

definition visit :: "('c, 'r) setting \<Rightarrow> 'c visit \<Rightarrow> 'r platform \<Rightarrow> rw_call list \<times> 'r platform" where
  "visit S v w =
     (let dial = (\<lambda>u. case sg_backend_at S u of
            Some b \<Rightarrow> if vs_reachable v b then Some (backend_server S v b) else None
          | None \<Rightarrow> None);
          (r', calls, effs, g) = service_gateway dial (sg_target S) (sg_url S) (static (sg_page S)) (static (sg_page S))
            (vs_env v) (vs_request v) \<lparr>gw_peer = w, gw_net = vs_net v\<rparr>
      in (calls, gw_peer g))"

section \<open>Runs\<close>

datatype 'c action = Visit "'c visit" | Poll 'c | Deliver 'c delivery

fun platform_step :: "('c, 'r) setting \<Rightarrow> 'c action \<Rightarrow> 'r platform \<Rightarrow> 'r platform" where
  "platform_step S (Visit v) w = snd (visit S v w)"
| "platform_step S (Poll ctx) w =
     (let (effs, d, b) = publishPending (sg_otel S) (FetchUnpublished (sg_jsonb S)) MarkPublished
            (Publish (sg_otel S)) ctx (snd (pl_orders w)) (pl_broker w)
      in w\<lparr>pl_orders := (fst (pl_orders w), d), pl_broker := b\<rparr>)"
| "platform_step S (Deliver ctx dl) w =
     (let (effs, c) = deliver (sg_otel S) ctx (analytics_handleOrderCreated (sg_otel S))
            (stream (pl_broker w)) dl (pl_analytics w)
      in w\<lparr>pl_analytics := c\<rparr>)"

definition platform_run :: "('c, 'r) setting \<Rightarrow> 'c action list \<Rightarrow> 'r platform \<Rightarrow> 'r platform" where
  "platform_run S acts w = fold (platform_step S) acts w"

section \<open>What a request can change\<close>

lemma handler_chain_world:
  assumes "handler_chain env rts r s = (r', calls, effs, s')"
  shows "s' = s \<or> (\<exists>rt \<in> set rts. \<exists>pv effs1.
    match_segs (rt_Segs rt) (path_segs (req_Path r)) = Some pv \<and>
    (rt_Method rt = Some (req_Method r) \<or> rt_Method rt = Some ''GET'' \<or> rt_Method rt = None) \<and>
    rt_Handler rt (r\<lparr>req_Pattern := rt_Text rt, req_PathValues := pv\<rparr>) s = (calls, effs1, s'))"
proof (cases "find_route rts (req_Method r) (path_segs (req_Path r))")
  case None
  with assms show ?thesis by (auto simp: handler_chain_eq ServeMux_def Let_def split: if_splits)
next
  case (Some rt)
  have m: "rt \<in> set rts" "match_segs (rt_Segs rt) (path_segs (req_Path r)) \<noteq> None"
    "rt_Method rt = Some (req_Method r) \<or> rt_Method rt = Some ''GET'' \<or> rt_Method rt = None"
    using Some by (auto simp: find_route_def route_matches_def find_Some_iff split: option.splits if_splits)
  from Some assms obtain effs1 where
    "rt_Handler rt (r\<lparr>req_Pattern := rt_Text rt,
       req_PathValues := the (match_segs (rt_Segs rt) (path_segs (req_Path r)))\<rparr>) s = (calls, effs1, s')"
    by (auto simp: handler_chain_eq ServeMux_def Let_def split: prod.splits)
  with m show ?thesis by (metis option.collapse)
qed

lemma pg_Ping_tables [simp]: "tables (snd (pg_Ping db)) = tables db"
  using pg_query_tables [of "\<lambda>t. (Inr (), t)" db]
  by (cases "pg_query (\<lambda>t. (Inr (), t)) db") (simp add: pg_Ping_def)

text \<open>The analytics routes read.\<close>

lemma analytics_http_frame:
  "analytics_http connected (static page) env r s = (r', calls, effs, s') \<Longrightarrow> s' = s"
  unfolding analytics_http_def
  by (drule handler_chain_world)
    (auto simp: analytics_routes_def nats_HealthHandler_def StatsHandler_def static_def split: if_splits)

text \<open>What a request may bring into the stock: the quantity of a restock's body.\<close>

definition restock_asked :: "string \<Rightarrow> request \<Rightarrow> int" where
  "restock_asked k r =
     (case path_segs (req_Path r) of
        [a, sku, c] \<Rightarrow>
          (if req_Method r = ''POST'' \<and> a = ''items'' \<and> sku = k \<and> c = ''restock'' then
             (case decode_restock (req_Body r) of Inl e \<Rightarrow> 0 | Inr req \<Rightarrow> max 0 (rr_Quantity req))
           else 0)
      | _ \<Rightarrow> 0)"

lemma restock_asked_nonneg [simp]: "0 \<le> restock_asked k r"
  by (simp add: restock_asked_def split: list.splits sum.splits)

lemma HealthHandler_world: "HealthHandler ping r s = (calls, effs, s') \<Longrightarrow> \<exists>e. ping s = (e, s')"
  by (auto simp: HealthHandler_def split: prod.splits option.splits)

lemma inventory_ping_frame: "inventory_ping c = (e, c') \<Longrightarrow> tables (cs_next c') = tables (cs_next c)"
  using pg_Ping_tables [of "cs_next c"] by (cases "pg_Ping (cs_next c)") (auto simp: inventory_ping_def)

lemma order_ping_frame: "order_ping w = (e, w') \<Longrightarrow> fst w' = fst w \<and> tables (snd w') = tables (snd w)"
  using pg_Ping_tables [of "snd w"] by (cases "pg_Ping (snd w)") (auto simp: order_ping_def)

lemma match_lit_wild_lit:
  "match_segs [Lit a, Wild n, Lit c] segs = Some pv \<longleftrightarrow> (\<exists>x. segs = [a, x, c] \<and> x \<noteq> ''/'' \<and> pv = [(n, x)])"
proof (cases segs)
  case (Cons s1 t1)
  then show ?thesis
  proof (cases t1)
    case c2: (Cons s2 t2)
    with Cons show ?thesis
    proof (cases t2)
      case c3: (Cons s3 t3)
      with Cons c2 show ?thesis by (cases t3) auto
    qed auto
  qed auto
qed simp

text \<open>A request to inventory-service moves nothing, or restocks what it asks for.\<close>

lemma inventory_http_moves:
  assumes "inventory_http (caching_GetItem redis pg_GetItem) (caching_RestockItem redis pg_RestockItem)
      inventory_ping (static page) env r c = (r', calls, effs, c')"
  shows "tables (cs_next c') = tables (cs_next c) \<or>
    (\<exists>sku q it. path_segs (req_Path r) = [''items'', sku, ''restock''] \<and> req_Method r = ''POST'' \<and>
      decode_restock (req_Body r) = Inr \<lparr>rr_Quantity = q\<rparr> \<and> moved sku q (tables (cs_next c)) (tables (cs_next c')) it)"
proof -
  consider (same) "c' = c" | (route) rt pv effs1 where
    "rt \<in> set (inventory_Register (caching_GetItem redis pg_GetItem) (caching_RestockItem redis pg_RestockItem) @
        service_routes inventory_ping (static page))"
    "match_segs (rt_Segs rt) (path_segs (req_Path r)) = Some pv"
    "rt_Method rt = Some (req_Method r) \<or> rt_Method rt = Some ''GET'' \<or> rt_Method rt = None"
    "rt_Handler rt (r\<lparr>req_Pattern := rt_Text rt, req_PathValues := pv\<rparr>) c = (calls, effs1, c')"
    using handler_chain_world [OF assms [unfolded inventory_http_def]] by blast
  then show ?thesis
  proof cases
    case (route rt pv effs1)
    let ?r = "r\<lparr>req_Pattern := rt_Text rt, req_PathValues := pv\<rparr>"
    note h = route(4)
    from route(1) consider (get) "rt_Handler rt = inventory_getItem (caching_GetItem redis pg_GetItem)"
      | (restock) "rt_Handler rt = inventory_restockItem (caching_RestockItem redis pg_RestockItem)"
        "rt_Method rt = Some ''POST''" "rt_Segs rt = [Lit ''items'', Wild ''sku'', Lit ''restock'']"
      | (health) "rt_Handler rt = HealthHandler inventory_ping" | (page) "rt_Handler rt = static page"
      by (auto simp: inventory_Register_def service_routes_def)
    then show ?thesis
    proof cases
      case get
      with h cpg.wrapped.get_frame [of redis "PathValue ?r ''sku''" c] show ?thesis
        by (auto simp: inventory_getItem_def Let_def split: prod.splits sum.splits if_splits)
    next
      case restock
      have P: "req_Method r = ''POST''" using route(3) restock(2) by simp
      from route(2) [unfolded restock(3) match_lit_wild_lit] obtain sku where
        segs: "path_segs (req_Path r) = [''items'', sku, ''restock'']" and v: "pv = [(''sku'', sku)]" by blast
      have r: "PathValue ?r ''sku'' = sku" "req_Body ?r = req_Body r" by (simp_all add: PathValue_def v)
      from h [unfolded restock(1)] show ?thesis
      proof (cases rule: cpg.wrapped.restock_handler)
        case (moved q it)
        with segs P r show ?thesis by auto
      next
        case (failed q e)
        with segs P r show ?thesis by auto
      qed auto
    next
      case health
      with h obtain e where "inventory_ping c = (e, c')" by (auto dest: HealthHandler_world)
      then show ?thesis by (auto dest: inventory_ping_frame)
    next
      case page
      with h show ?thesis by (simp add: static_def)
    qed
  qed simp
qed

lemma inventory_http_stock:
  assumes "inventory_http (caching_GetItem redis pg_GetItem) (caching_RestockItem redis pg_RestockItem)
      inventory_ping (static page) env r c = (r', calls, effs, c')"
  shows "available (tables (cs_next c')) k \<le> available (tables (cs_next c)) k + restock_asked k r"
    and "stock_ok (tables (cs_next c)) \<Longrightarrow> stock_ok (tables (cs_next c'))"
  using inventory_http_moves [OF assms]
  by (auto simp: moved_available restock_asked_def dest: moved_stock_ok intro: restock_asked_nonneg [unfolded restock_asked_def])

text \<open>
  What a request to order-service can change: nothing, or it takes the units it asks for, and then the
  order is stored with its event, or nothing is.
\<close>

definition order_effect ::
  "'c otel \<Rightarrow> 'c order_env \<Rightarrow> request \<Rightarrow> stock \<Rightarrow> order_db \<Rightarrow> stock \<Rightarrow> order_db \<Rightarrow> bool" where
  "order_effect otel oenv r st t st' t' \<longleftrightarrow>
     st' = st \<and> nothing_new t t' \<or>
     (\<exists>req it. decode_create (req_Body r) = Inr req \<and> 0 < to_int32 (cr_Quantity req) \<and>
        moved (cr_SKU req) (- to_int32 (cr_Quantity req)) st st' it \<and>
        (nothing_new t t' \<or> (\<exists>j. order_created_json (event_of (order_of req oenv)) = Some j \<and>
           created (order_of req oenv) (outbox_of otel oenv j) t t')))"

lemma createOrder_effect:
  assumes "createOrder (Client_Reserve (inventory_service_grpc redis)) CreateOrder otel oenv r (iv, d) = (calls, effs, iv', d')"
    and "fair_env (oe_retry oenv)" and "unavailable_never_ran iv"
  shows "unavailable_never_ran iv' \<and>
    order_effect otel oenv r (tables (cs_next (peer iv))) (tables d) (tables (cs_next (peer iv'))) (tables d')"
  using assms
proof (cases rule: osvc.createOrder_cases)
  case bad
  with assms(3) show ?thesis by (simp add: order_effect_def)
next
  case refused
  then show ?thesis by (simp add: order_effect_def)
next
  case (failed req)
  then show ?thesis unfolding order_effect_def by auto
next
  case (lost req i)
  then show ?thesis unfolding order_effect_def by (blast intro: nothing_new_refl dest: pgo.create_failed)
next
  case (created req i j)
  then show ?thesis unfolding order_effect_def by (blast dest: pgo.create_ok)
qed

lemma order_http_effect:
  assumes "order_service_http redis otel order_ping (static page) oenv env r (iv, d) = (r', calls, effs, iv', d')"
    and "fair_env (oe_retry oenv)" and "unavailable_never_ran iv"
  shows "unavailable_never_ran iv' \<and>
    order_effect otel oenv r (tables (cs_next (peer iv))) (tables d) (tables (cs_next (peer iv'))) (tables d')"
proof -
  consider (same) "(iv', d') = (iv, d)" | (route) rt pv effs1 where
    "rt \<in> set (order_Register (Client_Reserve (inventory_service_grpc redis)) CreateOrder GetOrder otel oenv @
        service_routes order_ping (static page))"
    "rt_Handler rt (r\<lparr>req_Pattern := rt_Text rt, req_PathValues := pv\<rparr>) (iv, d) = (calls, effs1, (iv', d'))"
    using handler_chain_world [OF assms(1) [unfolded order_http_def]] by blast
  then show ?thesis
  proof cases
    case (route rt pv effs1)
    note h = route(2)
    from route(1) consider (post) "rt_Handler rt = createOrder (Client_Reserve (inventory_service_grpc redis)) CreateOrder otel oenv"
      | (get) "rt_Handler rt = order_getOrder GetOrder"
      | (health) "rt_Handler rt = HealthHandler order_ping" | (page) "rt_Handler rt = static page"
      by (auto simp: order_Register_def service_routes_def)
    then show ?thesis
    proof cases
      case post
      from createOrder_effect [OF h [unfolded post] assms(2,3)] show ?thesis by (simp add: order_effect_def)
    next
      case get
      with h pgo.getOrder_frame [of "PathValue (r\<lparr>req_Pattern := rt_Text rt, req_PathValues := pv\<rparr>) ''id''" d] assms(3)
      show ?thesis
        by (auto simp: order_getOrder_def order_effect_def Let_def split: prod.splits sum.splits if_splits)
    next
      case health
      with h obtain e where "order_ping (iv, d) = (e, iv', d')" by (auto dest: HealthHandler_world)
      with assms(3) show ?thesis by (auto simp: order_effect_def dest: order_ping_frame)
    next
      case page
      with h assms(3) show ?thesis by (simp add: static_def order_effect_def)
    qed
  qed (use assms(3) in \<open>simp add: order_effect_def\<close>)
qed

lemma ReverseProxy_world:
  "ReverseProxy dial u eh r g = (calls, effs, g') \<Longrightarrow> gw_peer g' = gw_peer g \<or>
     (\<exists>server r1 c1 e1. dial u = Some server \<and> server (outgoing u r) (gw_peer g) = (r1, c1, e1, gw_peer g'))"
  by (auto simp: ReverseProxy_def Let_def split: option.splits prod.splits io.splits)

text \<open>The gateway hands a request on to one service at most, with its method, path and body.\<close>

lemma visit_world:
  assumes "visit S v w = (calls, w')" and "\<And>b. url_Path (sg_url S b) = []"
    and "req_Path (vs_request v) = CHR ''/'' # p"
  shows "w' = w \<or> (\<exists>b r r1 c1 e1. backend_server S v b r w = (r1, c1, e1, w') \<and>
    req_Method r = req_Method (vs_request v) \<and> req_Path r = req_Path (vs_request v) \<and>
    req_Body r = req_Body (vs_request v))"
proof -
  let ?dial = "\<lambda>u. case sg_backend_at S u of
            Some b \<Rightarrow> if vs_reachable v b then Some (backend_server S v b) else None
          | None \<Rightarrow> None"
  let ?g = "\<lparr>gw_peer = w, gw_net = vs_net v\<rparr>"
  let ?page = "static (sg_page S)"
  let ?proxy = "service_proxy ?dial (sg_target S) (sg_url S)"
  obtain r' effs g where run: "service_gateway ?dial (sg_target S) (sg_url S) ?page ?page (vs_env v) (vs_request v) ?g
      = (r', calls, effs, g)" and g: "gw_peer g = w'"
    using assms(1) by (auto simp: visit_def Let_def split: prod.splits)
  consider (same) "g = ?g" | (route) rt pv effs1 where
    "rt \<in> set (gateway_routes (?proxy Orders) (?proxy Inventory) (?proxy Analytics) ?page ?page)"
    "rt_Handler rt ((vs_request v)\<lparr>req_Pattern := rt_Text rt, req_PathValues := pv\<rparr>) ?g = (calls, effs1, g)"
    using handler_chain_world [OF run [unfolded gateway_http_def]] by blast
  then show ?thesis
  proof cases
    case same
    with g show ?thesis by auto
  next
    case (route rt pv effs1)
    let ?r = "(vs_request v)\<lparr>req_Pattern := rt_Text rt, req_PathValues := pv\<rparr>"
    from route(1) consider (proxy) b where "rt_Handler rt = ?proxy b"
      | (health) "rt_Handler rt = gateway_HealthHandler" | (page) "rt_Handler rt = ?page"
      by (auto simp: gateway_routes_def)
    then show ?thesis
    proof cases
      case (proxy b)
      have out: "req_Path (outgoing (sg_url S b) ?r) = req_Path (vs_request v)"
        using assms(2,3) by (simp add: outgoing_def joining_root)
      from ReverseProxy_world [OF route(2) [unfolded proxy]] show ?thesis
      proof (elim disjE exE conjE)
        fix server r1 c1 e1
        assume "?dial (sg_url S b) = Some server" and s: "server (outgoing (sg_url S b) ?r) (gw_peer ?g) = (r1, c1, e1, gw_peer g)"
        then obtain b1 where "server = backend_server S v b1" by (auto split: option.splits if_splits)
        with s g have "backend_server S v b1 (outgoing (sg_url S b) ?r) w = (r1, c1, e1, w')" by simp
        moreover have "req_Method (outgoing (sg_url S b) ?r) = req_Method (vs_request v)"
          "req_Body (outgoing (sg_url S b) ?r) = req_Body (vs_request v)" by (simp_all add: outgoing_def)
        ultimately show ?thesis using out by blast
      qed (use g in simp)
    next
      case health
      with route(2) g show ?thesis by (auto simp: gateway_HealthHandler_def)
    next
      case page
      with route(2) g show ?thesis by (auto simp: static_def)
    qed
  qed
qed

section \<open>Orders and their events\<close>

text \<open>What an event says of an order; the database keeps microseconds of its time.\<close>

definition tells :: "order_created \<Rightarrow> order \<Rightarrow> bool" where
  "tells e ord \<longleftrightarrow> o_ID ord = oc_OrderID e \<and> o_SKU ord = oc_SKU e \<and> o_Quantity ord = oc_Quantity e \<and>
     o_Status ord = oc_Status e \<and> o_CreatedAt ord = timestamptz (oc_CreatedAt e) \<and> 0 < o_Quantity ord"

definition row_event :: "(json \<Rightarrow> string) \<Rightarrow> outbox_row \<Rightarrow> go_error + order_created" where
  "row_event jsonb r = unmarshal_order_created (jsonb (ob_payload r))"

text \<open>Each row of the outbox tells of one order, each order is told of by one row.\<close>

definition told :: "(json \<Rightarrow> string) \<Rightarrow> order_db \<Rightarrow> order_created list \<Rightarrow> bool" where
  "told jsonb t evs \<longleftrightarrow> map (row_event jsonb) (outbox_events t) = map Inr evs \<and>
     distinct (map oc_OrderID evs) \<and> oc_OrderID ` set evs = dom (orders t) \<and>
     (\<forall>e \<in> set evs. \<exists>ord. orders t (oc_OrderID e) = Some ord \<and> tells e ord)"

text \<open>The units the stored orders hold.\<close>

definition units :: "string \<Rightarrow> order \<Rightarrow> int" where
  "units k ord = (if o_SKU ord = k then o_Quantity ord else 0)"

definition ordered :: "string \<Rightarrow> order_db \<Rightarrow> int" where
  "ordered k t = (\<Sum>i \<in> dom (orders t). units k (the (orders t i)))"

lemma told_finite: "told jsonb t evs \<Longrightarrow> finite (dom (orders t))"
  unfolding told_def by (metis List.finite_set finite_imageI)

lemma told_nothing_new: "nothing_new t t' \<Longrightarrow> told jsonb t evs \<Longrightarrow> told jsonb t' evs"
  by (simp add: told_def nothing_new_def)

lemma row_event_published: "row_event jsonb \<circ> (\<lambda>r. r\<lparr>ob_published := p\<rparr>) = row_event jsonb"
  by (rule ext) (simp add: row_event_def)

lemma told_but_marks: "told jsonb (but_marks t) evs = told jsonb t evs"
  by (simp add: told_def but_marks_def row_event_published)

lemma told_stored:
  assumes "told jsonb t evs" and "row_event jsonb r = Inr (event_of ord)" and "0 < o_Quantity ord"
    and "orders t (o_ID ord) = None"
    and "orders t' = (orders t)(o_ID ord \<mapsto> ord\<lparr>o_CreatedAt := timestamptz (o_CreatedAt ord)\<rparr>)"
    and "outbox_events t' = outbox_events t @ [r]"
  shows "told jsonb t' (evs @ [event_of ord])"
proof -
  have "tells (event_of ord) (ord\<lparr>o_CreatedAt := timestamptz (o_CreatedAt ord)\<rparr>)" "oc_OrderID (event_of ord) = o_ID ord"
    using assms(3) by (simp_all add: tells_def event_of_def)
  with assms show ?thesis
    unfolding told_def by (force simp: domIff)
qed

lemma told_created:
  assumes "told jsonb t evs" and "created ord evt t t'"
    and "parse_all (evt_Payload evt) = Some j" and "unmarshal_order_created (jsonb j) = Inr e"
    and "e = event_of ord"
  shows "told jsonb t' (evs @ [e])"
proof -
  let ?r = "\<lambda>i. \<lparr>ob_id = i, ob_subject = evt_Subject evt, ob_payload = j,
    ob_trace_parent = (if evt_TraceParent evt \<noteq> [] then Some (evt_TraceParent evt) else None), ob_published = False\<rparr>"
  from assms(2,3) obtain i where c: "0 < o_Quantity ord" "orders t (o_ID ord) = None"
    "orders t' = (orders t)(o_ID ord \<mapsto> ord\<lparr>o_CreatedAt := timestamptz (o_CreatedAt ord)\<rparr>)"
    "outbox_events t' = outbox_events t @ [?r i]"
    unfolding created_def by fastforce
  have "row_event jsonb (?r i) = Inr (event_of ord)" using assms(4,5) by (simp add: row_event_def)
  from told_stored [OF assms(1) this c] assms(5) show ?thesis by simp
qed

lemma ordered_cong: "orders t' = orders t \<Longrightarrow> ordered k t' = ordered k t"
  by (simp add: ordered_def)

lemma ordered_stored:
  assumes "orders t (o_ID ord) = None" and "finite (dom (orders t))"
    and "orders t' = (orders t)(o_ID ord \<mapsto> ord\<lparr>o_CreatedAt := timestamptz (o_CreatedAt ord)\<rparr>)"
  shows "ordered k t' = ordered k t + units k ord"
proof -
  from assms(1) have c: "o_ID ord \<notin> dom (orders t)" by auto
  have "ordered k t' = (\<Sum>i \<in> dom (orders t). units k (the (orders t' i))) + units k (the (orders t' (o_ID ord)))"
    using c assms(2,3) by (simp add: ordered_def add.commute)
  also have "(\<Sum>i \<in> dom (orders t). units k (the (orders t' i))) = ordered k t"
    unfolding ordered_def using c assms(3) by (intro sum.cong) auto
  also have "units k (the (orders t' (o_ID ord))) = units k ord" using assms(3) by (simp add: units_def)
  finally show ?thesis .
qed

lemma ordered_created:
  "created ord evt t t' \<Longrightarrow> finite (dom (orders t)) \<Longrightarrow> ordered k t' = ordered k t + units k ord"
  by (rule ordered_stored) (auto simp: created_def)

lemma relay_inv_nothing_new: "nothing_new t t' \<Longrightarrow> relay_inv jsonb t ms \<Longrightarrow> relay_inv jsonb t' ms"
  using outbox_ok_nothing_new [of t t'] by (auto simp: relay_inv_def nothing_new_def)

lemma relay_inv_created: "created ord evt t t' \<Longrightarrow> relay_inv jsonb t ms \<Longrightarrow> relay_inv jsonb t' ms"
  using outbox_ok_created [of ord evt t t'] by (auto simp: relay_inv_def created_def)

section \<open>The platform's invariant\<close>

definition setting_ok :: "('c, 'r) setting \<Rightarrow> bool" where
  "setting_ok S \<longleftrightarrow> w3c (sg_otel S) \<and> jsonb_faithful (sg_jsonb S) \<and> (\<forall>b. url_Path (sg_url S b) = [])"

text \<open>Jitter in its range, a UUID of valid text, a clock in UTC, a path from the root.\<close>

definition fair_visit :: "'c visit \<Rightarrow> bool" where
  "fair_visit v \<longleftrightarrow> fair_env (oe_retry (vs_order_env v)) \<and> valid_utf8 (oe_uuid (vs_order_env v)) \<and>
     valid_utc (oe_now (vs_order_env v)) \<and> take 1 (req_Path (vs_request v)) = ''/''"

fun fair_action :: "'c action \<Rightarrow> bool" where
  "fair_action (Visit v) = fair_visit v"
| "fair_action _ = True"

fun action_restock :: "string \<Rightarrow> 'c action \<Rightarrow> int" where
  "action_restock k (Visit v) = restock_asked k (vs_request v)"
| "action_restock k _ = 0"

definition platform_inv :: "('c, 'r) setting \<Rightarrow> 'r platform \<Rightarrow> bool" where
  "platform_inv S w \<longleftrightarrow> unavailable_never_ran (fst (pl_orders w)) \<and> (\<exists>evs. told (sg_jsonb S) (pl_db w) evs) \<and>
     relay_inv (sg_jsonb S) (pl_db w) (broker_sent (pl_broker w)) \<and>
     set (recent (pl_broker w)) \<subseteq> msg_id ` set (stream (pl_broker w))"

text \<open>One request to one service.\<close>

lemma outbox_of_payload:
  assumes "decode_create body = Inr req" and "valid_utf8 (oe_uuid env)" and "valid_utc (oe_now env)"
    and "jsonb_faithful jsonb" and "order_created_json (event_of (order_of req env)) = Some j"
  shows "parse_all (evt_Payload (outbox_of otel env j)) = Some j \<and>
    unmarshal_order_created (jsonb j) = Inr (event_of (order_of req env))"
  using event_decodes [OF event_of_ok [OF assms(1-3)] assms(4)] assms(5) by (auto simp: outbox_of_def)

lemma order_effect_inv:
  assumes "order_effect otel env r st t st' t'" and "told jsonb t evs" and "relay_inv jsonb t ms"
    and "valid_utf8 (oe_uuid env)" and "valid_utc (oe_now env)" and "jsonb_faithful jsonb"
  shows "(\<exists>evs'. told jsonb t' evs') \<and> relay_inv jsonb t' ms \<and>
    available st' k + ordered k t' \<le> available st k + ordered k t \<and> (stock_ok st \<longrightarrow> stock_ok st')"
proof (cases "nothing_new t t'")
  case True
  then have o: "ordered k t' = ordered k t" by (intro ordered_cong) (simp add: nothing_new_def)
  have "told jsonb t' evs" using told_nothing_new [OF True] assms(2) .
  with assms(1) o relay_inv_nothing_new [OF True assms(3)] show ?thesis
    by (auto simp: order_effect_def moved_available dest: moved_stock_ok)
next
  case False
  with assms(1) obtain req it j where q: "decode_create (req_Body r) = Inr req" "0 < to_int32 (cr_Quantity req)"
    and m: "moved (cr_SKU req) (- to_int32 (cr_Quantity req)) st st' it"
    and j: "order_created_json (event_of (order_of req env)) = Some j"
    and c: "created (order_of req env) (outbox_of otel env j) t t'"
    by (auto simp: order_effect_def)
  note P = outbox_of_payload [OF q(1) assms(4-6) j, of otel]
  have "told jsonb t' (evs @ [event_of (order_of req env)])"
    using told_created [OF assms(2) c] P by blast
  moreover have "relay_inv jsonb t' ms" by (rule relay_inv_created [OF c assms(3)])
  moreover have "in_int32 (cr_Quantity req)" using c by (auto simp: created_def order_of_def)
  then have "units k (order_of req env) = (if cr_SKU req = k then to_int32 (cr_Quantity req) else 0)"
    by (simp add: units_def order_of_def)
  ultimately show ?thesis
    using ordered_created [OF c told_finite [OF assms(2)], of k] m by (auto simp: moved_available dest: moved_stock_ok)
qed

lemma backend_server_inv:
  assumes "backend_server S v b r w = (r1, calls, effs, w')" and "setting_ok S" and "fair_visit v"
    and "platform_inv S w"
  shows "platform_inv S w' \<and> pl_broker w' = pl_broker w \<and> pl_analytics w' = pl_analytics w \<and>
    available (pl_stock w') k + ordered k (pl_db w') \<le> available (pl_stock w) k + ordered k (pl_db w) + restock_asked k r \<and>
    (stock_ok (pl_stock w) \<longrightarrow> stock_ok (pl_stock w'))"
proof (cases b)
  case Orders
  obtain iv d iv' d' effs1 r2 where w: "pl_orders w = (iv, d)" "w' = w\<lparr>pl_orders := (iv', d')\<rparr>"
    and h: "order_service_http (sg_redis S) (sg_otel S) order_ping (static (sg_page S)) (vs_order_env v) (vs_env v) r (iv, d)
      = (r2, calls, effs1, iv', d')"
    using assms(1) Orders by (cases "pl_orders w") (auto simp: backend_server_def serve_in_def split: prod.splits)
  have v: "fair_env (oe_retry (vs_order_env v))" "valid_utf8 (oe_uuid (vs_order_env v))" "valid_utc (oe_now (vs_order_env v))"
    and S: "jsonb_faithful (sg_jsonb S)" using assms(2,3) by (simp_all add: fair_visit_def setting_ok_def)
  obtain evs where I: "unavailable_never_ran iv" "told (sg_jsonb S) (tables d) evs"
    "relay_inv (sg_jsonb S) (tables d) (broker_sent (pl_broker w))"
    using assms(4) w by (auto simp: platform_inv_def)
  from order_http_effect [OF h v(1) I(1)] have u: "unavailable_never_ran iv'"
    and e: "order_effect (sg_otel S) (vs_order_env v) r (tables (cs_next (peer iv))) (tables d)
      (tables (cs_next (peer iv'))) (tables d')" by blast+
  note E = order_effect_inv [OF e I(2,3) v(2,3) S, of k]
  have "platform_inv S w'" using E u assms(4) w by (auto simp: platform_inv_def)
  moreover have "available (tables (cs_next (peer iv'))) k + ordered k (tables d')
      \<le> available (tables (cs_next (peer iv))) k + ordered k (tables d) + restock_asked k r"
    using E restock_asked_nonneg [of k r] by linarith
  ultimately show ?thesis using E w by simp
next
  case Inventory
  obtain effs1 r2 where h: "inventory_http (caching_GetItem (sg_redis S) pg_GetItem) (caching_RestockItem (sg_redis S) pg_RestockItem)
        inventory_ping (static (sg_page S)) (vs_env v) r (pl_inventory w) = (r2, calls, effs1, pl_inventory w')"
    and w: "w' = w\<lparr>pl_orders := ((fst (pl_orders w))\<lparr>peer := pl_inventory w'\<rparr>, snd (pl_orders w))\<rparr>"
    using assms(1) Inventory by (auto simp: backend_server_def serve_in_def split: prod.splits)
  obtain c where c: "pl_inventory w' = c" by blast
  have w': "w' = w\<lparr>pl_orders := ((fst (pl_orders w))\<lparr>peer := c\<rparr>, snd (pl_orders w))\<rparr>"
    using w unfolding c .
  note H = inventory_http_stock [OF h [unfolded c]]
  have "platform_inv S w'" using assms(4) w' by (simp add: platform_inv_def unavailable_never_ran_def)
  with H(1) [of k] H(2) w' show ?thesis by (auto simp: c)
next
  case Analytics
  then obtain s effs1 r2 where "analytics_http (\<lambda>s. vs_nats v) (static (sg_page S)) (vs_env v) r (cn_app (pl_analytics w)) = (r2, calls, effs1, s)"
    and w: "w' = w\<lparr>pl_analytics := (pl_analytics w)\<lparr>cn_app := s\<rparr>\<rparr>"
    using assms(1) by (auto simp: backend_server_def serve_in_def split: prod.splits)
  then have "w' = w" by (auto dest!: analytics_http_frame)
  with assms(4) show ?thesis by simp
qed

section \<open>Steps\<close>

lemma visit_inv:
  assumes "visit S v w = (calls, w')" and "setting_ok S" and "fair_visit v" and "platform_inv S w"
  shows "platform_inv S w' \<and> pl_broker w' = pl_broker w \<and> pl_analytics w' = pl_analytics w \<and>
    available (pl_stock w') k + ordered k (pl_db w') \<le>
      available (pl_stock w) k + ordered k (pl_db w) + restock_asked k (vs_request v) \<and>
    (stock_ok (pl_stock w) \<longrightarrow> stock_ok (pl_stock w'))"
proof -
  have "take 1 (req_Path (vs_request v)) = ''/''" using assms(3) by (simp add: fair_visit_def)
  then obtain p where p: "req_Path (vs_request v) = CHR ''/'' # p" by (cases "req_Path (vs_request v)") auto
  have u: "\<And>b. url_Path (sg_url S b) = []" using assms(2) by (simp add: setting_ok_def)
  from visit_world [OF assms(1) u p] show ?thesis
  proof (elim disjE exE conjE)
    assume "w' = w"
    with assms(4) show ?thesis by simp
  next
    fix b r r1 c1 e1
    assume h: "backend_server S v b r w = (r1, c1, e1, w')"
      and eqs: "req_Method r = req_Method (vs_request v)" "req_Path r = req_Path (vs_request v)"
        "req_Body r = req_Body (vs_request v)"
    have "restock_asked k r = restock_asked k (vs_request v)" by (simp only: restock_asked_def eqs)
    with backend_server_inv [OF h assms(2-4), of k] show ?thesis by simp
  qed
qed

text \<open>The broker while it deduplicates.\<close>

definition dedup_inv :: "broker \<Rightarrow> bool" where
  "dedup_inv b \<longleftrightarrow> window_holds b \<and> set (recent b) = msg_id ` set (stream b) \<and> once (broker_sent b)"

lemma poll_inv:
  assumes "publishPending (sg_otel S) (FetchUnpublished (sg_jsonb S)) MarkPublished (Publish (sg_otel S)) ctx
      (snd (pl_orders w)) (pl_broker w) = (effs, d, b)"
    and "w' = w\<lparr>pl_orders := (fst (pl_orders w), d), pl_broker := b\<rparr>"
    and "setting_ok S" and "platform_inv S w"
  shows "platform_inv S w' \<and> pl_stock w' = pl_stock w \<and> ordered k (pl_db w') = ordered k (pl_db w) \<and>
    but_marks (pl_db w') = but_marks (pl_db w) \<and>
    pl_analytics w' = pl_analytics w \<and> (dedup_inv (pl_broker w) \<longrightarrow> dedup_inv (pl_broker w')) \<and>
    (\<exists>new. broker_sent (pl_broker w') = broker_sent (pl_broker w) @ new)"
proof -
  have "w3c (sg_otel S)" using assms(3) by (simp add: setting_ok_def)
  with orelay.publishPending_inv [OF assms(1)] assms(4)
  have P: "set (recent b) \<subseteq> msg_id ` set (stream b)" "relay_inv (sg_jsonb S) (tables d) (broker_sent b)"
    "but_marks (tables d) = but_marks (pl_db w)" "\<exists>new. broker_sent b = broker_sent (pl_broker w) @ new"
    "window_holds (pl_broker w) \<and> set (recent (pl_broker w)) = msg_id ` set (stream (pl_broker w)) \<longrightarrow>
      once (broker_sent (pl_broker w)) \<longrightarrow>
      (window_holds b \<and> set (recent b) = msg_id ` set (stream b)) \<and> once (broker_sent b)"
    by (auto simp: platform_inv_def)
  have "orders (tables d) = orders (pl_db w)"
    using arg_cong [OF P(3), of orders] by (simp add: but_marks_def)
  then have "ordered k (tables d) = ordered k (pl_db w)" by (rule ordered_cong)
  moreover have "\<exists>evs. told (sg_jsonb S) (tables d) evs"
    using assms(4) P(3) told_but_marks unfolding platform_inv_def by metis
  ultimately show ?thesis using P assms(2,4) by (simp add: platform_inv_def dedup_inv_def)
qed

lemma platform_step_inv:
  assumes "setting_ok S" and "fair_action a" and "platform_inv S w"
  shows "platform_inv S (platform_step S a w) \<and>
    available (pl_stock (platform_step S a w)) k + ordered k (pl_db (platform_step S a w)) \<le>
      available (pl_stock w) k + ordered k (pl_db w) + action_restock k a \<and>
    (stock_ok (pl_stock w) \<longrightarrow> stock_ok (pl_stock (platform_step S a w))) \<and>
    (dedup_inv (pl_broker w) \<longrightarrow> dedup_inv (pl_broker (platform_step S a w))) \<and>
    (\<exists>new. broker_sent (pl_broker (platform_step S a w)) = broker_sent (pl_broker w) @ new)"
proof (cases a)
  case (Visit v)
  obtain calls w' where h: "visit S v w = (calls, w')" by force
  have "fair_visit v" using assms(2) Visit by simp
  from visit_inv [OF h assms(1) this assms(3), of k] Visit h show ?thesis by simp
next
  case (Poll ctx)
  obtain effs d b where h: "publishPending (sg_otel S) (FetchUnpublished (sg_jsonb S)) MarkPublished
      (Publish (sg_otel S)) ctx (snd (pl_orders w)) (pl_broker w) = (effs, d, b)" by (rule prod_cases3)
  from poll_inv [OF h refl assms(1,3), of k] Poll h show ?thesis by simp
next
  case (Deliver ctx dl)
  obtain effs c where h: "deliver (sg_otel S) ctx (analytics_handleOrderCreated (sg_otel S))
      (stream (pl_broker w)) dl (pl_analytics w) = (effs, c)" by force
  with Deliver assms(3) show ?thesis by (simp add: platform_inv_def)
qed

lemma platform_run_inv:
  assumes "setting_ok S" and "list_all fair_action acts" and "platform_inv S w"
  shows "platform_inv S (platform_run S acts w) \<and>
    available (pl_stock (platform_run S acts w)) k + ordered k (pl_db (platform_run S acts w)) \<le>
      available (pl_stock w) k + ordered k (pl_db w) + total (action_restock k) acts \<and>
    (stock_ok (pl_stock w) \<longrightarrow> stock_ok (pl_stock (platform_run S acts w))) \<and>
    (dedup_inv (pl_broker w) \<longrightarrow> dedup_inv (pl_broker (platform_run S acts w)))"
  using assms(2,3)
proof (induction acts arbitrary: w)
  case (Cons a acts)
  have "fair_action a" using Cons.prems by simp
  note P = platform_step_inv [OF assms(1) this Cons.prems(2), of k]
  from Cons.IH [of "platform_step S a w"] Cons.prems(1) P show ?case
    by (auto simp: platform_run_def)
qed (simp add: platform_run_def)

section \<open>The totals\<close>

definition decoded :: "string \<Rightarrow> order_created" where
  "decoded d = (case unmarshal_order_created d of Inl e \<Rightarrow> zero_order_created | Inr e \<Rightarrow> e)"

abbreviation stream_data :: "broker \<Rightarrow> string list" where
  "stream_data b \<equiv> map msg_Data (stream b)"

text \<open>The totals are those of the messages acknowledged.\<close>

definition totals_inv :: "stats consumer \<Rightarrow> string list \<Rightarrow> bool" where
  "totals_inv c ds \<longleftrightarrow> cn_up c \<and> distinct (cn_acked c) \<and> set (cn_acked c) \<subseteq> {..<length ds} \<and>
     cn_app c = fold note_stats (map (\<lambda>i. decoded (ds ! i)) (rev (cn_acked c))) zero_stats"

lemma stream_data_sent: "stream_data b = map (fst \<circ> snd) (broker_sent b)"
  by (simp add: broker_sent_def)

lemma totals_inv_append: "totals_inv c ds \<Longrightarrow> totals_inv c (ds @ new)"
proof -
  assume t: "totals_inv c ds"
  then have "map (\<lambda>i. decoded ((ds @ new) ! i)) (rev (cn_acked c)) = map (\<lambda>i. decoded (ds ! i)) (rev (cn_acked c))"
    by (intro map_cong) (auto simp: totals_inv_def nth_append)
  then show ?thesis using t unfolding totals_inv_def by (simp only: length_append) auto
qed

text \<open>Everything in the stream is the event of an order.\<close>

lemma stream_tells:
  assumes "relay_inv jsonb t (broker_sent b)" and "told jsonb t evs" and "m \<in> set (stream b)"
  shows "\<exists>e \<in> set evs. unmarshal_order_created (msg_Data m) = Inr e"
proof -
  have "(msg_Subject m, msg_Data m, msg_id m) \<in> set (broker_sent b)" using assms(3) by (auto simp: broker_sent_def)
  with assms(1) obtain r where r: "r \<in> set (outbox_events t)" "msg_Data m = jsonb (ob_payload r)"
    by (auto simp: relay_inv_def msg_of_def)
  from r(1) assms(2) have "row_event jsonb r \<in> set (map Inr evs)" unfolding told_def by (metis imageI list.set_map)
  with r(2) show ?thesis by (auto simp: row_event_def)
qed

lemma told_positive: "told jsonb t evs \<Longrightarrow> e \<in> set evs \<Longrightarrow> 0 < oc_Quantity e"
  by (force simp: told_def tells_def)

lemma totals_deliver:
  assumes "deliver otel ctx (analytics_handleOrderCreated otel) msgs (i, True) c = (effs, c')"
    and "totals_inv c (map msg_Data msgs)"
    and "\<And>m. m \<in> set msgs \<Longrightarrow> \<exists>e. unmarshal_order_created (msg_Data m) = Inr e \<and> 0 \<le> oc_Quantity e"
  shows "totals_inv c' (map msg_Data msgs) \<and> set (cn_acked c') = set (cn_acked c) \<union> ({i} \<inter> {..<length msgs})"
proof (cases "i < length msgs \<and> i \<notin> set (cn_acked c)")
  case False
  then have "\<not> (cn_up c \<and> i < length msgs \<and> i \<notin> set (cn_acked c))" by blast
  from deliver_skips [OF this, of otel ctx _ True] assms(1) have "c' = c" by simp
  with assms(2) False show ?thesis by auto
next
  case True
  then obtain e where e: "unmarshal_order_created (msg_Data (msgs ! i)) = Inr e" "0 \<le> oc_Quantity e"
    using assms(3) nth_mem by blast
  have "cn_up c" using assms(2) by (simp add: totals_inv_def)
  from analytics.deliver_decoded [OF assms(1) e this] True
  have "c' = c\<lparr>cn_app := note_stats e (cn_app c), cn_acked := i # cn_acked c\<rparr>" by simp
  moreover have "decoded (map msg_Data msgs ! i) = e" using True e(1) by (simp add: decoded_def)
  ultimately show ?thesis using assms(2) True by (auto simp: totals_inv_def)
qed

fun acks_arrive :: "'c action \<Rightarrow> bool" where
  "acks_arrive (Deliver ctx dl) = snd dl"
| "acks_arrive _ = True"

lemma platform_messages:
  assumes "platform_inv S w" and "m \<in> set (stream (pl_broker w))"
  shows "\<exists>e. unmarshal_order_created (msg_Data m) = Inr e \<and> 0 \<le> oc_Quantity e"
proof -
  obtain evs where t: "told (sg_jsonb S) (pl_db w) evs" using assms(1) by (auto simp: platform_inv_def)
  from assms(1) have "relay_inv (sg_jsonb S) (pl_db w) (broker_sent (pl_broker w))" by (simp add: platform_inv_def)
  from stream_tells [OF this t assms(2)] told_positive [OF t] show ?thesis by force
qed

lemma totals_step:
  assumes "setting_ok S" and "fair_action a" and "acks_arrive a" and "platform_inv S w"
    and "totals_inv (pl_analytics w) (stream_data (pl_broker w))"
  shows "totals_inv (pl_analytics (platform_step S a w)) (stream_data (pl_broker (platform_step S a w)))"
proof (cases a)
  case (Visit v)
  obtain calls w' where h: "visit S v w = (calls, w')" by force
  have "fair_visit v" using assms(2) Visit by simp
  from visit_inv [OF h assms(1) this assms(4)] Visit h assms(5) show ?thesis by simp
next
  case (Poll ctx)
  obtain effs d b where h: "publishPending (sg_otel S) (FetchUnpublished (sg_jsonb S)) MarkPublished
      (Publish (sg_otel S)) ctx (snd (pl_orders w)) (pl_broker w) = (effs, d, b)" by (rule prod_cases3)
  from poll_inv [OF h refl assms(1,4)] obtain new where "broker_sent b = broker_sent (pl_broker w) @ new" by auto
  then have "stream_data b = stream_data (pl_broker w) @ map (fst \<circ> snd) new" by (simp add: stream_data_sent)
  with totals_inv_append [OF assms(5)] Poll h show ?thesis by simp
next
  case (Deliver ctx dl)
  with assms(3) obtain i where dl: "dl = (i, True)" by (cases dl) auto
  obtain effs c where h: "deliver (sg_otel S) ctx (analytics_handleOrderCreated (sg_otel S))
      (stream (pl_broker w)) (i, True) (pl_analytics w) = (effs, c)" by force
  from totals_deliver [OF h assms(5) platform_messages [OF assms(4)]] Deliver dl h show ?thesis by simp
qed

lemma totals_run:
  assumes "setting_ok S" and "list_all fair_action acts" and "list_all acks_arrive acts" and "platform_inv S w"
    and "totals_inv (pl_analytics w) (stream_data (pl_broker w))"
  shows "totals_inv (pl_analytics (platform_run S acts w)) (stream_data (pl_broker (platform_run S acts w)))"
  using assms(2-5)
proof (induction acts arbitrary: w)
  case (Cons a acts)
  have a: "fair_action a" "acks_arrive a" using Cons.prems by simp_all
  from Cons.IH [of "platform_step S a w"] Cons.prems totals_step [OF assms(1) a Cons.prems(3,4)]
    platform_step_inv [OF assms(1) a(1) Cons.prems(3)]
  show ?case by (simp add: platform_run_def)
qed (simp add: platform_run_def)

section \<open>Catching up\<close>

lemma run_Cons: "platform_run S (a # acts) w = platform_run S acts (platform_step S a w)"
  by (simp add: platform_run_def)

lemma run_append: "platform_run S (acts @ acts') w = platform_run S acts' (platform_run S acts w)"
  by (simp add: platform_run_def)

text \<open>The database and the broker answer.\<close>

definition calm :: "'r platform \<Rightarrow> bool" where
  "calm w \<longleftrightarrow> script (snd (pl_orders w)) = [] \<and> weather (pl_broker w) = []"

lemma polls_drain:
  assumes "setting_ok S" and "platform_inv S w" and "calm w"
  shows "unpublished (pl_db (platform_run S (replicate n (Poll ctx)) w)) = drop (20 * n) (unpublished (pl_db w)) \<and>
    but_marks (pl_db (platform_run S (replicate n (Poll ctx)) w)) = but_marks (pl_db w)"
  using assms(2,3)
proof (induction n arbitrary: w)
  case 0
  then show ?case by (simp add: platform_run_def)
next
  case (Suc n)
  obtain effs d b where h: "publishPending (sg_otel S) (FetchUnpublished (sg_jsonb S)) MarkPublished
      (Publish (sg_otel S)) ctx (snd (pl_orders w)) (pl_broker w) = (effs, d, b)" by (rule prod_cases3)
  let ?w = "w\<lparr>pl_orders := (fst (pl_orders w), d), pl_broker := b\<rparr>"
  have step: "platform_step S (Poll ctx) w = ?w" using h by simp
  have c: "script (snd (pl_orders w)) = []" "weather (pl_broker w) = []" "outbox_ok (pl_db w)"
    using Suc.prems by (simp_all add: calm_def platform_inv_def relay_inv_def)
  from orelay.publishPending_up [OF h c] have
    U: "calm ?w" "unpublished (pl_db ?w) = drop 20 (unpublished (pl_db w))" by (simp_all add: calm_def batchSize_def)
  from poll_inv [OF h refl assms(1) Suc.prems(1)] have
    P: "platform_inv S ?w" "but_marks (pl_db ?w) = but_marks (pl_db w)" by blast+
  from Suc.IH [OF P(1) U(1)] U(2) P(2) show ?case
    by (simp only: replicate_Suc run_Cons step) (simp add: add.commute)
qed

lemma deliveries_ack:
  assumes "setting_ok S" and "platform_inv S w" and "totals_inv (pl_analytics w) (stream_data (pl_broker w))"
  shows "let w' = platform_run S (map (\<lambda>i. Deliver ctx (i, True)) is) w
    in pl_orders w' = pl_orders w \<and> pl_broker w' = pl_broker w \<and>
       set (cn_acked (pl_analytics w')) = set (cn_acked (pl_analytics w)) \<union> (set is \<inter> {..<length (stream (pl_broker w))})"
  using assms(2,3)
proof (induction "is" arbitrary: w)
  case Nil
  then show ?case by (simp add: platform_run_def Let_def)
next
  case (Cons i "is")
  obtain effs c where h: "deliver (sg_otel S) ctx (analytics_handleOrderCreated (sg_otel S))
      (stream (pl_broker w)) (i, True) (pl_analytics w) = (effs, c)" by force
  let ?w = "w\<lparr>pl_analytics := c\<rparr>"
  have step: "platform_step S (Deliver ctx (i, True)) w = ?w" using h by simp
  from totals_deliver [OF h Cons.prems(2) platform_messages [OF Cons.prems(1)]]
  have T: "totals_inv c (stream_data (pl_broker w))"
    "set (cn_acked c) = set (cn_acked (pl_analytics w)) \<union> ({i} \<inter> {..<length (stream (pl_broker w))})" by blast+
  have "platform_inv S ?w" using Cons.prems(1) by (simp add: platform_inv_def)
  from Cons.IH [OF this] T show ?case by (simp only: list.map run_Cons step) (auto simp: Let_def)
qed

text \<open>Once the outbox is drained, the stream holds the event of each order once.\<close>

lemma stream_is_outbox:
  assumes R: "relay_inv jsonb t (broker_sent b)" and "once (broker_sent b)" and "unpublished t = []"
    and "told jsonb t evs"
  shows "mset (map decoded (stream_data b)) = mset evs"
proof -
  let ?rows = "outbox_events t" and ?sent = "broker_sent b"
  have "\<forall>r \<in> set ?rows. ob_published r" using assms(3) by (simp add: unpublished_Nil)
  with R have same: "set ?sent = set (map (msg_of jsonb) ?rows)" by (auto simp: relay_inv_def)
  have d1: "distinct ?sent" using assms(2) by (auto simp: once_def distinct_map)
  have "distinct (map ob_id ?rows)" using R by (simp add: relay_inv_def outbox_ok_def)
  then have d2: "distinct (map (msg_of jsonb) ?rows)"
    unfolding distinct_map by (auto simp: inj_on_def dest: Itoa_inj simp: msg_of_def)
  have m: "mset ?sent = mset (map (msg_of jsonb) ?rows)"
    using set_eq_iff_mset_eq_distinct [OF d1 d2] same by simp
  have "map decoded (stream_data b) = map (decoded \<circ> fst \<circ> snd) ?sent"
    by (simp add: stream_data_sent)
  then have "mset (map decoded (stream_data b)) = image_mset (decoded \<circ> fst \<circ> snd) (mset ?sent)" by simp
  also have "\<dots> = mset (map (\<lambda>r. decoded (jsonb (ob_payload r))) ?rows)"
    unfolding m by (simp add: multiset.map_comp msg_of_def comp_def)
  also have "map (\<lambda>r. decoded (jsonb (ob_payload r))) ?rows = map (case_sum (\<lambda>e. zero_order_created) (\<lambda>e. e)) (map (row_event jsonb) ?rows)"
    by (simp add: decoded_def row_event_def comp_def)
  also have "\<dots> = evs" using assms(4) by (simp add: told_def comp_def)
  finally show ?thesis .
qed

lemma told_totals:
  assumes "told jsonb t evs"
  shows "length evs = card (dom (orders t))"
    and "sum_list (map oc_Quantity evs) = (\<Sum>i \<in> dom (orders t). o_Quantity (the (orders t i)))"
proof -
  from assms have d: "distinct (map oc_OrderID evs)" "oc_OrderID ` set evs = dom (orders t)" by (auto simp: told_def)
  then show "length evs = card (dom (orders t))"
    using distinct_card [OF d(1)] by simp
  have "sum_list (map oc_Quantity evs) = sum_list (map (\<lambda>i. o_Quantity (the (orders t i))) (map oc_OrderID evs))"
  proof -
    have "oc_Quantity e = o_Quantity (the (orders t (oc_OrderID e)))" if "e \<in> set evs" for e
      using assms that by (force simp: told_def tells_def)
    then show ?thesis by (simp add: comp_def cong: map_cong)
  qed
  also have "\<dots> = (\<Sum>i \<in> dom (orders t). o_Quantity (the (orders t i)))"
    using sum_list_distinct_conv_sum_set [OF d(1)] d(2) by simp
  finally show "sum_list (map oc_Quantity evs) = (\<Sum>i \<in> dom (orders t). o_Quantity (the (orders t i)))" .
qed

lemma totals_complete:
  assumes "totals_inv c ds" and "{..<length ds} \<subseteq> set (cn_acked c)"
  shows "Stats_Snapshot (cn_app c) = \<lparr>sn_OrdersCount = to_int64 (int (length ds)),
    sn_TotalQuantityReserved = to_int64 (sum_list (map oc_Quantity (map decoded ds)))\<rparr>"
proof -
  have "distinct (cn_acked c)" "set (cn_acked c) = {..<length ds}"
    using assms by (auto simp: totals_inv_def)
  then have "mset (cn_acked c) = mset [0..<length ds]"
    using set_eq_iff_mset_eq_distinct [of "cn_acked c" "[0..<length ds]"] by (simp add: atLeast0LessThan)
  then have a: "mset (rev (cn_acked c)) = mset [0..<length ds]" by simp
  have "mset (map (\<lambda>i. decoded (ds ! i)) (rev (cn_acked c))) = mset (map (\<lambda>i. decoded (ds ! i)) [0..<length ds])"
    using a by (metis mset_map)
  also have "map (\<lambda>i. decoded (ds ! i)) [0..<length ds] = map decoded ds"
    by (rule nth_equalityI) simp_all
  finally have m: "mset (map (\<lambda>i. decoded (ds ! i)) (rev (cn_acked c))) = mset (map decoded ds)" .
  from mset_eq_length [OF m] sum_list_handled [OF m, of oc_Quantity] assms(1) show ?thesis
    by (simp add: totals_inv_def fold_note_zero Stats_Snapshot_def)
qed

section \<open>Properties\<close>

text \<open>A platform that starts: no order yet, an empty stream, a fresh consumer; any stock.\<close>

definition starts :: "'r platform \<Rightarrow> bool" where
  "starts w \<longleftrightarrow> orders (pl_db w) = Map.empty \<and> outbox_events (pl_db w) = [] \<and> stream (pl_broker w) = [] \<and>
     recent (pl_broker w) = [] \<and> pl_analytics w = fresh zero_stats \<and>
     unavailable_never_ran (fst (pl_orders w)) \<and> stock_ok (pl_stock w)"

lemma starts_inv:
  assumes "starts w"
  shows "platform_inv S w" and "ordered k (pl_db w) = 0" and "stock_ok (pl_stock w)"
    and "totals_inv (pl_analytics w) (stream_data (pl_broker w))"
    and "window_holds (pl_broker w) \<Longrightarrow> dedup_inv (pl_broker w)"
proof -
  have "told (sg_jsonb S) (pl_db w) []" using assms by (simp add: starts_def told_def)
  with assms show "platform_inv S w"
    by (auto simp: starts_def platform_inv_def relay_inv_def outbox_ok_def broker_sent_def)
qed (use assms in \<open>auto simp: starts_def ordered_def totals_inv_def dedup_inv_def once_def broker_sent_def\<close>)

text \<open>A sample platform, on which one client orders four units of ten.\<close>

definition sample_setting :: "(string, string \<rightharpoonup> string) setting" where
  "sample_setting =
     \<lparr>sg_redis = map_redis, sg_otel = plain_otel, sg_jsonb = render, sg_page = (\<lambda>r. []),
      sg_target = (\<lambda>b. ''http://localhost''), sg_url = sample_url, sg_backend_at = (\<lambda>u. Some Orders)\<rparr>"

definition sample_visit :: "string visit" where
  "sample_visit =
     \<lparr>vs_request = sample_order_request, vs_order_env = sample_order_env, vs_env = \<lparr>env_ms = 5, env_trace = None\<rparr>,
      vs_reachable = (\<lambda>b. True), vs_net = [], vs_nats = True\<rparr>"

definition sample_platform :: "(string \<rightharpoonup> string) platform" where
  "sample_platform =
     \<lparr>pl_orders = sample_world [], pl_broker = \<lparr>stream = [], recent = [], weather = []\<rparr>, pl_analytics = fresh zero_stats\<rparr>"

lemma sample_setting_ok: "setting_ok sample_setting"
  using jsonb_faithful_render sample_relay_ok(1)
  by (simp add: setting_ok_def sample_setting_def sample_url_def)

lemma sample_fair: "list_all fair_action [Visit sample_visit]"
  using sample_pre(3) sample_env_ok by (simp add: fair_visit_def sample_visit_def sample_order_request_def)

lemma sample_starts: "starts sample_platform"
  using sample_pre(4) [of "[]"]
  by (simp add: starts_def sample_platform_def sample_world_def stock_ok_def in_int32_def)

lemma sample_run:
  obtains n d where "platform_run sample_setting [Visit sample_visit] sample_platform = sample_platform\<lparr>pl_orders := (n, d)\<rparr>"
    and "tables (cs_next (peer n)) = [''A'' \<mapsto> (''a'', 6)]" and "script d = []"
    and "dom (orders (tables d)) = {''u1''}" and "length (outbox_events (tables d)) = 1"
    and "o_Quantity (the (orders (tables d) ''u1'')) = 4" and "o_SKU (the (orders (tables d) ''u1'')) = ''A''"
proof -
  let ?r = "sample_order_request" and ?S = sample_setting and ?v = sample_visit and ?w = sample_platform
  let ?out = "?r\<lparr>req_Pattern := [], req_PathValues := []\<rparr>"
  let ?dial = "\<lambda>u. Some (backend_server ?S ?v Orders)" and ?page = "static (\<lambda>r. [])"
  obtain r' calls effs n d where h: "order_service_http map_redis plain_otel order_ping ?page sample_order_env
      \<lparr>env_ms = 5, env_trace = None\<rparr> ?out (sample_world []) = (r', calls, effs, n, d)" by (metis prod.collapse)
  have r0: "req_Method ?out = ''POST''" "req_Path ?out = ''/orders''" "req_Body ?out = req_Body ?r"
    by (simp_all add: sample_order_request_def)
  from sample_served [OF r0 h] obtain j where
    s: "tables (cs_next (peer n)) = [''A'' \<mapsto> (''a'', 6)]" "script d = []"
    and c: "created sample_order (outbox_of plain_otel sample_order_env j) (world_db (sample_world [])) (tables d)" by blast
  let ?g = "\<lparr>gw_peer = ?w, gw_net = []\<rparr>" and ?gw = "\<lparr>gw_peer = ?w\<lparr>pl_orders := (n, d)\<rparr>, gw_net = []\<rparr>"
  have b: "backend_server ?S ?v Orders ?out ?w = (r', calls, effs, ?w\<lparr>pl_orders := (n, d)\<rparr>)"
    using h by (simp add: backend_server_def serve_in_def sample_setting_def sample_visit_def sample_platform_def)
  have run: "service_proxy ?dial (\<lambda>b. ''http://localhost'') sample_url Orders r1 ?g = (copy_response calls, [], ?gw)"
    if "req_Method r1 = req_Method ?r" "req_Path r1 = req_Path ?r" "req_Body r1 = req_Body ?r" for r1
  proof -
    have "outgoing (sample_url Orders) r1 = ?out"
      using that by (cases r1) (simp add: outgoing_def sample_url_def sample_order_request_def joining_root)
    with b show ?thesis by (simp add: ReverseProxy_def)
  qed
  have "path_segs ''/orders'' = [''orders'']" by (rule path_segs_last) simp_all
  then have p: "proxied (req_Method ?r) (path_segs (req_Path ?r)) = Some Orders"
    by (simp add: sample_order_request_def)
  obtain r2 more where "service_gateway ?dial (\<lambda>b. ''http://localhost'') sample_url ?page ?page
      \<lparr>env_ms = 5, env_trace = None\<rparr> ?r ?g = (r2, copy_response calls, [] @ more, ?gw)"
    using gateway_runs_proxy [where r = ?r and b = Orders and g = ?g and dial = ?dial
        and target = "\<lambda>b. ''http://localhost''" and u = sample_url and scrape = ?page and files = ?page
        and env = "\<lparr>env_ms = 5, env_trace = None\<rparr>", OF p run] by blast
  then have "visit ?S ?v ?w = (copy_response calls, ?w\<lparr>pl_orders := (n, d)\<rparr>)"
    by (simp add: visit_def sample_setting_def sample_visit_def)
  then have "platform_run ?S [Visit ?v] ?w = ?w\<lparr>pl_orders := (n, d)\<rparr>" by (simp add: platform_run_def)
  moreover have "orders (tables d) = [''u1'' \<mapsto> sample_order\<lparr>o_CreatedAt := timestamptz (o_CreatedAt sample_order)\<rparr>]"
    "length (outbox_events (tables d)) = 1"
    using c by (auto simp: created_def sample_world_def order_of_def sample_order_env_def)
  ultimately show thesis
    using s by (intro that [of n d]) (simp_all add: order_of_def)
qed

text \<open>
  C1. No overselling, end to end: whatever clients send through the gateway in whatever order, and
  whatever is lost between the gateway, the services, their databases, the cache and the broker, the
  units of all stored orders together with the units in stock never exceed the initial stock and what
  restocks asked to add, where no lost reservation call counts as \<open>Unavailable\<close>; and stock is not
  negative.
\<close>

theorem platform_never_oversells:
  assumes "setting_ok S" and "list_all fair_action acts" and "starts w"
  shows "0 \<le> available (pl_stock (platform_run S acts w)) k \<and>
    ordered k (pl_db (platform_run S acts w)) + available (pl_stock (platform_run S acts w)) k \<le>
      available (pl_stock w) k + total (action_restock k) acts"
  using platform_run_inv [OF assms(1,2) starts_inv(1) [OF assms(3)], of k] starts_inv(2,3) [OF assms(3)]
    available_nonneg [of "pl_stock (platform_run S acts w)" k]
  by simp

theorem platform_never_oversells_witness:
  "let w = platform_run sample_setting [Visit sample_visit] sample_platform
   in ordered ''A'' (pl_db w) = 4 \<and> available (pl_stock w) ''A'' = 6 \<and>
     ordered ''A'' (pl_db w) + available (pl_stock w) ''A'' \<le>
       available (pl_stock sample_platform) ''A'' + total (action_restock ''A'') [Visit sample_visit]"
proof -
  let ?w = "platform_run sample_setting [Visit sample_visit] sample_platform"
  obtain n d where run: "?w = sample_platform\<lparr>pl_orders := (n, d)\<rparr>"
    and st: "tables (cs_next (peer n)) = [''A'' \<mapsto> (''a'', 6)]" and db: "dom (orders (tables d)) = {''u1''}"
      "o_Quantity (the (orders (tables d) ''u1'')) = 4" "o_SKU (the (orders (tables d) ''u1'')) = ''A''"
    by (rule sample_run)
  have "ordered ''A'' (pl_db ?w) = 4" unfolding run ordered_def using db by (simp add: units_def)
  moreover have "available (pl_stock ?w) ''A'' = 6" unfolding run using st by (simp add: available_def)
  ultimately show ?thesis
    using platform_never_oversells [OF sample_setting_ok sample_fair sample_starts, of "''A''"] by (simp add: Let_def)
qed

text \<open>
  The outbox and the stream tell the truth: at every moment of every run, there are events, one for
  each outbox row, which the rows' payloads decode to; they are one for each stored order and agree with
  it in id, SKU, quantity and status, and in the time to the microsecond; and whatever is in the
  stream decodes to one of them.
\<close>

theorem platform_events_are_orders:
  assumes "setting_ok S" and "list_all fair_action acts" and "starts w"
  shows "\<exists>evs. told (sg_jsonb S) (pl_db (platform_run S acts w)) evs \<and>
    (\<forall>m \<in> set (stream (pl_broker (platform_run S acts w))).
       \<exists>e \<in> set evs. unmarshal_order_created (msg_Data m) = Inr e)"
proof -
  from platform_run_inv [OF assms(1,2) starts_inv(1) [OF assms(3)]]
  have I: "platform_inv S (platform_run S acts w)" by blast
  then obtain evs where t: "told (sg_jsonb S) (pl_db (platform_run S acts w)) evs" by (auto simp: platform_inv_def)
  from I have "relay_inv (sg_jsonb S) (pl_db (platform_run S acts w)) (broker_sent (pl_broker (platform_run S acts w)))"
    by (simp add: platform_inv_def)
  from stream_tells [OF this t] t show ?thesis by blast
qed

theorem platform_events_are_orders_witness:
  "\<exists>evs. told render (pl_db (platform_run sample_setting [Visit sample_visit] sample_platform)) evs \<and> length evs = 1"
proof -
  let ?w = "platform_run sample_setting [Visit sample_visit] sample_platform"
  obtain n d where run: "?w = sample_platform\<lparr>pl_orders := (n, d)\<rparr>" and "length (outbox_events (tables d)) = 1"
    by (rule sample_run)
  then have one: "length (outbox_events (pl_db ?w)) = 1" by simp
  from platform_events_are_orders [OF sample_setting_ok sample_fair sample_starts] obtain evs where
    t: "told (sg_jsonb sample_setting) (pl_db ?w) evs" by blast
  then have "length evs = 1" using one by (auto simp: told_def dest!: map_eq_imp_length_eq)
  with t show ?thesis by (auto simp: sample_setting_def)
qed

text \<open>
  C2. The totals catch up: after any run in which acknowledgements arrive and the broker deduplicates,
  once the database and the broker answer, \<open>n\<close> polls of the relay for up to \<open>20 n\<close> waiting events and
  one delivery of each message make \<open>/stats\<close> show the number of orders and the sum of their quantities.
\<close>

theorem platform_totals_catch_up:
  assumes "setting_ok S" and "list_all fair_action acts" and "starts w"
    and "list_all acks_arrive acts" and "window_holds (pl_broker w)"
    and "calm (platform_run S acts w)"
    and "length (unpublished (pl_db (platform_run S acts w))) \<le> 20 * n"
    and "length (outbox_events (pl_db (platform_run S acts w))) \<le> m"
  shows "let t = pl_db (platform_run S acts w);
      w' = platform_run S (acts @ replicate n (Poll ctx) @ map (\<lambda>i. Deliver ctx (i, True)) [0..<m]) w
    in Stats_Snapshot (cn_app (pl_analytics w')) =
      \<lparr>sn_OrdersCount = to_int64 (int (card (dom (orders t)))),
       sn_TotalQuantityReserved = to_int64 (\<Sum>i \<in> dom (orders t). o_Quantity (the (orders t i)))\<rparr>"
proof -
  let ?polls = "replicate n (Poll ctx)"
  define w1 where "w1 = platform_run S acts w"
  define w2 where "w2 = platform_run S ?polls w1"
  have w2: "w2 = platform_run S (acts @ ?polls) w" by (simp add: w1_def w2_def run_append)
  have fair: "list_all fair_action (acts @ ?polls)" "list_all acks_arrive (acts @ ?polls)"
    using assms(2,4) by (auto simp: list_all_iff)
  note s = starts_inv [OF assms(3)]
  have I1: "platform_inv S w1" unfolding w1_def using platform_run_inv [OF assms(1,2) s(1)] by blast
  from polls_drain [OF assms(1) I1, of n ctx] assms(6,7) have
    U: "unpublished (pl_db w2) = []" and B: "but_marks (pl_db w2) = but_marks (pl_db w1)"
    by (simp_all add: w1_def w2_def)
  from platform_run_inv [OF assms(1) fair(1) s(1)] s(5) [OF assms(5)] have
    I2: "platform_inv S w2" and D2: "dedup_inv (pl_broker w2)" by (auto simp: w2)
  from totals_run [OF assms(1) fair s(1,4)] have T2: "totals_inv (pl_analytics w2) (stream_data (pl_broker w2))"
    by (simp add: w2)
  obtain evs where t: "told (sg_jsonb S) (pl_db w1) evs" using I1 by (auto simp: platform_inv_def)
  then have t2: "told (sg_jsonb S) (pl_db w2) evs" using B told_but_marks by metis
  have M: "mset (map decoded (stream_data (pl_broker w2))) = mset evs" 
    using I2 D2 by (intro stream_is_outbox [OF _ _ U t2]) (simp_all add: platform_inv_def dedup_inv_def)
  have L: "length (stream (pl_broker w2)) \<le> m"
    using mset_eq_length [OF M] assms(8) t by (auto simp: told_def w1_def dest!: map_eq_imp_length_eq)
  define w3 where "w3 = platform_run S (map (\<lambda>i. Deliver ctx (i, True)) [0..<m]) w2"
  note A0 = deliveries_ack [OF assms(1) I2 T2, of ctx "[0..<m]", unfolded Let_def, folded w3_def]
  have "{..<length (stream (pl_broker w2))} \<subseteq> set [0..<m]" using L by (simp add: atLeast0LessThan)
  with A0 have A: "pl_broker w3 = pl_broker w2" "{..<length (stream (pl_broker w2))} \<subseteq> set (cn_acked (pl_analytics w3))"
    by blast+
  have "list_all fair_action (map (\<lambda>i. Deliver ctx (i, True)) [0..<m])"
    "list_all acks_arrive (map (\<lambda>i. Deliver ctx (i, True)) [0..<m])" by (auto simp: list_all_iff)
  from totals_run [OF assms(1) this I2 T2] A(1) have "totals_inv (pl_analytics w3) (stream_data (pl_broker w2))"
    by (simp add: w3_def)
  from totals_complete [OF this] A(2) mset_eq_length [OF M] sum_list_handled [OF M, of oc_Quantity] told_totals [OF t]
  show ?thesis by (simp add: Let_def run_append w1_def [symmetric] w2_def [symmetric] w3_def [symmetric])
qed

theorem platform_totals_catch_up_witness:
  "Stats_Snapshot (cn_app (pl_analytics (platform_run sample_setting
     ([Visit sample_visit] @ replicate 1 (Poll ''t'') @ map (\<lambda>i. Deliver ''t'' (i, True)) [0..<1]) sample_platform))) =
   \<lparr>sn_OrdersCount = 1, sn_TotalQuantityReserved = 4\<rparr>"
proof -
  let ?w = "platform_run sample_setting [Visit sample_visit] sample_platform"
  obtain n d where run: "?w = sample_platform\<lparr>pl_orders := (n, d)\<rparr>" and sc: "script d = []"
    and db: "dom (orders (tables d)) = {''u1''}" "length (outbox_events (tables d)) = 1"
      "o_Quantity (the (orders (tables d) ''u1'')) = 4"
    by (rule sample_run)
  have c: "calm ?w" unfolding run by (simp add: calm_def sc sample_platform_def)
  have out: "length (outbox_events (pl_db ?w)) \<le> 1" unfolding run using db(2) by simp
  have "length (unpublished (pl_db ?w)) \<le> length (outbox_events (pl_db ?w))" by (rule length_unpublished)
  with out have un: "length (unpublished (pl_db ?w)) \<le> 20 * 1" by linarith
  have acks: "list_all acks_arrive [Visit sample_visit]" "window_holds (pl_broker sample_platform)"
    by (simp_all add: window_holds_def sample_platform_def)
  have t: "dom (orders (pl_db ?w)) = {''u1''}" "o_Quantity (the (orders (pl_db ?w) ''u1'')) = 4"
    unfolding run using db by simp_all
  from platform_totals_catch_up [OF sample_setting_ok sample_fair sample_starts acks c un out, of "''t''"]
  show ?thesis by (simp only: Let_def t) (simp add: t in_int64_def)
qed

end
