(* ===== verification/Concurrency.thy ===== *)
theory Concurrency
  imports Platform
begin

text \<open>
  order-service's requests and relays side by side, with inventory-service behind them. The handler
  \<open>createOrder\<close>, the client's retries, an attempt with the cached store's work, the transaction of \<open>CreateOrder\<close>
  and the relay's poll are cut at their calls to Redis, Postgres, inventory-service and the broker; any
  number of them run at once, each may die at any point, and reads and restocks come in between. An
  attempt whose answer is lost goes on beside the retry. A transaction keeps its writes to itself until
  it commits, draws its id from the shared sequence at once, and waits for another that is inserting
  the same key, as Postgres does. Shown: the interleavings contain the operations of the other theories,
  a request alone running to the answer of \<open>createOrder\<close> and a relay alone being \<open>publishPending\<close>. What holds of
  all interleavings is in \<open>SideBySide\<close>.
\<close>

section \<open>Transactions side by side\<close>

text \<open>What a transaction has written and not yet committed.\<close>

record pending_tx =
  tx_order :: "order option"
  tx_row :: "outbox_row option"

definition no_writes :: pending_tx where
  "no_writes = \<lparr>tx_order = None, tx_row = None\<rparr>"

text \<open>The committed tables with the transaction's own writes: what its statements see.\<close>

definition tx_view :: "pending_tx \<Rightarrow> order_db \<Rightarrow> order_db" where
  "tx_view tx t =
     t\<lparr>orders := (case tx_order tx of None \<Rightarrow> orders t | Some ord \<Rightarrow> (orders t)(o_ID ord \<mapsto> ord)),
       outbox_events := outbox_events t @ (case tx_row tx of None \<Rightarrow> [] | Some r \<Rightarrow> [r])\<rparr>"

text \<open>A statement of a transaction; \<open>note\<close> records its write. The sequence is shared and moves at once.\<close>

definition shared_exec ::
  "(order_db \<Rightarrow> go_error option \<times> order_db) \<Rightarrow> (order_db \<Rightarrow> pending_tx \<Rightarrow> pending_tx) \<Rightarrow>
   pending_tx \<Rightarrow> order_db pg \<Rightarrow> (go_error option \<times> pending_tx) \<times> order_db pg" where
  "shared_exec stmt note tx db =
     (let (o1, rest) = next_io (script db); (r, t') = stmt (tx_view tx (tables db));
          ran = (o1 \<noteq> Fails_before)
      in ((if o1 = Works then r else Some connection_lost, if ran \<and> r = None then note t' tx else tx),
          \<lparr>tables = (if ran then keep_sequence t' (tables db) else tables db), script = rest\<rparr>))"

definition shared_commit :: "pending_tx \<Rightarrow> order_db pg \<Rightarrow> go_error option \<times> order_db pg" where
  "shared_commit tx db =
     (let (o1, rest) = next_io (script db) in
      (if o1 = Works then None else Some connection_lost,
       \<lparr>tables = (if o1 = Fails_before then tables db else tx_view tx (tables db)), script = rest\<rparr>))"

definition note_order :: "order \<Rightarrow> order_db \<Rightarrow> pending_tx \<Rightarrow> pending_tx" where
  "note_order ord t' tx = tx\<lparr>tx_order := orders t' (o_ID ord)\<rparr>"

definition note_row :: "order_db \<Rightarrow> pending_tx \<Rightarrow> pending_tx" where
  "note_row t' tx = tx\<lparr>tx_row := Some (last (outbox_events t'))\<rparr>"

section \<open>A request in steps\<close>

text \<open>
  Where a request to create an order stands: before its body is read, before the next attempt of the
  reservation (with its number, the effects of the calls and of the retries so far), with the units
  reserved, in its transaction after \<open>BEGIN\<close>, after each of the two inserts, answered, or dead.
\<close>

datatype 'c request_pc =
    Arrived "'c order_env" request
  | Reserving "'c order_env" createOrderRequest nat "effect list" "effect list"
  | Reserved "'c order_env" createOrderRequest "effect list"
  | Begun order OutboxEvent "effect list"
  | Order_in order OutboxEvent pending_tx "effect list"
  | Event_in order OutboxEvent pending_tx "effect list"
  | Answered "rw_call list" "effect list"
  | Dead

text \<open>The mapping of \<open>Reserve\<close> from the last error to its own, and the handler's switch over it.\<close>

definition reserve_error :: "go_error \<Rightarrow> go_error" where
  "reserve_error err =
     (if status_Code (Some err) = NotFound then Client_ErrNotFound
      else if status_Code (Some err) = FailedPrecondition then Client_ErrInsufficientStock
      else Wrapped ''call inventory-service'' err)"

definition refuse :: "createOrderRequest \<Rightarrow> go_error \<Rightarrow> effect list \<Rightarrow> 'c request_pc" where
  "refuse req err effs =
     (if errors_Is err Client_ErrNotFound then
        Answered (WriteError 404 ''item not found'') (effs @ [reservation_failed ''not_found''])
      else if errors_Is err Client_ErrInsufficientStock then
        Answered (WriteError 409 ''insufficient stock'') (effs @ [reservation_failed ''insufficient_stock''])
      else
        Answered (WriteError 502 ''inventory-service unavailable'')
          (effs @ [reservation_failed ''unavailable''] @ log_failure ''reserve stock failed'' ''sku'' (cr_SKU req) err))"

definition not_stored :: "string \<Rightarrow> go_error \<Rightarrow> string \<Rightarrow> effect list \<Rightarrow> 'c request_pc" where
  "not_stored step err sku effs =
     Answered (WriteError 500 ''internal error'')
       (effs @ log_failure ''create order failed'' ''sku'' sku (Wrapped step err))"

text \<open>One attempt of the reservation, with the wait after it.\<close>

definition reserve_step ::
  "(go_error + ReserveStockRequest \<Rightarrow> 's \<Rightarrow> (go_error + ReserveStockResponse) \<times> effect list \<times> 's) \<Rightarrow>
   'c order_env \<Rightarrow> createOrderRequest \<Rightarrow> nat \<Rightarrow> effect list \<Rightarrow> effect list \<Rightarrow> 's remote \<Rightarrow>
   'c request_pc \<times> 's remote" where
  "reserve_step server env req attempt calls retries n =
     (case reserve_call server (cr_SKU req) (cr_Quantity req) (n, None, calls) of
        (None, n', resp, calls') \<Rightarrow> (Reserved env req (calls' @ retries), n')
      | (Some e, n', resp, calls') \<Rightarrow>
          if \<not> isRetryableStatus e \<or> int attempt = MaxAttempts reserveRetryConfig - 1
          then (refuse req (reserve_error e) (calls' @ retries), n')
          else
            (case backoffDelay reserveRetryConfig attempt (env_draw (oe_retry env) attempt) of
               None \<Rightarrow> (Answered [] (calls' @ retries), n')
             | Some delay \<Rightarrow>
                 let retries' = retries @ reserve_OnRetry (int attempt + 1) delay e in
                 (case env_ctx_done (oe_retry env) attempt of
                    Some ce \<Rightarrow> (refuse req (reserve_error ce) (calls' @ retries'), n')
                  | None \<Rightarrow> (Reserving env req (attempt + 1) calls' retries', n'))))"

fun request_step ::
  "(go_error + ReserveStockRequest \<Rightarrow> 's \<Rightarrow> (go_error + ReserveStockResponse) \<times> effect list \<times> 's) \<Rightarrow>
   'c otel \<Rightarrow> 'c request_pc \<Rightarrow> 's remote \<times> order_db pg \<Rightarrow> 'c request_pc \<times> 's remote \<times> order_db pg" where
  "request_step server otel (Arrived env r) w =
     (case decode_create (req_Body r) of
        Inl err \<Rightarrow> (Answered (WriteError 400 ''invalid request body'') [], w)
      | Inr req \<Rightarrow>
          if cr_SKU req = [] \<or> cr_Quantity req \<le> 0
          then (Answered (WriteError 400 ''sku is required and quantity must be positive'') [], w)
          else (Reserving env req 0 [] [], w))"
| "request_step server otel (Reserving env req attempt calls retries) (n, db) =
     (let (p, n') = reserve_step server env req attempt calls retries n in (p, n', db))"
| "request_step server otel (Reserved env req effs) (n, db) =
     (let ord = order_of req env in
      case order_created_json (event_of ord) of
        None \<Rightarrow>
          (Answered (WriteError 500 ''internal error'')
             (effs @ log_failure ''encode order created event failed'' ''sku'' (cr_SKU req)
                (Json_Error ''year outside of range [0,9999]'')), n, db)
      | Some j \<Rightarrow>
          (case tx_begin db of
             (Inl err, db') \<Rightarrow> (not_stored ''begin transaction'' err (cr_SKU req) effs, n, db')
           | (Inr t, db') \<Rightarrow> (Begun ord (outbox_of otel env j) effs, n, db')))"
| "request_step server otel (Begun ord evt effs) (n, db) =
     (case shared_exec (insert_order ord) (note_order ord) no_writes db of
        ((Some err, tx), db') \<Rightarrow> (not_stored ''create order'' err (o_SKU ord) effs, n, db')
      | ((None, tx), db') \<Rightarrow> (Order_in ord evt tx effs, n, db'))"
| "request_step server otel (Order_in ord evt tx effs) (n, db) =
     (let traceParent = (if evt_TraceParent evt \<noteq> [] then Some (evt_TraceParent evt) else None) in
      case shared_exec (insert_event (evt_Subject evt) (evt_Payload evt) traceParent) note_row tx db of
        ((Some err, tx'), db') \<Rightarrow> (not_stored ''create outbox event'' err (o_SKU ord) effs, n, db')
      | ((None, tx'), db') \<Rightarrow> (Event_in ord evt tx' effs, n, db'))"
| "request_step server otel (Event_in ord evt tx effs) (n, db) =
     (case shared_commit tx db of
        (Some err, db') \<Rightarrow> (not_stored ''commit transaction'' err (o_SKU ord) effs, n, db')
      | (None, db') \<Rightarrow>
          (Answered (WriteJSON 201 (order_json ord)) (effs @ [Counter_Inc ''orders_created_total'' []]), n, db'))"
| "request_step server otel (Answered calls effs) w = (Answered calls effs, w)"
| "request_step server otel Dead w = (Dead, w)"

section \<open>Alone, the steps are the handler\<close>

abbreviation alone ::
  "(go_error + ReserveStockRequest \<Rightarrow> 's \<Rightarrow> (go_error + ReserveStockResponse) \<times> effect list \<times> 's) \<Rightarrow>
   'c otel \<Rightarrow> 'c request_pc \<times> 's remote \<times> order_db pg \<Rightarrow> 'c request_pc \<times> 's remote \<times> order_db pg" where
  "alone server otel \<equiv> \<lambda>(p, w). request_step server otel p w"

lemma tx_view_no_writes [simp]: "tx_view no_writes t = t"
  by (simp add: tx_view_def no_writes_def)

lemma insert_order_ok:
  "insert_order ord t = (None, t') \<Longrightarrow>
     t' = t\<lparr>orders := (orders t)(o_ID ord \<mapsto> ord\<lparr>o_CreatedAt := timestamptz (o_CreatedAt ord)\<rparr>)\<rparr> \<and>
     orders t (o_ID ord) = None \<and> in_int32 (o_Quantity ord) \<and> 0 < o_Quantity ord"
  by (auto simp: insert_order_def split: if_splits)

lemma insert_order_failed: "insert_order ord t = (Some e, t') \<Longrightarrow> t' = t"
  by (auto simp: insert_order_def split: if_splits)

lemma insert_event_failed: "insert_event s p tp t = (Some e, t') \<Longrightarrow> t' = t"
  by (auto simp: insert_event_def split: option.splits)

lemma keep_sequence_same [simp]: "next_id t' = next_id t \<Longrightarrow> keep_sequence t' t = t"
  by (simp add: keep_sequence_def)

text \<open>The write of an insert, and the tables as the transaction sees them after it.\<close>

lemma view_order:
  assumes "insert_order ord t = (None, t1)"
  shows "tx_view (note_order ord t1 no_writes) t = t1"
  using insert_order_ok [OF assms] by (simp add: tx_view_def note_order_def no_writes_def)

lemma view_row:
  assumes "insert_event s p tp (tx_view tx t) = (None, t2)" and "tx_row tx = None"
  shows "tx_view (note_row t2 tx) (keep_sequence t2 t) = t2"
  using assms by (auto simp: insert_event_def tx_view_def note_row_def keep_sequence_def split: option.splits)

lemma alone_CreateOrder:
  assumes "order_created_json (event_of (order_of req env)) = Some j"
    and "CreateOrder (order_of req env) (outbox_of otel env j) db = (res, db')"
  shows "(alone server otel ^^ 4) (Reserved env req effs, n, db) =
    (case res of
       None \<Rightarrow> Answered (WriteJSON 201 (order_json (order_of req env))) (effs @ [Counter_Inc ''orders_created_total'' []])
     | Some err \<Rightarrow> Answered (WriteError 500 ''internal error'')
         (effs @ log_failure ''create order failed'' ''sku'' (cr_SKU req) err), n, db')"
proof -
  let ?ord = "order_of req env" and ?evt = "outbox_of otel env j" and ?t = "tables db"
  let ?tp = "if evt_TraceParent ?evt \<noteq> [] then Some (evt_TraceParent ?evt) else None"
  obtain oa ra where a: "next_io (script db) = (oa, ra)" by force
  obtain ob rb where b: "next_io ra = (ob, rb)" by force
  obtain oc rc where c: "next_io rb = (oc, rc)" by force
  obtain od rd where d: "next_io rc = (od, rd)" by force
  obtain r1 t1 where i1: "insert_order ?ord ?t = (r1, t1)" by force
  obtain r2 t2 where i2: "insert_event (evt_Subject ?evt) (evt_Payload ?evt) ?tp t1 = (r2, t2)" by force
  have sku: "o_SKU ?ord = cr_SKU req" by (simp add: order_of_def)
  have n1: "next_id t1 = next_id ?t" using insert_order_next_id [of ?ord ?t] i1 by simp
  note defs = CreateOrder_def tx_begin_def tx_exec_def tx_commit_def tx_rollback_def shared_exec_def
    shared_commit_def not_stored_def a b i1 sku assms(1)
  show ?thesis
  proof (cases "oa = Works \<and> ob = Works \<and> r1 = None")
    case False
    with assms n1 show ?thesis
      by (cases oa; cases ob; cases r1) (auto simp: defs eval_nat_numeral Let_def)
  next
    case True
    then have i1': "insert_order ?ord ?t = (None, t1)" using i1 by simp
    have v: "tx_view (note_order ?ord t1 no_writes) ?t = t1" "tx_row (note_order ?ord t1 no_writes) = None"
      by (rule view_order [OF i1']) (simp add: note_order_def no_writes_def)
    have k: "keep_sequence t2 t1 = t2" if "r2 = Some e" for e
      using insert_event_failed i2 that by fastforce
    have w: "tx_view (note_row t2 (note_order ?ord t1 no_writes)) (keep_sequence t2 ?t) = t2" if "r2 = None"
      using view_row [of "evt_Subject ?evt" "evt_Payload ?evt" ?tp "note_order ?ord t1 no_writes" ?t t2] i2 v that by simp
    from True assms n1 v i2 w show ?thesis
      by (cases oc; cases od; cases r2) (auto simp: defs c d eval_nat_numeral Let_def)
  qed
qed

text \<open>What follows the reservation, by the result of \<open>Do\<close>.\<close>

fun after_reserve :: "'c order_env \<Rightarrow> createOrderRequest \<Rightarrow> effect list \<Rightarrow> do_result \<Rightarrow> 'c request_pc" where
  "after_reserve env req effs Panicked = Answered [] effs"
| "after_reserve env req effs (Returned (Some e)) = refuse req (reserve_error e) effs"
| "after_reserve env req effs (Returned None) = Reserved env req effs"

lemma reserve_call_resp: "reserve_call server sku q (n, resp, effs) = reserve_call server sku q (n, resp', effs)"
  by (simp add: reserve_call_def)

lemma alone_Reserve:
  assumes "Do_loop (oe_retry env) reserveRetryConfig (Some reserve_OnRetry) isRetryableStatus
      (reserve_call server (cr_SKU req) (cr_Quantity req)) a err (n, resp0, calls) = (r, ws, effs, n', resp, calls')"
    and "a < 6"
  shows "\<exists>m \<le> 6 - a. (alone server otel ^^ m) (Reserving env req a calls retries, n, db) =
    (after_reserve env req (calls' @ retries @ effs) r, n', db)"
  using assms
proof (induction "5 - a" arbitrary: a err n resp0 calls retries effs ws)
  case (0 a err n resp0 calls retries effs ws)
  then have "a = 5" by simp
  obtain q n1 resp1 calls1 where "reserve_call server (cr_SKU req) (cr_Quantity req) (n, resp0, calls) = (q, n1, resp1, calls1)"
    by (metis prod_cases4)
  moreover from this have "reserve_call server (cr_SKU req) (cr_Quantity req) (n, None, calls) = (q, n1, resp1, calls1)"
    using reserve_call_resp by metis
  ultimately show ?case using 0(2) \<open>a = 5\<close>
    by (intro exI [of _ 1])
      (cases q; auto simp: Do_loop.simps [of _ _ _ _ _ 5] reserve_step_def reserveRetryConfig_def)
next
  case (Suc x a err n resp0 calls retries effs ws)
  then have a: "a < 5" "x = 5 - (a + 1)" by auto
  obtain q n1 resp1 calls1 where q: "reserve_call server (cr_SKU req) (cr_Quantity req) (n, resp0, calls) = (q, n1, resp1, calls1)"
    by (metis prod_cases4)
  then have q': "reserve_call server (cr_SKU req) (cr_Quantity req) (n, None, calls) = (q, n1, resp1, calls1)"
    using reserve_call_resp by metis
  note D = Do_loop.simps [of _ _ _ _ _ a] reserve_step_def reserveRetryConfig_def q q'
  show ?case
  proof (cases "\<exists>e d. q = Some e \<and> isRetryableStatus e \<and>
      backoffDelay reserveRetryConfig a (env_draw (oe_retry env) a) = Some d \<and> env_ctx_done (oe_retry env) a = None")
    case False
    with Suc(3) a q q' show ?thesis
      by (intro exI [of _ 1]) (cases q; auto simp: D split: option.splits)
  next
    case True
    then obtain e d where e: "q = Some e" "isRetryableStatus e"
      "backoffDelay reserveRetryConfig a (env_draw (oe_retry env) a) = Some d" "env_ctx_done (oe_retry env) a = None"
      by blast
    with Suc(3) a q obtain effs1 ws1 where rest: "Do_loop (oe_retry env) reserveRetryConfig (Some reserve_OnRetry)
        isRetryableStatus (reserve_call server (cr_SKU req) (cr_Quantity req)) (a + 1) (Some e) (n1, resp1, calls1) =
          (r, ws1, effs1, n', resp, calls')"
      and effs: "effs = reserve_OnRetry (int a + 1) d e @ effs1"
      by (auto simp: Do_loop.simps [of _ _ _ _ _ a] reserveRetryConfig_def Let_def split: prod.splits)
    have "a + 1 < 6" using a(1) by simp
    from Suc(1) [OF a(2) rest this, of "retries @ reserve_OnRetry (int a + 1) d e"] obtain m where
      m: "m \<le> 6 - (a + 1)"
      "(alone server otel ^^ m) (Reserving env req (a + 1) calls1 (retries @ reserve_OnRetry (int a + 1) d e), n1, db) =
        (after_reserve env req (calls' @ (retries @ reserve_OnRetry (int a + 1) d e) @ effs1) r, n', db)"
      by blast
    have "alone server otel (Reserving env req a calls retries, n, db) =
        (Reserving env req (a + 1) calls1 (retries @ reserve_OnRetry (int a + 1) d e), n1, db)"
      using e a(1) by (simp add: D Let_def)
    then have "(alone server otel ^^ Suc m) (Reserving env req a calls retries, n, db) =
        (after_reserve env req (calls' @ retries @ effs) r, n', db)"
      using m(2) effs by (simp only: funpow_Suc_right o_apply append_assoc)
    with m(1) a(1) show ?thesis by (intro exI [of _ "Suc m"]) simp
  qed
qed

lemma alone_stays: "(alone server otel ^^ m) (Answered calls effs, w) = (Answered calls effs, w)"
  by (induction m) auto

lemma alone_answers:
  assumes "(alone server otel ^^ m) s = (Answered calls effs, w)" and "m \<le> m'"
  shows "(alone server otel ^^ m') s = (Answered calls effs, w)"
proof -
  from assms(2) have "m' = (m' - m) + m" by simp
  with assms(1) alone_stays [of "m' - m" server otel calls effs w] show ?thesis
    by (metis comp_apply funpow_add)
qed

lemma createOrder_refused:
  fixes env :: "'c order_env"
  assumes "decode_create (req_Body r) = Inr req" and "cr_SKU req \<noteq> []" and "0 < cr_Quantity req"
    and "reserve (oe_retry env) (cr_SKU req) (cr_Quantity req) n = (Some (Inl err), effs, n')"
  shows "\<exists>calls effs'. refuse req err effs = (Answered calls effs' :: 'c request_pc) \<and>
    createOrder reserve storeOrder otel env r (n, db) = (calls, effs', n', db)"
  using assms by (auto simp: createOrder_def refuse_def Let_def)

text \<open>A request that is admitted, that is, whose body decodes to a SKU and a positive quantity.\<close>

lemma alone_admitted:
  fixes env :: "'c order_env"
  assumes req: "decode_create (req_Body r) = Inr req" and adm: "\<not> (cr_SKU req = [] \<or> cr_Quantity req \<le> 0)"
  shows "(alone server otel ^^ 11) (Arrived env r, n, db) =
    (let (calls, effs, w) = createOrder (Client_Reserve server) CreateOrder otel env r (n, db)
     in (Answered calls effs, w))"
proof -
  obtain res ws retr n' resp calls where D: "Do (oe_retry env) reserveRetryConfig (Some reserve_OnRetry)
      isRetryableStatus (reserve_call server (cr_SKU req) (cr_Quantity req)) (n, None, []) = (res, ws, retr, n', resp, calls)"
    by (metis prod_cases6)
  from alone_Reserve [OF D [unfolded Do_def], of otel "[]" db] obtain m where m: "m \<le> 6"
    "(alone server otel ^^ m) (Reserving env req 0 [] [], n, db) = (after_reserve env req (calls @ retr) res, n', db)"
    by auto
  have "alone server otel (Arrived env r, n, db) = (Reserving env req 0 [] [], n, db)" using req adm by auto
  then have s: "(alone server otel ^^ Suc m) (Arrived env r, n, db) = (after_reserve env req (calls @ retr) res, n', db)"
    using m(2) by (simp only: funpow_Suc_right o_apply)
  show ?thesis
  proof (cases "\<exists>j. res = Returned None \<and> order_created_json (event_of (order_of req env)) = Some j")
    case True
    then obtain j where j: "res = Returned None" "order_created_json (event_of (order_of req env)) = Some j" by blast
    obtain x db' where x: "CreateOrder (order_of req env) (outbox_of otel env j) db = (x, db')" by force
    have "(alone server otel ^^ (4 + Suc m)) (Arrived env r, n, db) =
        (alone server otel ^^ 4) (Reserved env req (calls @ retr), n', db)"
      using s j(1) by (simp only: funpow_add o_apply after_reserve.simps)
    with alone_CreateOrder [OF j(2) x, of server "calls @ retr" n'] obtain calls' effs' where A:
      "(alone server otel ^^ (4 + Suc m)) (Arrived env r, n, db) = (Answered calls' effs', n', db')"
      "createOrder (Client_Reserve server) CreateOrder otel env r (n, db) = (calls', effs', n', db')"
      using req adm D j x
      by (cases x) (auto simp: createOrder_def Client_Reserve_def order_of_def outbox_of_def Let_def)
    with alone_answers [OF A(1), of 11] m(1) show ?thesis by simp
  next
    case no: False
    have "(alone server otel ^^ Suc (Suc m)) (Arrived env r, n, db) =
        alone server otel (after_reserve env req (calls @ retr) res, n', db)"
      using s by (simp only: funpow.simps(2) [of "Suc m"] o_apply)
    moreover have "\<exists>calls' effs'. alone server otel (after_reserve env req (calls @ retr) res, n', db) =
          (Answered calls' effs', n', db) \<and>
        createOrder (Client_Reserve server) CreateOrder otel env r (n, db) = (calls', effs', n', db)"
    proof (cases "(env, req, calls @ retr, res)" rule: after_reserve.cases)
      case (2 env1 req1 effs1 e)
      with D have "Client_Reserve server (oe_retry env) (cr_SKU req) (cr_Quantity req) n =
        (Some (Inl (reserve_error e)), calls @ retr, n')" by (simp add: Client_Reserve_def reserve_error_def)
      note R = createOrder_refused [where reserve = "Client_Reserve server", OF req _ _ this, of CreateOrder otel db]
      from adm have "cr_SKU req \<noteq> []" "0 < cr_Quantity req" by auto
      from R [OF this] obtain c e1 where "refuse req (reserve_error e) (calls @ retr) = (Answered c e1 :: 'c request_pc)"
        "createOrder (Client_Reserve server) CreateOrder otel env r (n, db) = (c, e1, n', db)" by blast
      with 2 show ?thesis by simp
    qed (use no req adm D in \<open>auto simp: createOrder_def Client_Reserve_def order_of_def Let_def\<close>)
    ultimately obtain calls' effs' where A:
      "(alone server otel ^^ Suc (Suc m)) (Arrived env r, n, db) = (Answered calls' effs', n', db)"
      "createOrder (Client_Reserve server) CreateOrder otel env r (n, db) = (calls', effs', n', db)"
      by metis
    with alone_answers [OF A(1), of 11] m(1) show ?thesis by simp
  qed
qed

text \<open>
  A request that runs alone is the handler: eleven steps, one for the body, six for the attempts of
  the reservation and four for the transaction, end in the answer, the effects, the connection and the
  database with which \<open>createOrder\<close> ends, whatever fails on the way.
\<close>

lemma request_alone:
  fixes env :: "'c order_env"
  shows "(alone server otel ^^ 11) (Arrived env r, n, db) =
    (let (calls, effs, w) = createOrder (Client_Reserve server) CreateOrder otel env r (n, db)
     in (Answered calls effs, w))"
proof (cases "decode_create (req_Body r)")
  case (Inl e)
  then have "(alone server otel ^^ 1) (Arrived env r, n, db) =
      (Answered (WriteError 400 ''invalid request body'') [], n, db)" by simp
  from alone_answers [OF this, of 11] Inl show ?thesis by (simp add: createOrder_def)
next
  case (Inr req)
  show ?thesis
  proof (cases "cr_SKU req = [] \<or> cr_Quantity req \<le> 0")
    case True
    with Inr have "(alone server otel ^^ 1) (Arrived env r, n, db) =
      (Answered (WriteError 400 ''sku is required and quantity must be positive'') [], n, db)" by auto
    from alone_answers [OF this, of 11] Inr True show ?thesis by (auto simp: createOrder_def)
  qed (rule alone_admitted [OF Inr])
qed

section \<open>A relay in steps\<close>

text \<open>
  Where a relay stands: before a poll, with the rest of a batch to publish, or with an event published
  and its mark still to set; each with what it has logged.
\<close>

datatype 'c relay_pc =
    Polling 'c "effect list"
  | Publishing 'c "event list" "effect list"
  | Marking 'c event "event list" "effect list"

fun relay_step ::
  "'c otel \<Rightarrow> (json \<Rightarrow> string) \<Rightarrow> 'c relay_pc \<Rightarrow> order_db pg \<times> broker \<Rightarrow> 'c relay_pc \<times> order_db pg \<times> broker" where
  "relay_step otel jsonb (Polling ctx log) (d, b) =
     (case FetchUnpublished jsonb batchSize d of
        (Inl err, d') \<Rightarrow>
          (Polling ctx (log @ [Log_Error ''failed to fetch outbox events'' [(''error'', err_text err)]]), d', b)
      | (Inr events, d') \<Rightarrow> (Publishing ctx events log, d', b))"
| "relay_step otel jsonb (Publishing ctx [] log) w = (Polling ctx log, w)"
| "relay_step otel jsonb (Publishing ctx (evt # evts) log) (d, b) =
     (case publishOne otel (Publish otel) ctx evt b of
        (Some err, b') \<Rightarrow>
          (Publishing ctx evts (log @ [Log_Error ''failed to publish outbox event''
             [(''outbox_id'', Itoa (ev_ID evt)), (''subject'', ev_Subject evt), (''error'', err_text err)]]), d, b')
      | (None, b') \<Rightarrow> (Marking ctx evt evts log, d, b'))"
| "relay_step otel jsonb (Marking ctx evt evts log) (d, b) =
     (case MarkPublished (ev_ID evt) d of
        (Some err, d') \<Rightarrow>
          (Publishing ctx evts (log @ [Log_Error ''failed to mark outbox event published''
             [(''outbox_id'', Itoa (ev_ID evt)), (''error'', err_text err)]]), d', b)
      | (None, d') \<Rightarrow> (Publishing ctx evts log, d', b))"

abbreviation alone_relay ::
  "'c otel \<Rightarrow> (json \<Rightarrow> string) \<Rightarrow> 'c relay_pc \<times> order_db pg \<times> broker \<Rightarrow> 'c relay_pc \<times> order_db pg \<times> broker" where
  "alone_relay otel jsonb \<equiv> \<lambda>(p, w). relay_step otel jsonb p w"

lemma alone_batch:
  assumes "publish_batch otel MarkPublished (Publish otel) ctx evts d b = (effs, d', b')"
  shows "\<exists>m. (alone_relay otel jsonb ^^ Suc m) (Publishing ctx evts log, d, b) = (Polling ctx (log @ effs), d', b')"
  using assms
proof (induction evts arbitrary: d b effs log)
  case Nil
  then show ?case by (intro exI [of _ 0]) simp
next
  case (Cons evt evts)
  obtain res b1 where p: "publishOne otel (Publish otel) ctx evt b = (res, b1)" by force
  obtain mr d1 where m: "MarkPublished (ev_ID evt) d = (mr, d1)" by force
  show ?case
  proof (cases res)
    case (Some err)
    let ?l = "[Log_Error ''failed to publish outbox event''
        [(''outbox_id'', Itoa (ev_ID evt)), (''subject'', ev_Subject evt), (''error'', err_text err)]]"
    from Some p Cons.prems obtain effs1 where
      "publish_batch otel MarkPublished (Publish otel) ctx evts d b1 = (effs1, d', b')" "effs = ?l @ effs1"
      by (auto simp: Let_def split: prod.splits)
    with Cons.IH [of d b1 effs1 "log @ ?l"] obtain k where
      "(alone_relay otel jsonb ^^ Suc k) (Publishing ctx evts (log @ ?l), d, b1) = (Polling ctx (log @ effs), d', b')"
      by auto
    with Some p show ?thesis by (intro exI [of _ "Suc k"]) (simp add: funpow_swap1)
  next
    case None
    let ?l = "(case mr of None \<Rightarrow> [] | Some err \<Rightarrow> [Log_Error ''failed to mark outbox event published''
        [(''outbox_id'', Itoa (ev_ID evt)), (''error'', err_text err)]])"
    from None p m Cons.prems obtain effs1 where
      "publish_batch otel MarkPublished (Publish otel) ctx evts d1 b1 = (effs1, d', b')" "effs = ?l @ effs1"
      by (auto simp: Let_def split: prod.splits option.splits)
    with Cons.IH [of d1 b1 effs1 "log @ ?l"] obtain k where
      "(alone_relay otel jsonb ^^ Suc k) (Publishing ctx evts (log @ ?l), d1, b1) = (Polling ctx (log @ effs), d', b')"
      by auto
    with None p m show ?thesis by (intro exI [of _ "Suc (Suc k)"]) (cases mr; simp add: funpow_swap1)
  qed
qed

text \<open>
  C12. A relay that runs alone is \<open>publishPending\<close>: after finitely many steps it is back before its next
  poll, with the log, the database and the broker with which \<open>publishPending\<close> ends, whatever fails.
\<close>

theorem relay_alone_is_publishPending:
  "\<exists>m. (alone_relay otel jsonb ^^ Suc m) (Polling ctx log, d, b) =
    (let (effs, w) = publishPending otel (FetchUnpublished jsonb) MarkPublished (Publish otel) ctx d b
     in (Polling ctx (log @ effs), w))"
proof (cases "FetchUnpublished jsonb batchSize d")
  case (Pair res d1)
  show ?thesis
  proof (cases res)
    case (Inl err)
    with Pair show ?thesis by (intro exI [of _ 0]) (simp add: publishPending_def)
  next
    case (Inr evs)
    obtain effs d' b' where B: "publish_batch otel MarkPublished (Publish otel) ctx evs d1 b = (effs, d', b')"
      by (rule prod_cases3)
    from alone_batch [OF this] obtain m where
      "(alone_relay otel jsonb ^^ Suc m) (Publishing ctx evs log, d1, b) = (Polling ctx (log @ effs), d', b')" by blast
    with Pair Inr B show ?thesis
      by (intro exI [of _ "Suc m"]) (simp add: publishPending_def funpow_swap1)
  qed
qed

section \<open>All of them at once\<close>

text \<open>
  A request to order-service; a request whose reservation is being served, at the place in inventory-service
  where it is; a relay; and a request to inventory-service on its own: a read, a restock, or a reservation
  that nobody waits for any more.
\<close>

datatype 'c process =
    Request "'c request_pc"
  | Calling "'c order_env" createOrderRequest nat "effect list" "effect list" pc
  | Relaying "'c relay_pc"
  | Serving pc

type_synonym 'r shared = "'r order_world \<times> broker"

abbreviation sh_stock :: "'r shared \<Rightarrow> stock" where
  "sh_stock w \<equiv> world_stock (fst w)"

abbreviation sh_db :: "'r shared \<Rightarrow> order_db" where
  "sh_db w \<equiv> world_db (fst w)"

text \<open>The store call an attempt asks for, and the answer of the gRPC server when the store answered \<open>r\<close>.\<close>

definition call_op :: "createOrderRequest \<Rightarrow> store_op" where
  "call_op req = Op_Reserve (cr_SKU req) (to_int32 (cr_Quantity req))"

definition call_reply :: "createOrderRequest \<Rightarrow> go_error + item \<Rightarrow> go_error + ReserveStockResponse" where
  "call_reply req r =
     fst (inventory_grpc (\<lambda>sku q u. (r, u)) (Inr \<lparr>rq_Sku = cr_SKU req, rq_Quantity = to_int32 (cr_Quantity req)\<rparr>) ())"

text \<open>The server refuses a quantity that is not positive before it asks the store.\<close>

definition call_refused :: "createOrderRequest \<Rightarrow> bool" where
  "call_refused req \<longleftrightarrow> cr_SKU req = [] \<or> to_int32 (cr_Quantity req) \<le> 0"

text \<open>What the client makes of an attempt that ended with \<open>res\<close>.\<close>

definition attempt_over ::
  "'c order_env \<Rightarrow> createOrderRequest \<Rightarrow> nat \<Rightarrow> effect list \<Rightarrow> effect list \<Rightarrow>
   go_error + ReserveStockResponse \<Rightarrow> 'c request_pc" where
  "attempt_over env req attempt calls retries res =
     fst (reserve_step (\<lambda>m u. (res, [], u)) env req attempt calls retries \<lparr>peer = (), net = []\<rparr>)"

text \<open>
  An attempt goes out. When its answer is lost the client gives up at once, and what the server does
  goes on beside it.
\<close>

definition place_call ::
  "'c order_env \<Rightarrow> createOrderRequest \<Rightarrow> nat \<Rightarrow> effect list \<Rightarrow> effect list \<Rightarrow> 's remote \<Rightarrow>
   'c process \<times> 'c process list \<times> 's remote" where
  "place_call env req attempt calls retries n =
     (let over = (\<lambda>res. Request (attempt_over env req attempt calls retries res));
          go = (if call_refused req then over (call_reply req (Inl Inventory_ErrNotFound))
                else Calling env req attempt calls retries (Started (call_op req)))
      in case net n of
           [] \<Rightarrow> (go, [], n)
         | (Works, c) # rest \<Rightarrow> (go, [], n\<lparr>net := rest\<rparr>)
         | (Fails_before, c) # rest \<Rightarrow> (over (Inl (transport_error c)), [], n\<lparr>net := rest\<rparr>)
         | (Fails_after, c) # rest \<Rightarrow>
             (over (Inl (transport_error c)), if call_refused req then [] else [Serving (Started (call_op req))],
              n\<lparr>net := rest\<rparr>))"

abbreviation store_step :: "'r redis_client \<Rightarrow> pc \<Rightarrow> (stock pg, 'r) caching \<Rightarrow> pc \<times> (stock pg, 'r) caching" where
  "store_step redis \<equiv> caching_step redis pg_GetItem pg_ReserveStock pg_RestockItem"

text \<open>One step of a process; it may leave another behind.\<close>

fun process_step ::
  "('c, 'r) setting \<Rightarrow> 'c process \<Rightarrow> 'r shared \<Rightarrow> 'c process \<times> 'c process list \<times> 'r shared" where
  "process_step S (Request (Reserving env req attempt calls retries)) ((n, d), b) =
     (let (p, left, n') = place_call env req attempt calls retries n in (p, left, ((n', d), b)))"
| "process_step S (Request p) (w, b) =
     (let (p', w') = request_step (inventory_service_grpc (sg_redis S)) (sg_otel S) p w in (Request p', [], (w', b)))"
| "process_step S (Calling env req attempt calls retries (Done x r)) w =
     (Request (attempt_over env req attempt calls retries (call_reply req r)), [], w)"
| "process_step S (Calling env req attempt calls retries p) ((n, d), b) =
     (let (p', c) = store_step (sg_redis S) p (peer n)
      in (Calling env req attempt calls retries p', [], ((n\<lparr>peer := c\<rparr>, d), b)))"
| "process_step S (Relaying p) ((n, d), b) =
     (let (p', d', b') = relay_step (sg_otel S) (sg_jsonb S) p (d, b) in (Relaying p', [], ((n, d'), b')))"
| "process_step S (Serving p) ((n, d), b) =
     (let (p', c) = store_step (sg_redis S) p (peer n) in (Serving p', [], ((n\<lparr>peer := c\<rparr>, d), b)))"

text \<open>
  The uncommitted writes of a process; a death loses them. A call whose caller dies goes on in
  inventory-service, a relay starts over.
\<close>

fun writes :: "'c process \<Rightarrow> pending_tx" where
  "writes (Request (Order_in ord evt tx effs)) = tx"
| "writes (Request (Event_in ord evt tx effs)) = tx"
| "writes _ = no_writes"

fun dies :: "'c process \<Rightarrow> 'c process" where
  "dies (Request p) = Request Dead"
| "dies (Calling env req attempt calls retries p) = Serving p"
| "dies (Relaying (Polling ctx log)) = Relaying (Polling ctx [])"
| "dies (Relaying (Publishing ctx evts log)) = Relaying (Polling ctx [])"
| "dies (Relaying (Marking ctx evt evts log)) = Relaying (Polling ctx [])"
| "dies (Serving p) = Serving p"

definition keys :: "'c process \<Rightarrow> string list" where
  "keys p = (case tx_order (writes p) of None \<Rightarrow> [] | Some ord \<Rightarrow> [o_ID ord])"

definition rows :: "'c process \<Rightarrow> outbox_row list" where
  "rows p = (case tx_row (writes p) of None \<Rightarrow> [] | Some r \<Rightarrow> [r])"

text \<open>An \<open>INSERT\<close> waits while another open transaction has inserted its key.\<close>

fun blocked :: "'c process \<Rightarrow> 'c process list \<Rightarrow> bool" where
  "blocked (Request (Begun ord evt effs)) ps = (o_ID ord \<in> set (concat (map keys ps)))"
| "blocked _ ps = False"

inductive concurrent ::
  "('c, 'r) setting \<Rightarrow> 'c process list \<times> 'r shared \<Rightarrow> 'c process list \<times> 'r shared \<Rightarrow> bool" for S where
  moves: "i < length ps \<Longrightarrow> \<not> blocked (ps ! i) ps \<Longrightarrow> process_step S (ps ! i) w = (p, left, w') \<Longrightarrow>
    concurrent S (ps, w) (ps[i := p] @ left, w')"
| stops: "i < length ps \<Longrightarrow> concurrent S (ps, w) (ps[i := dies (ps ! i)], w)"

inductive_cases concurrentE: "concurrent S (ps, w) st"

section \<open>One after the other is one of the interleavings\<close>

lemma attempt_over_eq:
  assumes "grpc_Invoke server \<lparr>rq_Sku = cr_SKU req, rq_Quantity = to_int32 (cr_Quantity req)\<rparr> n = (res, n')"
  shows "reserve_step server env req a calls retries n = (attempt_over env req a calls retries res, n')"
proof -
  have "grpc_Invoke (\<lambda>m u. (res, [], u)) \<lparr>rq_Sku = cr_SKU req, rq_Quantity = to_int32 (cr_Quantity req)\<rparr> \<lparr>peer = (), net = []\<rparr>
    = (res, \<lparr>peer = (), net = []\<rparr>)" by (simp add: grpc_Invoke_def)
  with assms show ?thesis
    by (auto simp: attempt_over_def reserve_step_def reserve_call_def UnaryClientInterceptor_def Let_def
        split: sum.splits option.splits)
qed

text \<open>The server runs the call's operation on the store and answers what it returned.\<close>

lemma served_call:
  assumes "\<not> call_refused req" and "run_op get (caching_ReserveStock redis pg_ReserveStock) rst (call_op req) c = (r, c')"
  shows "\<exists>effs. inventory_service_grpc redis (Inr \<lparr>rq_Sku = cr_SKU req, rq_Quantity = to_int32 (cr_Quantity req)\<rparr>) c =
    (call_reply req r, effs, c')"
  using assms
  by (auto simp: call_reply_def call_refused_def call_op_def inventory_grpc_def ReserveStock_Handler_def
      UnaryServerInterceptor_def grpc_ReserveStock_def rq_GetSku_def rq_GetQuantity_def Let_def split: sum.splits prod.splits)

lemma refused_call:
  assumes "call_refused req"
  shows "\<exists>effs. inventory_service_grpc redis (Inr \<lparr>rq_Sku = cr_SKU req, rq_Quantity = to_int32 (cr_Quantity req)\<rparr>) c =
    (call_reply req r, effs, c)"
  using assms
  by (auto simp: call_reply_def call_refused_def inventory_grpc_def ReserveStock_Handler_def
      UnaryServerInterceptor_def grpc_ReserveStock_def rq_GetSku_def rq_GetQuantity_def Let_def)

text \<open>A reservation nobody waited for that has ended.\<close>

fun finished :: "'c process \<Rightarrow> bool" where
  "finished (Serving (Done (Op_Reserve sku q) r)) = True"
| "finished _ = False"

abbreviation runs :: "('c, 'r) setting \<Rightarrow> 'c process list \<times> 'r shared \<Rightarrow> 'c process list \<times> 'r shared \<Rightarrow> bool" where
  "runs S \<equiv> (concurrent S)\<^sup>*\<^sup>*"

lemma moves_once:
  assumes "process_step S (ps ! i) w = (p, left, w')" and "i < length ps" and "\<not> blocked (ps ! i) ps"
  shows "runs S (ps, w) (ps[i := p] @ left, w')"
  using moves [OF assms(2,3,1)] by (rule r_into_rtranclp)

text \<open>The store steps of a call, and of one that nobody waits for, by what they are wrapped in.\<close>

lemma store_runs:
  fixes f :: "pc \<Rightarrow> 'c process"
  assumes f: "\<And>p n p1 c1. store_step (sg_redis S) p (peer n) = (p1, c1) \<Longrightarrow> (\<nexists>x r. p = Done x r) \<Longrightarrow>
      process_step S (f p) ((n, d), b) = (f p1, [], ((n\<lparr>peer := c1\<rparr>, d), b))"
    and nb: "\<And>p ps. \<not> blocked (f p) ps"
    and "((\<lambda>(p, c). store_step (sg_redis S) p c) ^^ m) (p, peer n) = (Done x r, c)"
    and "i < length ps" and "ps ! i = f p"
  shows "runs S (ps, ((n, d), b)) (ps[i := f (Done x r)], ((n\<lparr>peer := c\<rparr>, d), b))"
  using assms(3-5)
proof (induction m arbitrary: p n ps)
  case 0
  then have "ps[i := f (Done x r)] = ps" by (metis funpow_0 list_update_id prod.inject)
  moreover from 0 have "n\<lparr>peer := c\<rparr> = n" by (cases n) auto
  ultimately show ?case by simp
next
  case (Suc m)
  obtain p1 c1 where s: "store_step (sg_redis S) p (peer n) = (p1, c1)" by force
  show ?case
  proof (cases "\<exists>x' r'. p = Done x' r'")
    case True
    with Suc.prems(1) have "((\<lambda>(p, c). store_step (sg_redis S) p c) ^^ m) (p, peer n) = (Done x r, c)"
      by (auto simp: funpow_swap1)
    from Suc.IH [OF this Suc.prems(2,3)] show ?thesis .
  next
    case False
    from f [OF s False] have "process_step S (ps ! i) ((n, d), b) = (f p1, [], ((n\<lparr>peer := c1\<rparr>, d), b))"
      by (simp add: Suc.prems(3))
    from moves_once [OF this Suc.prems(2)] nb have
      "runs S (ps, ((n, d), b)) (ps[i := f p1], ((n\<lparr>peer := c1\<rparr>, d), b))"
      by (simp add: Suc.prems(3))
    moreover have "((\<lambda>(p, c). store_step (sg_redis S) p c) ^^ m) (p1, peer (n\<lparr>peer := c1\<rparr>)) = (Done x r, c)"
      using Suc.prems(1) s by (simp add: funpow_swap1)
    from Suc.IH [OF this, of "ps[i := f p1]"] Suc.prems(2)
    have "runs S (ps[i := f p1], ((n\<lparr>peer := c1\<rparr>, d), b)) (ps[i := f (Done x r)], ((n\<lparr>peer := c\<rparr>, d), b))" by simp
    ultimately show ?thesis by (rule rtranclp_trans)
  qed
qed

lemma calling_step:
  "store_step (sg_redis S) p (peer n) = (p1, c1) \<Longrightarrow> (\<nexists>x r. p = Done x r) \<Longrightarrow>
     process_step S (Calling env req a calls retries p) ((n, d), b) =
       (Calling env req a calls retries p1, [], ((n\<lparr>peer := c1\<rparr>, d), b))"
  by (cases p) auto

lemma not_blocked: "\<not> blocked (Calling env req a calls retries p) ps" "\<not> blocked (Serving p) ps"
  by simp_all

lemma calling_runs:
  assumes "((\<lambda>(p, c). store_step (sg_redis S) p c) ^^ m) (p, peer n) = (Done x r, c)"
    and "i < length ps" and "ps ! i = Calling env req a calls retries p"
  shows "runs S (ps, ((n, d), b)) (ps[i := Calling env req a calls retries (Done x r)], ((n\<lparr>peer := c\<rparr>, d), b))"
  by (rule store_runs [where f = "Calling env req a calls retries", OF calling_step not_blocked(1) assms])

lemma serving_runs:
  assumes "((\<lambda>(p, c). store_step (sg_redis S) p c) ^^ m) (p, peer n) = (Done x r, c)"
    and "i < length ps" and "ps ! i = Serving p"
  shows "runs S (ps, ((n, d), b)) (ps[i := Serving (Done x r)], ((n\<lparr>peer := c\<rparr>, d), b))"
  by (rule store_runs [where f = Serving, OF _ not_blocked(2) assms]) simp

text \<open>An attempt with all its steps, and with what a lost answer leaves behind served to its end, is the attempt in one step.\<close>

lemma answered_call_runs:
  assumes "inventory_service_grpc (sg_redis S) (Inr \<lparr>rq_Sku = cr_SKU req, rq_Quantity = to_int32 (cr_Quantity req)\<rparr>) (peer n)
      = (res, effs, c)"
    and "i < length ps"
    and "ps ! i = (if call_refused req then Request (attempt_over env req a calls retries (call_reply req (Inl Inventory_ErrNotFound)))
      else Calling env req a calls retries (Started (call_op req)))"
  shows "runs S (ps, ((n, d), b)) (ps[i := Request (attempt_over env req a calls retries res)], ((n\<lparr>peer := c\<rparr>, d), b))"
proof (cases "call_refused req")
  case True
  with assms(1) refused_call [OF True, of "sg_redis S" "peer n" "Inl Inventory_ErrNotFound"]
  have "n\<lparr>peer := c\<rparr> = n" "res = call_reply req (Inl Inventory_ErrNotFound)" by auto
  moreover from this True assms(3) have "ps[i := Request (attempt_over env req a calls retries res)] = ps" by (metis list_update_id)
  ultimately show ?thesis by simp
next
  case False
  obtain r c' where op: "cpg_op (sg_redis S) (call_op req) (peer n) = (r, c')" by force
  from served_call [OF False op] assms(1) have res: "res = call_reply req r" "c' = c" by auto
  let ?done = "Calling env req a calls retries (Done (call_op req) r)"
  from calling_runs [OF caching_step_run_op [OF op], of i ps env req a calls retries d b] False assms(2,3) res
  have "runs S (ps, ((n, d), b)) (ps[i := ?done], ((n\<lparr>peer := c\<rparr>, d), b))" by simp
  also have "runs S (ps[i := ?done], ((n\<lparr>peer := c\<rparr>, d), b)) (ps[i := Request (attempt_over env req a calls retries res)], ((n\<lparr>peer := c\<rparr>, d), b))"
    using moves_once [of S "ps[i := ?done]" i "((n\<lparr>peer := c\<rparr>, d), b)"] assms(2) res by simp
  finally show ?thesis .
qed

lemma lost_call_runs:
  assumes "inventory_service_grpc (sg_redis S) (Inr \<lparr>rq_Sku = cr_SKU req, rq_Quantity = to_int32 (cr_Quantity req)\<rparr>) (peer n)
      = (res, effs, c)"
  shows "\<exists>left. list_all finished left \<and>
    runs S (ps @ (if call_refused req then [] else [Serving (Started (call_op req))]), ((n, d), b)) (ps @ left, ((n\<lparr>peer := c\<rparr>, d), b))"
proof (cases "call_refused req")
  case True
  with assms refused_call [OF True, of "sg_redis S" "peer n" "Inl Inventory_ErrNotFound"] have "n\<lparr>peer := c\<rparr> = n" by auto
  with True show ?thesis by (intro exI [of _ "[]"]) simp
next
  case False
  obtain r c' where op: "cpg_op (sg_redis S) (call_op req) (peer n) = (r, c')" by force
  from served_call [OF False op] assms have "c' = c" by auto
  with serving_runs [OF caching_step_run_op [OF op], of "length ps" "ps @ [Serving (Started (call_op req))]" d b] False
  show ?thesis by (intro exI [of _ "[Serving (Done (call_op req) r)]"]) (simp add: call_op_def)
qed

lemma attempt_runs:
  assumes "reserve_step (inventory_service_grpc (sg_redis S)) env req a calls retries n = (p', n')"
    and "i < length ps" and "ps ! i = Request (Reserving env req a calls retries)"
  shows "\<exists>left. list_all finished left \<and> runs S (ps, ((n, d), b)) (ps[i := Request p'] @ left, ((n', d), b))"
proof -
  let ?m = "\<lparr>rq_Sku = cr_SKU req, rq_Quantity = to_int32 (cr_Quantity req)\<rparr>"
  obtain res n1 where inv: "grpc_Invoke (inventory_service_grpc (sg_redis S)) ?m n = (res, n1)" by force
  from attempt_over_eq [OF inv, of env a calls retries] assms(1) have p': "p' = attempt_over env req a calls retries res" "n1 = n'"
    by simp_all
  obtain x effs c where serve: "inventory_service_grpc (sg_redis S) (Inr ?m) (peer n) = (x, effs, c)" by (rule prod_cases3)
  obtain p left n2 where placed: "place_call env req a calls retries n = (p, left, n2)" by (rule prod_cases3)
  have "process_step S (ps ! i) ((n, d), b) = (p, left, ((n2, d), b))" using placed by (simp add: assms(3))
  from moves_once [OF this assms(2)] have go: "runs S (ps, ((n, d), b)) (ps[i := p] @ left, ((n2, d), b))"
    by (simp add: assms(3))
  show ?thesis
  proof (cases "net n = [] \<or> fst (hd (net n)) = Works")
    case True
    with placed inv serve have "res = x" "n' = n2\<lparr>peer := c\<rparr>" "left = []" and "peer n2 = peer n"
      and p: "p = (if call_refused req then Request (attempt_over env req a calls retries (call_reply req (Inl Inventory_ErrNotFound)))
        else Calling env req a calls retries (Started (call_op req)))"
      using p'(2) by (cases "net n"; cases "hd (net n)"; auto simp: place_call_def grpc_Invoke_def Let_def)+
    with answered_call_runs [of S req n2 x effs c i "ps[i := p]" env a calls retries d b] serve assms(2) go p'(1)
    show ?thesis by (intro exI [of _ "[]"]) (auto intro: rtranclp_trans)
  next
    case False
    then obtain o1 k rest where n: "net n = (o1, k) # rest" "o1 \<noteq> Works" by (cases "net n") auto
    show ?thesis
    proof (cases "o1 = Fails_before")
      case True
      with n placed inv p'(2) have "res = Inl (transport_error k)" "n' = n2" "left = []"
        "p = Request (attempt_over env req a calls retries res)"
        by (auto simp: place_call_def grpc_Invoke_def Let_def split: prod.splits)
      with go p'(1) show ?thesis by (intro exI [of _ "[]"]) simp
    next
      case False
      with n(2) have "o1 = Fails_after" by (cases o1) auto
      with n placed inv serve p'(2) have "res = Inl (transport_error k)" "n' = n2\<lparr>peer := c\<rparr>" "peer n2 = peer n"
        "left = (if call_refused req then [] else [Serving (Started (call_op req))])"
        "p = Request (attempt_over env req a calls retries res)"
        by (auto simp: place_call_def grpc_Invoke_def Let_def)
      with lost_call_runs [of S req n2 x effs c "ps[i := p]" d b] serve go p'(1) show ?thesis
        by (auto intro: rtranclp_trans)
    qed
  qed
qed

lemma finished_keys: "finished p \<Longrightarrow> keys p = []"
  by (cases p rule: finished.cases) (simp_all add: keys_def no_writes_def)

text \<open>The steps of a request when no other transaction is in its way.\<close>

lemma alone_runs:
  assumes "(alone (inventory_service_grpc (sg_redis S)) (sg_otel S) ^^ m) (p, n, d) = (p', n', d')"
    and "i < length ps" and "ps ! i = Request p" and "\<forall>j < length ps. j \<noteq> i \<longrightarrow> keys (ps ! j) = []"
  shows "\<exists>left. list_all finished left \<and> runs S (ps, ((n, d), b)) (ps[i := Request p'] @ left, ((n', d'), b))"
  using assms
proof (induction m arbitrary: p n d ps)
  case 0
  then have "ps[i := Request p'] = ps" by (metis list_update_id funpow_0 prod.inject)
  with 0 show ?case by (intro exI [of _ "[]"]) simp
next
  case (Suc m)
  let ?f = "alone (inventory_service_grpc (sg_redis S)) (sg_otel S)"
  obtain p1 n1 d1 where s: "?f (p, n, d) = (p1, n1, d1)" by (rule prod_cases3)
  have "\<not> blocked (ps ! i) ps"
  proof
    assume "blocked (ps ! i) ps"
    then obtain ord evt effs where p: "p = Begun ord evt effs" and k: "o_ID ord \<in> set (concat (map keys ps))"
      by (cases "(ps ! i, ps)" rule: blocked.cases) (auto simp: Suc.prems(3))
    then have "keys (ps ! i) = []" by (simp add: Suc.prems(3) keys_def no_writes_def)
    with Suc.prems(4) have "\<forall>q \<in> set ps. keys q = []" by (metis in_set_conv_nth)
    with k show False by auto
  qed
  note once = moves_once [OF _ Suc.prems(2) this]
  have "\<exists>left. list_all finished left \<and> runs S (ps, ((n, d), b)) (ps[i := Request p1] @ left, ((n1, d1), b))"
  proof (cases "\<exists>env req a calls retries. p = Reserving env req a calls retries")
    case True
    then obtain env req a calls retries where p: "p = Reserving env req a calls retries" by blast
    with s have "reserve_step (inventory_service_grpc (sg_redis S)) env req a calls retries n = (p1, n1)" "d1 = d"
      by (auto simp: Let_def split: prod.splits)
    with attempt_runs [OF this(1) Suc.prems(2)] p Suc.prems(3) show ?thesis by simp
  next
    case False
    with s have "process_step S (ps ! i) ((n, d), b) = (Request p1, [], ((n1, d1), b))"
      by (cases p) (auto simp: Suc.prems(3))
    from once [OF this] show ?thesis by (intro exI [of _ "[]"]) simp
  qed
  then obtain left where left: "list_all finished left"
    and go: "runs S (ps, ((n, d), b)) (ps[i := Request p1] @ left, ((n1, d1), b))" by blast
  have rest: "(?f ^^ m) (p1, n1, d1) = (p', n', d')" using Suc.prems(1) s by (simp add: funpow_swap1)
  have "\<forall>j < length (ps[i := Request p1] @ left). j \<noteq> i \<longrightarrow> keys ((ps[i := Request p1] @ left) ! j) = []"
    using Suc.prems(4) left by (auto simp: nth_append list_all_length finished_keys)
  from Suc.IH [OF rest _ _ this] Suc.prems(2) obtain left' where "list_all finished left'"
    "runs S (ps[i := Request p1] @ left, ((n1, d1), b)) ((ps[i := Request p1] @ left)[i := Request p'] @ left', ((n', d'), b))"
    by (auto simp: nth_append)
  with go left Suc.prems(2) show ?case
    by (intro exI [of _ "left @ left'"]) (auto simp: list_update_append intro: rtranclp_trans)
qed

text \<open>
  C11. The interleavings contain the handler: a request that nothing interferes with, cut at each call to
  Redis, Postgres and inventory-service, can run to the answer and the effects with which \<open>createOrder\<close>
  ends, and leaves the stock, the cache, the connection and the orders as \<open>createOrder\<close> leaves them;
  beside it remain at most the ended calls whose answers were lost.
\<close>

theorem request_runs_to_its_answer:
  "let (calls, effs, w') = createOrder (Client_Reserve (inventory_service_grpc (sg_redis S))) CreateOrder (sg_otel S) env r (n, d)
   in \<exists>left. list_all finished left \<and>
     runs S ([Request (Arrived env r)], ((n, d), b)) (Request (Answered calls effs) # left, (w', b))"
proof -
  obtain calls effs n' d' where c: "createOrder (Client_Reserve (inventory_service_grpc (sg_redis S))) CreateOrder (sg_otel S) env r (n, d)
      = (calls, effs, n', d')" by (rule prod_cases4)
  then have "(alone (inventory_service_grpc (sg_redis S)) (sg_otel S) ^^ 11) (Arrived env r, n, d) = (Answered calls effs, n', d')"
    by (simp add: request_alone)
  from alone_runs [OF this, of 0 "[Request (Arrived env r)]" b] show ?thesis by (simp add: c)
qed

end
