(* ===== verification/SideBySide.thy ===== *)
theory SideBySide
  imports Concurrency
begin

text \<open>
  What holds of requests, relays and restocks that run side by side (\<open>concurrent\<close>): one invariant,
  \<open>side_by_side\<close>, and the balance of units, kept by every step. Shown: however they interleave and die, no
  units are sold twice, every order has its one event, several relays publish it once, an id that commits
  late is not passed over, and each order is notified and counted.
\<close>

section \<open>What every process keeps\<close>

text \<open>An order as the database holds it: the time to the microsecond.\<close>

definition stored :: "order \<Rightarrow> order" where
  "stored ord = ord\<lparr>o_CreatedAt := timestamptz (o_CreatedAt ord)\<rparr>"

definition env_ok :: "'c order_env \<Rightarrow> bool" where
  "env_ok env \<longleftrightarrow> fair_env (oe_retry env) \<and> valid_utf8 (oe_uuid env) \<and> valid_utc (oe_now env)"

definition wanted :: "'c order_env \<Rightarrow> createOrderRequest \<Rightarrow> bool" where
  "wanted env req \<longleftrightarrow> env_ok env \<and> (\<exists>body. decode_create body = Inr req)"

text \<open>An order on its way into the database, with units reserved for it and its event.\<close>

definition on_its_way :: "(json \<Rightarrow> string) \<Rightarrow> order \<Rightarrow> OutboxEvent \<Rightarrow> bool" where
  "on_its_way jsonb ord evt \<longleftrightarrow> 0 < to_int32 (o_Quantity ord) \<and>
     (\<exists>j. parse_all (evt_Payload evt) = Some j \<and> unmarshal_order_created (jsonb j) = Inr (event_of ord))"

definition written :: "order \<Rightarrow> pending_tx \<Rightarrow> bool" where
  "written ord tx \<longleftrightarrow> tx_order tx = Some (stored ord) \<and> in_int32 (o_Quantity ord) \<and> 0 < o_Quantity ord"

text \<open>An event whose row is committed and, whether or not marked, in the stream.\<close>

definition out :: "(json \<Rightarrow> string) \<Rightarrow> order_db \<Rightarrow> (string \<times> string \<times> string) list \<Rightarrow> event \<Rightarrow> bool" where
  "out jsonb t ms evt \<longleftrightarrow>
     (\<exists>r \<in> set (outbox_events (but_marks t)). ob_id r = ev_ID evt \<and> msg_of jsonb r \<in> set ms)"

text \<open>A call on its way through the store, for the operation it was placed for.\<close>

fun serves :: "store_op \<Rightarrow> pc \<Rightarrow> bool" where
  "serves x (Started y) = (y = x)"
| "serves x (Written y it) = (y = x)"
| "serves x (Done y r) = (y = x)"
| "serves x _ = False"

fun process_ok ::
  "(json \<Rightarrow> string) \<Rightarrow> order_db \<Rightarrow> (string \<times> string \<times> string) list \<Rightarrow> 'c process \<Rightarrow> bool" where
  "process_ok jsonb t ms (Request (Arrived env r)) = env_ok env"
| "process_ok jsonb t ms (Request (Reserving env req a calls retries)) = wanted env req"
| "process_ok jsonb t ms (Request (Reserved env req effs)) = (wanted env req \<and> 0 < to_int32 (cr_Quantity req))"
| "process_ok jsonb t ms (Request (Begun ord evt effs)) = on_its_way jsonb ord evt"
| "process_ok jsonb t ms (Request (Order_in ord evt tx effs)) =
     (on_its_way jsonb ord evt \<and> written ord tx \<and> tx_row tx = None)"
| "process_ok jsonb t ms (Request (Event_in ord evt tx effs)) =
     (on_its_way jsonb ord evt \<and> written ord tx \<and>
      (\<exists>r. tx_row tx = Some r \<and> row_event jsonb r = Inr (event_of ord) \<and> \<not> ob_published r))"
| "process_ok jsonb t ms (Request (Answered calls effs)) =
     (sent_status calls = 201 \<longrightarrow>
        (\<exists>ord. calls = WriteJSON 201 (order_json ord) \<and> orders t (o_ID ord) = Some (stored ord)))"
| "process_ok jsonb t ms (Request Dead) = True"
| "process_ok jsonb t ms (Relaying (Polling ctx log)) = True"
| "process_ok jsonb t ms (Relaying (Publishing ctx evts log)) = (\<forall>evt \<in> set evts. fetched jsonb t evt)"
| "process_ok jsonb t ms (Relaying (Marking ctx evt evts log)) =
     (out jsonb t ms evt \<and> (\<forall>evt \<in> set evts. fetched jsonb t evt))"
| "process_ok jsonb t ms (Calling env req a calls retries p) =
     (wanted env req \<and> 0 < to_int32 (cr_Quantity req) \<and> serves (call_op req) p)"
| "process_ok jsonb t ms (Serving p) = pc_positive p"

text \<open>Orders and rows stay; the stream only grows.\<close>

definition grows :: "order_db \<Rightarrow> order_db \<Rightarrow> bool" where
  "grows t t' \<longleftrightarrow> orders t \<subseteq>\<^sub>m orders t' \<and>
     set (outbox_events (but_marks t)) \<subseteq> set (outbox_events (but_marks t'))"

lemma grows_refl [simp]: "grows t t"
  by (simp add: grows_def)

lemma grows_mark [simp]: "grows t (mark i t)"
  unfolding grows_def but_marks_mark by (simp add: mark_outbox)

lemma grows_next_id [simp]: "grows t (t\<lparr>next_id := n\<rparr>)"
  by (simp add: grows_def but_marks_def)

lemma grows_order: "orders t i = Some ord \<Longrightarrow> grows t t' \<Longrightarrow> orders t' i = Some ord"
  unfolding grows_def by (metis domI map_le_def)

lemma fetched_grows: "fetched jsonb t evt \<Longrightarrow> grows t t' \<Longrightarrow> fetched jsonb t' evt"
  using msgs_but_marks [of jsonb t] msgs_but_marks [of jsonb t'] unfolding fetched_def grows_def by blast

lemma process_ok_grows:
  assumes "process_ok jsonb t ms p" and "grows t t'" and "set ms \<subseteq> set ms'"
  shows "process_ok jsonb t' ms' p"
  using assms(1)
proof (cases "(jsonb, t, ms, p)" rule: process_ok.cases)
  case (7 jsonb1 t1 ms1 calls effs)
  with assms show ?thesis using grows_order [OF _ assms(2)] by auto
qed (use assms fetched_grows in \<open>auto simp: out_def grows_def\<close>)

text \<open>No two processes write one key or one row id, and none writes what is committed already.\<close>

definition disjoint :: "'c process \<Rightarrow> 'c process \<Rightarrow> bool" where
  "disjoint p q \<longleftrightarrow> set (keys p) \<inter> set (keys q) = {} \<and> ob_id ` set (rows p) \<inter> ob_id ` set (rows q) = {}"

definition apart :: "'c process list \<Rightarrow> bool" where
  "apart ps \<longleftrightarrow> (\<forall>i < length ps. \<forall>j < length ps. i \<noteq> j \<longrightarrow> disjoint (ps ! i) (ps ! j))"

definition uncommitted :: "order_db \<Rightarrow> 'c process \<Rightarrow> bool" where
  "uncommitted t p \<longleftrightarrow> (\<forall>k \<in> set (keys p). orders t k = None) \<and>
     (\<forall>r \<in> set (rows p). ob_id r < next_id t \<and> ob_id r \<notin> ob_id ` set (outbox_events t))"

definition side_by_side :: "(json \<Rightarrow> string) \<Rightarrow> 'c process list \<Rightarrow> order_db \<Rightarrow> (string \<times> string \<times> string) list \<Rightarrow> bool" where
  "side_by_side jsonb ps t ms \<longleftrightarrow> relay_inv jsonb t ms \<and> (\<exists>evs. told jsonb t evs) \<and>
     list_all (uncommitted t) ps \<and> apart ps \<and> list_all (process_ok jsonb t ms) ps"

lemma writes_none [simp]:
  "writes p = no_writes \<Longrightarrow> keys p = []" "writes p = no_writes \<Longrightarrow> rows p = []"
  by (simp_all add: keys_def rows_def no_writes_def)

lemma disjoint_sym: "disjoint p q = disjoint q p"
  by (auto simp: disjoint_def)

lemma apart_update:
  assumes "apart ps" and "i < length ps" and "\<And>j. j < length ps \<Longrightarrow> j \<noteq> i \<Longrightarrow> disjoint p (ps ! j)"
  shows "apart (ps[i := p])"
  unfolding apart_def
proof (intro allI impI)
  fix j k assume jk: "j < length (ps[i := p])" "k < length (ps[i := p])" "j \<noteq> k"
  show "disjoint (ps[i := p] ! j) (ps[i := p] ! k)"
  proof (cases "k = i")
    case True
    with jk assms(3) [of j] show ?thesis by (simp add: disjoint_sym)
  next
    case False
    with jk assms show ?thesis by (cases "j = i") (auto simp: apart_def)
  qed
qed

lemma list_all_update: "list_all P ps \<Longrightarrow> P p \<Longrightarrow> list_all P (ps[i := p])"
  by (auto simp: list_all_iff dest!: set_update_subset_insert [THEN subsetD])

text \<open>The ways one process changes the tables and its own writes, with the others still standing.\<close>

lemma side_by_side_step:
  assumes "side_by_side jsonb ps t ms" and "i < length ps"
    and "relay_inv jsonb t' ms'" and "\<exists>evs. told jsonb t' evs" and "grows t t'" and "set ms \<subseteq> set ms'"
    and "process_ok jsonb t' ms' p" and "uncommitted t' p"
    and "\<And>j. j < length ps \<Longrightarrow> j \<noteq> i \<Longrightarrow> uncommitted t' (ps ! j) \<and> disjoint p (ps ! j)"
  shows "side_by_side jsonb (ps[i := p]) t' ms'"
proof -
  from assms(1) have A: "apart ps" "list_all (process_ok jsonb t ms) ps" by (simp_all add: side_by_side_def)
  have "list_all (uncommitted t') (ps[i := p])"
    using assms(8,9) unfolding list_all_length by (metis length_list_update nth_list_update_eq nth_list_update_neq)
  moreover have "list_all (process_ok jsonb t' ms') ps"
    using A(2) process_ok_grows [OF _ assms(5,6)] by (auto simp: list_all_iff)
  ultimately show ?thesis
    using assms(3,4,7) apart_update [OF A(1) assms(2)] assms(9) by (simp add: side_by_side_def list_all_update)
qed

text \<open>Nothing committed but marks, nothing written but what was written before.\<close>

lemma side_by_side_frame:
  assumes "side_by_side jsonb ps t ms" and "i < length ps"
    and "relay_inv jsonb t' ms'" and "but_marks t' = (but_marks t)\<lparr>next_id := next_id t'\<rparr>"
    and "next_id t \<le> next_id t'" and "set ms \<subseteq> set ms'"
    and "process_ok jsonb t' ms' p" and "writes p = writes (ps ! i) \<or> writes p = no_writes"
  shows "side_by_side jsonb (ps[i := p]) t' ms'"
proof (rule side_by_side_step [OF assms(1-3)])
  have o: "orders t' = orders t" using arg_cong [OF assms(4), of orders] by (simp add: but_marks_def)
  have rows: "outbox_events (but_marks t') = outbox_events (but_marks t)" using assms(4) by simp
  from assms(1) obtain evs where evs: "told jsonb (but_marks t) evs" by (auto simp: side_by_side_def told_but_marks)
  have "told jsonb (but_marks t') evs"
    by (rule told_nothing_new [OF _ evs]) (use assms(4,5) in \<open>simp add: nothing_new_def but_marks_def\<close>)
  then show "\<exists>evs. told jsonb t' evs" by (auto simp: told_but_marks)
  show "grows t t'" using o rows by (simp add: grows_def)
  have "map ob_id (outbox_events (but_marks u)) = map ob_id (outbox_events u)" for u by (simp add: but_marks_def comp_def)
  then have ids: "ob_id ` set (outbox_events t') = ob_id ` set (outbox_events t)" using rows by (metis list.set_map)
  have kr: "set (keys p) \<subseteq> set (keys (ps ! i))" "set (rows p) \<subseteq> set (rows (ps ! i))"
    using assms(8) by (auto simp: keys_def rows_def no_writes_def)
  have unc: "uncommitted t' q" if "uncommitted t q" for q :: "'a process"
    using that assms(5) o ids by (fastforce simp: uncommitted_def)
  from assms(1,2) have all: "uncommitted t (ps ! j)" if "j < length ps" for j
    using that by (simp add: side_by_side_def list_all_length)
  from unc [OF all [OF assms(2)]] kr show "uncommitted t' p" unfolding uncommitted_def by blast
  fix j assume j: "j < length ps" "j \<noteq> i"
  then have "disjoint (ps ! i) (ps ! j)" using assms(1,2) by (simp add: side_by_side_def apart_def)
  with kr unc [OF all [OF j(1)]] show "uncommitted t' (ps ! j) \<and> disjoint p (ps ! j)" unfolding disjoint_def by blast
qed (use assms in auto)

text \<open>A transaction has inserted its order.\<close>

lemma side_by_side_key:
  assumes "side_by_side jsonb ps t ms" and "i < length ps" and "writes p = no_writes\<lparr>tx_order := Some ord\<rparr>"
    and "orders t (o_ID ord) = None" and "o_ID ord \<notin> set (concat (map keys ps))" and "process_ok jsonb t ms p"
  shows "side_by_side jsonb (ps[i := p]) t ms"
proof (rule side_by_side_step [OF assms(1,2)])
  have kr: "keys p = [o_ID ord]" "rows p = []" using assms(3) by (simp_all add: keys_def rows_def no_writes_def)
  with assms(4) show "uncommitted t p" by (simp add: uncommitted_def)
  fix j assume "j < length ps" "j \<noteq> i"
  with assms(1,5) kr show "uncommitted t (ps ! j) \<and> disjoint p (ps ! j)"
    by (auto simp: side_by_side_def list_all_length disjoint_def)
qed (use assms in \<open>auto simp: side_by_side_def\<close>)

text \<open>It has drawn an id and inserted its row.\<close>

lemma side_by_side_row:
  assumes "side_by_side jsonb ps t ms" and "i < length ps" and "writes p = (writes (ps ! i))\<lparr>tx_row := Some r\<rparr>"
    and "ob_id r = next_id t" and "t' = t\<lparr>next_id := next_id t + 1\<rparr>" and "process_ok jsonb t' ms p"
  shows "side_by_side jsonb (ps[i := p]) t' ms"
proof (rule side_by_side_step [OF assms(1,2)])
  have n: "nothing_new t t'" using assms(5) by (simp add: nothing_new_def)
  from assms(1) obtain evs where I: "relay_inv jsonb t ms" "told jsonb t evs" by (auto simp: side_by_side_def)
  then show "relay_inv jsonb t' ms" "\<exists>evs. told jsonb t' evs"
    using relay_inv_nothing_new [OF n] told_nothing_new [OF n] by blast+
  show "grows t t'" using assms(5) by simp
  have kr: "keys p = keys (ps ! i)" "rows p = [r]" using assms(3) by (simp_all add: keys_def rows_def)
  have unc: "uncommitted t' (ps ! j)" if "j < length ps" for j
    using that assms(1,5) by (fastforce simp: side_by_side_def list_all_length uncommitted_def)
  have new: "next_id t \<notin> ob_id ` set (outbox_events t)"
    using I(1) by (auto simp: relay_inv_def outbox_ok_def)
  with unc [OF assms(2)] kr assms(4,5) show "uncommitted t' p" by (simp add: uncommitted_def)
  fix j assume j: "j < length ps" "j \<noteq> i"
  then have d: "disjoint (ps ! i) (ps ! j)" using assms(1,2) by (simp add: side_by_side_def apart_def)
  have "ob_id q < next_id t" if "q \<in> set (rows (ps ! j))" for q
    using that j(1) assms(1) by (auto simp: side_by_side_def list_all_length uncommitted_def)
  with d kr assms(4) unc [OF j(1)] show "uncommitted t' (ps ! j) \<and> disjoint p (ps ! j)"
    by (force simp: disjoint_def)
qed (use assms in auto)

lemma ordered_next_id [simp]: "ordered k (t\<lparr>next_id := n\<rparr>) = ordered k t"
  by (simp add: ordered_def)

lemma told_next_id [simp]: "told jsonb (t\<lparr>next_id := n\<rparr>) evs = told jsonb t evs"
  by (simp add: told_def)

text \<open>It commits.\<close>

lemma view_written:
  assumes "written ord tx" and "tx_row tx = Some r"
  shows "orders (tx_view tx t) = (orders t)(o_ID ord \<mapsto> ord\<lparr>o_CreatedAt := timestamptz (o_CreatedAt ord)\<rparr>)"
    and "outbox_events (tx_view tx t) = outbox_events t @ [r]" and "next_id (tx_view tx t) = next_id t"
  using assms by (simp_all add: written_def stored_def tx_view_def)

lemma side_by_side_commit:
  assumes "side_by_side jsonb ps t ms" and "i < length ps" and "writes (ps ! i) = tx" and "writes p = no_writes"
    and "written ord tx" and "tx_row tx = Some r" and "row_event jsonb r = Inr (event_of ord)" and "\<not> ob_published r"
    and "process_ok jsonb (tx_view tx t) ms p"
  shows "side_by_side jsonb (ps[i := p]) (tx_view tx t) ms"
proof (rule side_by_side_step [OF assms(1,2)])
  note V = view_written [OF assms(5,6), of t]
  from assms(1) obtain evs where I: "relay_inv jsonb t ms" "told jsonb t evs" by (auto simp: side_by_side_def)
  have kr: "keys (ps ! i) = [o_ID ord]" "rows (ps ! i) = [r]" "0 < o_Quantity ord"
    using assms(3,5,6) by (simp_all add: keys_def rows_def written_def stored_def)
  have unc: "uncommitted t (ps ! j)" if "j < length ps" for j
    using that assms(1) by (simp add: side_by_side_def list_all_length)
  from unc [OF assms(2)] kr have new: "orders t (o_ID ord) = None" "ob_id r < next_id t"
    "ob_id r \<notin> ob_id ` set (outbox_events t)" by (simp_all add: uncommitted_def)
  from told_stored [OF I(2) assms(7) kr(3) new(1) V(1,2)] show "\<exists>evs. told jsonb (tx_view tx t) evs" ..
  show "relay_inv jsonb (tx_view tx t) ms"
    using I(1) new assms(8) V(2,3) by (auto simp: relay_inv_def outbox_ok_def)
  show "grows t (tx_view tx t)" using V(1,2) new(1) by (auto simp: grows_def but_marks_def map_le_def)
  show "uncommitted (tx_view tx t) p" using assms(4) by (simp add: uncommitted_def)
  fix j assume j: "j < length ps" "j \<noteq> i"
  then have "disjoint (ps ! i) (ps ! j)" using assms(1,2) by (simp add: side_by_side_def apart_def)
  with unc [OF j(1)] kr V assms(4) show "uncommitted (tx_view tx t) (ps ! j) \<and> disjoint p (ps ! j)"
    by (auto simp: uncommitted_def disjoint_def) (metis imageI)
qed (use assms in auto)

section \<open>A step keeps it\<close>

text \<open>
  Units taken for a reservation and not yet in an order, whether or not its caller still waits; units a
  restock asked to put in.
\<close>

fun held :: "string \<Rightarrow> 'c process \<Rightarrow> int" where
  "held k (Request (Reserved env req effs)) = (if cr_SKU req = k then to_int32 (cr_Quantity req) else 0)"
| "held k (Request (Begun ord evt effs)) = (if o_SKU ord = k then to_int32 (o_Quantity ord) else 0)"
| "held k (Request (Order_in ord evt tx effs)) = (if o_SKU ord = k then to_int32 (o_Quantity ord) else 0)"
| "held k (Request (Event_in ord evt tx effs)) = (if o_SKU ord = k then to_int32 (o_Quantity ord) else 0)"
| "held k (Calling env req a calls retries p) = pc_sold k p"
| "held k (Serving p) = pc_sold k p"
| "held k _ = 0"

fun asked_for :: "string \<Rightarrow> 'c process \<Rightarrow> int" where
  "asked_for k (Serving p) = pc_asked k p"
| "asked_for k _ = 0"

lemma pc_sold_nonneg: "pc_positive p \<Longrightarrow> 0 \<le> pc_sold k p"
proof (cases p)
  case (Written x it)
  then show "pc_positive p \<Longrightarrow> 0 \<le> pc_sold k p" by (cases x) auto
next
  case (Done x r)
  then show "pc_positive p \<Longrightarrow> 0 \<le> pc_sold k p" by (cases x; cases r) auto
qed auto

lemma serves_call:
  assumes "serves (call_op req) p" and "0 < to_int32 (cr_Quantity req)"
  shows "pc_positive p" and "pc_asked k p = 0"
  using assms by (cases p; simp add: call_op_def)+

lemma held_nonneg: "process_ok jsonb t ms p \<Longrightarrow> 0 \<le> held k p"
  by (cases "(k, p)" rule: held.cases) (auto simp: on_its_way_def intro: pc_sold_nonneg serves_call(1))

lemma shared_exec_order:
  assumes "shared_exec (insert_order ord) (note_order ord) no_writes db = ((r, tx), db')"
  shows "tables db' = tables db"
    and "r = None \<Longrightarrow> tx = no_writes\<lparr>tx_order := Some (stored ord)\<rparr> \<and> orders (tables db) (o_ID ord) = None \<and>
      in_int32 (o_Quantity ord) \<and> 0 < o_Quantity ord"
proof -
  obtain q t1 where i: "insert_order ord (tables db) = (q, t1)" by force
  have "next_id t1 = next_id (tables db)" using insert_order_next_id [of ord "tables db"] i by simp
  with assms i show "tables db' = tables db" by (auto simp: shared_exec_def Let_def split: prod.splits if_splits)
  assume "r = None"
  with assms i have "q = None" "tx = note_order ord t1 no_writes"
    by (auto simp: shared_exec_def Let_def split: prod.splits if_splits)
  with insert_order_ok [of ord "tables db" t1] i show "tx = no_writes\<lparr>tx_order := Some (stored ord)\<rparr> \<and>
      orders (tables db) (o_ID ord) = None \<and> in_int32 (o_Quantity ord) \<and> 0 < o_Quantity ord"
    by (simp add: note_order_def stored_def)
qed

lemma shared_exec_event:
  assumes "shared_exec (insert_event s p tp) note_row tx db = ((r, tx'), db')"
  shows "nothing_new (tables db) (tables db')"
    and "r = None \<Longrightarrow> tx_row tx = None \<Longrightarrow> \<exists>row. tx' = tx\<lparr>tx_row := Some row\<rparr> \<and> ob_id row = next_id (tables db) \<and>
      parse_all p = Some (ob_payload row) \<and> \<not> ob_published row \<and>
      tables db' = (tables db)\<lparr>next_id := next_id (tables db) + 1\<rparr>"
  using assms
  by (auto simp: shared_exec_def insert_event_def tx_view_def note_row_def keep_sequence_def nothing_new_def Let_def
      split: prod.splits if_splits option.splits)

text \<open>
  A process that holds nothing: a request that is answered without an order or on its way to the
  reservation, a call that has not reached the store.
\<close>

definition idle :: "(json \<Rightarrow> string) \<Rightarrow> 'c process \<Rightarrow> bool" where
  "idle jsonb p \<longleftrightarrow> writes p = no_writes \<and> (\<forall>k. held k p = 0 \<and> asked_for k p = 0) \<and> (\<forall>t ms. process_ok jsonb t ms p)"

lemma idle_answered: "sent_status calls \<noteq> 201 \<Longrightarrow> idle jsonb (Request (Answered calls effs))"
  by (simp add: idle_def)

lemma idle_refuse: "idle jsonb (Request (refuse req e effs))"
  by (simp add: refuse_def idle_answered)

lemma idle_not_stored: "idle jsonb (Request (not_stored s e sku effs))"
  by (simp add: not_stored_def idle_answered)

lemma idle_reserving: "wanted env req \<Longrightarrow> idle jsonb (Request (Reserving env req a calls retries))"
  by (simp add: idle_def)

text \<open>One attempt of the reservation: how it starts, and how it ends.\<close>

lemma attempt_over_Inr: "\<exists>effs. attempt_over env req a calls retries (Inr m) = Reserved env req effs"
  by (simp add: attempt_over_def reserve_step_def reserve_call_def UnaryClientInterceptor_def grpc_Invoke_def Let_def)

lemma attempt_over_Inl: "wanted env req \<Longrightarrow> idle jsonb (Request (attempt_over env req a calls retries (Inl e)))"
  by (auto simp: attempt_over_def reserve_step_def reserve_call_def UnaryClientInterceptor_def grpc_Invoke_def Let_def
      idle_refuse idle_answered idle_reserving split: option.splits)

lemma call_reply_Inl:
  "\<exists>e'. call_reply req (Inl e) = Inl e'" "call_refused req \<Longrightarrow> \<exists>e'. call_reply req r = Inl e'"
  by (auto simp: call_reply_def call_refused_def inventory_grpc_def ReserveStock_Handler_def UnaryServerInterceptor_def
      grpc_ReserveStock_def rq_GetSku_def rq_GetQuantity_def Let_def)

lemma call_reply_Inr: "\<not> call_refused req \<Longrightarrow> \<exists>m. call_reply req (Inr it) = Inr m"
  by (auto simp: call_reply_def call_refused_def inventory_grpc_def ReserveStock_Handler_def UnaryServerInterceptor_def
      grpc_ReserveStock_def rq_GetSku_def rq_GetQuantity_def Let_def)

lemma place_call_idle:
  assumes "place_call env req a calls retries n = (p, left, n')" and "wanted env req"
  shows "idle jsonb p \<and> list_all (idle jsonb) left \<and> peer n' = peer n"
proof -
  have call: "idle jsonb (Calling env req a calls retries (Started (call_op req)))" "idle jsonb (Serving (Started (call_op req)))"
    if "\<not> call_refused req"
    using that assms(2) by (auto simp: idle_def call_refused_def call_op_def)
  have over: "idle jsonb (Request (attempt_over env req a calls retries (call_reply req (Inl Inventory_ErrNotFound))))"
    using call_reply_Inl(1) [of req Inventory_ErrNotFound] attempt_over_Inl [OF assms(2)] by metis
  show ?thesis
    using assms(1) call over attempt_over_Inl [OF assms(2)]
    by (auto simp: place_call_def Let_def split: list.splits prod.splits io.splits if_splits)
qed

lemma side_by_side_same:
  assumes "side_by_side jsonb ps t ms" and "i < length ps" and "nothing_new t t'"
    and "process_ok jsonb t' ms p" and "writes p = writes (ps ! i) \<or> writes p = no_writes"
  shows "side_by_side jsonb (ps[i := p]) t' ms"
proof (rule side_by_side_frame [OF assms(1,2) _ _ _ _ assms(4,5)])
  show "relay_inv jsonb t' ms"
    using relay_inv_nothing_new [OF assms(3)] assms(1) by (simp add: side_by_side_def)
  show "but_marks t' = (but_marks t)\<lparr>next_id := next_id t'\<rparr>"
    using assms(3) by (intro order_db.equality) (simp_all add: but_marks_def nothing_new_def)
qed (use assms(3) in \<open>auto simp: nothing_new_def\<close>)

lemma side_by_side_idle:
  "side_by_side jsonb ps t ms \<Longrightarrow> i < length ps \<Longrightarrow> nothing_new t t' \<Longrightarrow> idle jsonb p \<Longrightarrow>
     side_by_side jsonb (ps[i := p]) t' ms"
  by (rule side_by_side_same) (auto simp: idle_def)

text \<open>What a step leaves behind.\<close>

lemma side_by_side_left:
  assumes "side_by_side jsonb ps t ms" and "list_all (idle jsonb) left"
  shows "side_by_side jsonb (ps @ left) t ms"
proof -
  have q: "keys q = [] \<and> rows q = [] \<and> process_ok jsonb t ms q" if "q \<in> set left" for q
    using that assms(2) by (auto simp: list_all_iff idle_def)
  have "disjoint ((ps @ left) ! i) ((ps @ left) ! j)" if "i < length (ps @ left)" "j < length (ps @ left)" "i \<noteq> j" for i j
  proof (cases "i < length ps \<and> j < length ps")
    case True
    with that assms(1) show ?thesis by (simp add: side_by_side_def apart_def nth_append)
  next
    case False
    with that q have "keys ((ps @ left) ! i) = [] \<and> rows ((ps @ left) ! i) = [] \<or> keys ((ps @ left) ! j) = [] \<and> rows ((ps @ left) ! j) = []"
      by (auto simp: nth_append)
    then show ?thesis by (auto simp: disjoint_def)
  qed
  then have "apart (ps @ left)" by (simp add: apart_def)
  moreover have "list_all (uncommitted t) left" "list_all (process_ok jsonb t ms) left"
    using q by (auto simp: list_all_iff uncommitted_def)
  ultimately show ?thesis using assms(1) by (simp add: side_by_side_def)
qed

lemma side_by_side_nth: "side_by_side jsonb ps t ms \<Longrightarrow> i < length ps \<Longrightarrow> process_ok jsonb t ms (ps ! i)"
  by (simp add: side_by_side_def list_all_length)

text \<open>What a request's step does to the tables and its writes, once the reservation is behind it.\<close>

lemma transaction_moves:
  assumes "request_step srv otel p (n, d) = (p', n', d')"
    and "side_by_side jsonb ps (tables d) ms" and "i < length ps" and "ps ! i = Request p" and "\<not> blocked (ps ! i) ps"
    and "\<exists>ord evt tx effs. p = Begun ord evt effs \<or> p = Order_in ord evt tx effs \<or> p = Event_in ord evt tx effs"
  shows "n' = n \<and> side_by_side jsonb (ps[i := Request p']) (tables d') ms \<and>
    ordered k (tables d') + held k (Request p') \<le> ordered k (tables d) + held k (Request p)"
proof -
  have ok: "process_ok jsonb (tables d) ms (Request p)" using side_by_side_nth [OF assms(2,3)] assms(4) by simp
  have h: "0 \<le> held k (Request p)" by (rule held_nonneg [OF ok])
  consider (begun) ord evt effs where "p = Begun ord evt effs" | (order_in) ord evt tx effs where "p = Order_in ord evt tx effs"
    | (event_in) ord evt tx effs where "p = Event_in ord evt tx effs" using assms(6) by blast
  then show ?thesis
  proof cases
    case begun
    obtain r tx d1 where x: "shared_exec (insert_order ord) (note_order ord) no_writes d = ((r, tx), d1)" by (metis prod.collapse)
    note X = shared_exec_order [OF x]
    show ?thesis
    proof (cases r)
      case None
      with X(2) have W: "tx = no_writes\<lparr>tx_order := Some (stored ord)\<rparr>" "orders (tables d) (o_ID ord) = None"
        "written ord tx" by (auto simp: written_def)
      have p': "p' = Order_in ord evt tx effs" "n' = n" "d' = d1" using assms(1) begun x None by auto
      have "side_by_side jsonb (ps[i := Request p']) (tables d) ms"
        using assms(4,5) begun ok W p'
        by (intro side_by_side_key [OF assms(2,3), of _ "stored ord"]) (auto simp: stored_def no_writes_def)
      with p' X(1) begun show ?thesis by simp
    next
      case (Some e)
      then have "idle jsonb (Request p')" "n' = n" "d' = d1" using assms(1) begun x by (auto simp: idle_not_stored)
      with side_by_side_idle [OF assms(2,3) _ this(1), of "tables d"] X(1) h show ?thesis by (simp add: idle_def)
    qed
  next
    case order_in
    let ?tp = "if evt_TraceParent evt \<noteq> [] then Some (evt_TraceParent evt) else None"
    obtain r tx' d1 where x: "shared_exec (insert_event (evt_Subject evt) (evt_Payload evt) ?tp) note_row tx d = ((r, tx'), d1)"
      by (metis prod.collapse)
    note X = shared_exec_event [OF x]
    show ?thesis
    proof (cases r)
      case None
      with X(2) ok order_in obtain row where R: "tx' = tx\<lparr>tx_row := Some row\<rparr>" "ob_id row = next_id (tables d)"
        "parse_all (evt_Payload evt) = Some (ob_payload row)" "\<not> ob_published row"
        "tables d1 = (tables d)\<lparr>next_id := next_id (tables d) + 1\<rparr>" by auto
      have p': "p' = Event_in ord evt tx' effs" "n' = n" "d' = d1" using assms(1) order_in x None by auto
      have "process_ok jsonb (tables d1) ms (Request p')"
        using ok order_in p' R by (auto simp: on_its_way_def row_event_def written_def)
      then have "side_by_side jsonb (ps[i := Request p']) (tables d1) ms"
        using assms(4) order_in p' R by (intro side_by_side_row [OF assms(2,3) _ R(2,5)]) auto
      with p' R(5) order_in show ?thesis by simp
    next
      case (Some e)
      then have p': "idle jsonb (Request p')" "n' = n" "d' = d1" using assms(1) order_in x by (auto simp: idle_not_stored Let_def)
      have "ordered k (tables d1) = ordered k (tables d)" using X(1) by (intro ordered_cong) (simp add: nothing_new_def)
      with side_by_side_idle [OF assms(2,3) X(1) p'(1)] p' h show ?thesis by (simp add: idle_def)
    qed
  next
    case event_in
    from ok event_in obtain r where r: "on_its_way jsonb ord evt" "written ord tx" "tx_row tx = Some r"
      "row_event jsonb r = Inr (event_of ord)" "\<not> ob_published r" by auto
    obtain q d1 where x: "shared_commit tx d = (q, d1)" by force
    note V = view_written [OF r(2,3), of "tables d"]
    have p': "n' = n" "d' = d1" "idle jsonb (Request p') \<or> q = None \<and> p' = Answered (WriteJSON 201 (order_json ord)) (effs @ [Counter_Inc ''orders_created_total'' []])"
      using assms(1) event_in x by (cases q; auto simp: idle_not_stored)+
    show ?thesis
    proof (cases "tables d1 = tx_view tx (tables d)")
      case True
      have ok': "process_ok jsonb (tx_view tx (tables d)) ms (Request p')"
        using p'(3) V(1) by (auto simp: idle_def stored_def)
      have w: "writes (Request p') = no_writes" "held k (Request p') = 0" using p'(3) by (auto simp: idle_def)
      have "side_by_side jsonb (ps[i := Request p']) (tx_view tx (tables d)) ms"
        using assms(4) event_in w r ok' by (intro side_by_side_commit [OF assms(2,3)]) auto
      moreover from assms(2,3) have "uncommitted (tables d) (ps ! i)" "\<exists>evs. told jsonb (tables d) evs"
        by (simp_all add: side_by_side_def list_all_length)
      then have "orders (tables d) (o_ID ord) = None" "finite (dom (orders (tables d)))"
        using assms(4) event_in r told_finite by (auto simp: uncommitted_def keys_def written_def stored_def)
      from ordered_stored [OF this V(1)] have "ordered k (tx_view tx (tables d)) = ordered k (tables d) + held k (Request p)"
        using event_in r(2) by (simp add: units_def written_def)
      ultimately show ?thesis using p' True w by simp
    next
      case False
      with x have "q \<noteq> None" "tables d1 = tables d"
        by (auto simp: shared_commit_def Let_def split: prod.splits if_splits)
      with p' side_by_side_idle [OF assms(2,3), of "tables d" "Request p'"] h show ?thesis by (auto simp: idle_def)
    qed
  qed
qed

lemma request_moves:
  assumes "request_step srv otel p (n, d) = (p', n', d')"
    and "side_by_side jsonb ps (tables d) ms" and "i < length ps" and "ps ! i = Request p" and "\<not> blocked (ps ! i) ps"
    and "jsonb_faithful jsonb" and "\<nexists>env req a calls retries. p = Reserving env req a calls retries"
  shows "n' = n \<and> side_by_side jsonb (ps[i := Request p']) (tables d') ms \<and>
    ordered k (tables d') + held k (Request p') \<le> ordered k (tables d) + held k (Request p)"
proof -
  have ok: "process_ok jsonb (tables d) ms (Request p)" using side_by_side_nth [OF assms(2,3)] assms(4) by simp
  note idle = side_by_side_idle [OF assms(2,3)] and same = side_by_side_same [OF assms(2,3)]
  show ?thesis
  proof (cases p)
    case (Arrived env r)
    with ok assms(1) have "n' = n" "d' = d" "idle jsonb (Request p')"
      by (auto simp: idle_answered wanted_def intro!: idle_reserving split: sum.splits if_splits)
    with idle [of "tables d" "Request p'"] Arrived show ?thesis by (simp add: idle_def)
  next
    case (Reserved env req effs)
    then obtain body where w: "env_ok env" "decode_create body = Inr req" "0 < to_int32 (cr_Quantity req)"
      using ok by (auto simp: wanted_def)
    have h: "0 \<le> held k (Request p)" by (rule held_nonneg [OF ok])
    show ?thesis
    proof (cases "idle jsonb (Request p')")
      case True
      with Reserved assms(1) have "n' = n" "tables d' = tables d"
        by (auto simp: Let_def dest: tx_begin_Inl tx_begin_Inr split: option.splits prod.splits sum.splits)
      with idle [of "tables d" "Request p'"] True h show ?thesis by (simp add: idle_def)
    next
      case False
      with Reserved assms(1) obtain j t where j: "order_created_json (event_of (order_of req env)) = Some j"
        "tx_begin d = (Inr t, d')" "p' = Begun (order_of req env) (outbox_of otel env j) effs" "n' = n"
        by (auto simp: Let_def idle_answered idle_not_stored split: option.splits prod.splits sum.splits)
      have "on_its_way jsonb (order_of req env) (outbox_of otel env j)"
        using outbox_of_payload [OF w(2) _ _ assms(6) j(1), of otel] w(1,3)
        by (auto simp: on_its_way_def env_ok_def order_of_def)
      with same [of "tables d" "Request p'"] j tx_begin_Inr [OF j(2)] Reserved show ?thesis
        by (simp add: order_of_def)
    qed
  next
    case (Answered calls effs)
    with assms(1,4) same [of "tables d" "Request p"] ok show ?thesis by simp
  next
    case Dead
    with assms(1,4) same [of "tables d" "Request p"] ok show ?thesis by simp
  qed (use transaction_moves [OF assms(1-5), of k] assms(7) in auto)
qed

lemma outI:
  assumes "r \<in> set (outbox_events t)" and "ob_id r = ev_ID evt" and "msg_of jsonb r \<in> set ms"
  shows "out jsonb t ms evt"
  using assms unfolding out_def but_marks_def
  by (intro bexI [of _ "r\<lparr>ob_published := True\<rparr>"]) auto

lemma outD:
  assumes "out jsonb t ms evt" and "outbox_ok t" and "r \<in> set (outbox_events t)" and "ob_id r = ev_ID evt"
  shows "msg_of jsonb r \<in> set ms"
proof -
  from assms(1) obtain q where q: "q \<in> set (outbox_events t)" "ob_id q = ev_ID evt" "msg_of jsonb q \<in> set ms"
    by (auto simp: out_def but_marks_def)
  with outbox_ok_inj [OF assms(2,3) q(1)] assms(4) show ?thesis by simp
qed

lemma relay_moves:
  assumes "relay_step otel jsonb p (d, b) = (p', d', b')"
    and "side_by_side jsonb ps (tables d) (broker_sent b)" and "i < length ps" and "ps ! i = Relaying p"
    and "w3c otel" and "set (recent b) \<subseteq> msg_id ` set (stream b)"
  shows "side_by_side jsonb (ps[i := Relaying p']) (tables d') (broker_sent b') \<and>
    set (recent b') \<subseteq> msg_id ` set (stream b') \<and> orders (tables d') = orders (tables d) \<and>
    (dedup_inv b \<longrightarrow> dedup_inv b')"
proof -
  have ok: "process_ok jsonb (tables d) (broker_sent b) (Relaying p)"
    using side_by_side_nth [OF assms(2,3)] assms(4) by simp
  have I: "relay_inv jsonb (tables d) (broker_sent b)" using assms(2) by (simp add: side_by_side_def)
  note frame = side_by_side_frame [OF assms(2,3)]
  have same: "(but_marks t)\<lparr>next_id := next_id t\<rparr> = but_marks t" for t by (simp add: but_marks_def)
  show ?thesis
  proof (cases "(otel, jsonb, p, d, b)" rule: relay_step.cases)
    case (1 otel1 jsonb1 ctx log d1 b1)
    obtain q d2 where f: "FetchUnpublished jsonb batchSize d = (q, d2)" by force
    note F = FetchUnpublished_cases [OF f]
    from 1 f assms(1) F(2) have "tables d' = tables d" "b' = b" "process_ok jsonb (tables d) (broker_sent b) (Relaying p')"
      using F(1) by (auto split: sum.splits dest!: in_set_takeD simp: fetched_scan)
    then show ?thesis using frame [OF I, of "Relaying p'"] assms(4,6) 1 same by auto
  next
    case (2 otel1 jsonb1 ctx log w)
    then show ?thesis using frame [OF I, of "Relaying p'"] assms(1,4,6) same by auto
  next
    case (3 otel1 jsonb1 ctx evt evts log d1 b1)
    obtain res b2 where p: "publishOne otel (Publish otel) ctx evt b = (res, b2)" by force
    have f: "fetched jsonb (tables d) evt" "\<forall>e \<in> set evts. fetched jsonb (tables d) e" using ok 3 by simp_all
    note P = orelay.publishOne_inv [OF p conjI [OF assms(5,6)] I f(1)]
    have b': "b' = b2" "d' = d" using 3 p assms(1) by (auto split: option.splits)
    obtain r where r: "r \<in> set (outbox_events (tables d))" "ob_id r = ev_ID evt"
      using f(1) Itoa_inj by (auto simp: fetched_def msg_of_def)
    have "process_ok jsonb (tables d) (broker_sent b2) (Relaying p')"
    proof (cases res)
      case None
      with 3 p assms(1) have "p' = Marking ctx evt evts log" by simp
      with P(3) [OF None] r f(2) show ?thesis by (auto intro: outI)
    next
      case (Some e)
      with 3 p assms(1) f(2) show ?thesis by auto
    qed
    with frame [OF P(2), of "Relaying p'"] P b' assms(4) 3 same show ?thesis
      by (auto simp: dedup_inv_def)
  next
    case (4 otel1 jsonb1 ctx evt evts log d1 b1)
    obtain q d2 where m: "MarkPublished (ev_ID evt) d = (q, d2)" by force
    have t: "tables d2 = tables d \<or> tables d2 = mark (ev_ID evt) (tables d)" by (rule MarkPublished_cases(2) [OF m])
    have p': "d' = d2" "b' = b" "\<exists>log'. p' = Publishing ctx evts log'" using 4 m assms(1) by (auto split: option.splits)
    have o: "out jsonb (tables d) (broker_sent b) evt" and f: "\<forall>e \<in> set evts. fetched jsonb (tables d) e" using ok 4 by simp_all
    have "outbox_ok (tables d)" using I by (simp add: relay_inv_def)
    then have "relay_inv jsonb (mark (ev_ID evt) (tables d)) (broker_sent b)"
      by (intro relay_inv_mark [OF I]) (blast dest: outD [OF o])
    with t I have R: "relay_inv jsonb (tables d2) (broker_sent b)" by auto
    have B: "but_marks (tables d2) = but_marks (tables d)" "next_id (tables d2) = next_id (tables d)"
      "orders (tables d2) = orders (tables d)" using t by (auto simp: mark_outbox)
    have "process_ok jsonb (tables d2) (broker_sent b) (Relaying p')" using p'(3) f t by auto
    with frame [OF R, of "Relaying p'"] B same assms(4,6) p' 4 show ?thesis by auto
  qed
qed

text \<open>One step of a call in inventory-service.\<close>

lemma store_moves:
  assumes "store_step redis p c = (p', c')" and "pc_positive p" and "stock_ok (tables (cs_next c))"
  shows "stock_ok (tables (cs_next c')) \<and> pc_positive p' \<and>
    available (tables (cs_next c')) k + pc_sold k p' - pc_asked k p' \<le> available (tables (cs_next c)) k + pc_sold k p - pc_asked k p"
  using cpg.caching_step_stock [OF assms, of k] by simp

lemma serves_step: "store_step redis p c = (p', c') \<Longrightarrow> serves (call_op req) p \<Longrightarrow> serves (call_op req) p'"
  by (cases p) (auto simp: call_op_def Let_def split: prod.splits sum.splits)

text \<open>A call that has ended.\<close>

lemma ended_call:
  assumes "process_ok jsonb t ms (Calling env req a calls retries (Done x r))"
  shows "(idle jsonb (Request (attempt_over env req a calls retries (call_reply req r))) \<or>
      (\<exists>effs. attempt_over env req a calls retries (call_reply req r) = Reserved env req effs)) \<and>
    held k (Request (attempt_over env req a calls retries (call_reply req r))) \<le> pc_sold k (Done x r)"
proof (cases r)
  case (Inl e)
  from assms have "0 \<le> pc_sold k (Done x r)" by (intro pc_sold_nonneg serves_call(1) [of req]) simp_all
  moreover from call_reply_Inl(1) [of req e] Inl attempt_over_Inl [of env req] assms
  have "idle jsonb (Request (attempt_over env req a calls retries (call_reply req r)))" by fastforce
  ultimately show ?thesis by (simp add: idle_def)
next
  case (Inr it)
  show ?thesis
  proof (cases "call_refused req")
    case True
    from assms have "0 \<le> pc_sold k (Done x r)" by (intro pc_sold_nonneg serves_call(1) [of req]) simp_all
    moreover from call_reply_Inl(2) [OF True, of r] attempt_over_Inl [of env req] assms
    have "idle jsonb (Request (attempt_over env req a calls retries (call_reply req r)))" by fastforce
    ultimately show ?thesis by (simp add: idle_def)
  next
    case False
    from call_reply_Inr [OF this, of it] attempt_over_Inr [of env req a calls retries] Inr obtain effs where
      "attempt_over env req a calls retries (call_reply req r) = Reserved env req effs" by metis
    with assms Inr show ?thesis by (auto simp: call_op_def)
  qed
qed

lemma dies_ok:
  assumes "process_ok jsonb t ms p"
  shows "process_ok jsonb t ms (dies p)" and "writes (dies p) = no_writes"
  using assms by (cases p rule: dies.cases; auto dest: serves_call(1))+

lemma held_dies:
  "process_ok jsonb t ms p \<Longrightarrow> held k (dies p) \<le> held k p \<and> asked_for k (dies p) = asked_for k p"
  using held_nonneg [of jsonb t ms p k] by (cases p rule: dies.cases; auto intro: serves_call(2))

section \<open>Runs\<close>

definition concurrent_inv :: "('c, 'r) setting \<Rightarrow> 'c process list \<Rightarrow> 'r shared \<Rightarrow> bool" where
  "concurrent_inv S ps w \<longleftrightarrow> side_by_side (sg_jsonb S) ps (sh_db w) (broker_sent (snd w)) \<and>
     set (recent (snd w)) \<subseteq> msg_id ` set (stream (snd w)) \<and> stock_ok (sh_stock w)"

text \<open>Units in stock, in orders and held, less those that restocks asked to add.\<close>

definition balance :: "string \<Rightarrow> 'c process list \<Rightarrow> 'r shared \<Rightarrow> int" where
  "balance k ps w = available (sh_stock w) k + ordered k (sh_db w) + total (held k) ps - total (asked_for k) ps"

lemma balance_update:
  "i < length ps \<Longrightarrow> balance k (ps[i := p]) w' \<le> balance k ps w \<longleftrightarrow>
     available (sh_stock w') k + ordered k (sh_db w') + held k p - asked_for k p
       \<le> available (sh_stock w) k + ordered k (sh_db w) + held k (ps ! i) - asked_for k (ps ! i)"
  unfolding balance_def
  using sum_list_update_int [of i ps "held k" p] sum_list_update_int [of i ps "asked_for k" p] by linarith

lemma balance_left: "list_all (idle jsonb) left \<Longrightarrow> balance k (ps @ left) w = balance k ps w"
  by (induction left arbitrary: ps) (auto simp: balance_def idle_def)

lemma process_step_inv:
  assumes "process_step S (ps ! i) w = (p, left, w')" and "i < length ps" and "\<not> blocked (ps ! i) ps"
    and "setting_ok S" and "concurrent_inv S ps w"
  shows "concurrent_inv S (ps[i := p]) w' \<and> balance k (ps[i := p]) w' \<le> balance k ps w \<and>
    list_all (idle (sg_jsonb S)) left \<and> (dedup_inv (snd w) \<longrightarrow> dedup_inv (snd w'))"
proof -
  obtain n d b where w: "w = ((n, d), b)" by (metis prod.collapse)
  have S: "w3c (sg_otel S)" "jsonb_faithful (sg_jsonb S)" using assms(4) by (simp_all add: setting_ok_def)
  from assms(5) w have I: "side_by_side (sg_jsonb S) ps (tables d) (broker_sent b)"
    "set (recent b) \<subseteq> msg_id ` set (stream b)" "stock_ok (tables (cs_next (peer n)))"
    by (simp_all add: concurrent_inv_def)
  note ok = side_by_side_nth [OF I(1) assms(2)]
  note idle = side_by_side_idle [OF I(1) assms(2)] and same = side_by_side_same [OF I(1) assms(2)]
  show ?thesis
  proof (cases "ps ! i")
    case (Request q)
    show ?thesis
    proof (cases "\<exists>env req a calls retries. q = Reserving env req a calls retries")
      case True
      then obtain env req a calls retries where q: "q = Reserving env req a calls retries" by blast
      obtain n' where c: "place_call env req a calls retries n = (p, left, n')" "w' = ((n', d), b)"
        using assms(1) w Request q by (auto split: prod.splits)
      from ok Request q have "wanted env req" by simp
      from place_call_idle [OF c(1) this, of "sg_jsonb S"] idle [of "tables d" p] I w c(2) Request q assms(2) show ?thesis
        by (simp add: concurrent_inv_def balance_update idle_def)
    next
      case False
      with assms(1) w Request obtain q' n' d' where
        r: "request_step (inventory_service_grpc (sg_redis S)) (sg_otel S) q (n, d) = (q', n', d')"
        and p: "p = Request q'" "left = []" "w' = ((n', d'), b)" by (cases q) (auto split: prod.splits)
      from request_moves [OF r I(1) assms(2) Request assms(3) S(2) False, of k] I w p Request assms(2) show ?thesis
        by (simp add: concurrent_inv_def balance_update)
    qed
  next
    case (Calling env req a calls retries q)
    show ?thesis
    proof (cases "\<exists>x r. q = Done x r")
      case True
      then obtain x r where q: "q = Done x r" by blast
      with assms(1) Calling have p: "p = Request (attempt_over env req a calls retries (call_reply req r))" "left = []" "w' = w"
        by auto
      have "process_ok (sg_jsonb S) (tables d) (broker_sent b) p"
        using ended_call [OF ok [unfolded Calling q], of k] ok Calling p(1) by (auto simp: idle_def)
      moreover have "writes p = no_writes" using ended_call [OF ok [unfolded Calling q], of k] p(1) by (auto simp: idle_def)
      ultimately have "side_by_side (sg_jsonb S) (ps[i := p]) (tables d) (broker_sent b)" by (intro same) auto
      with ended_call [OF ok [unfolded Calling q], of k] p I w Calling q assms(2) show ?thesis
        by (simp add: concurrent_inv_def balance_update)
    next
      case False
      with assms(1) w Calling obtain q' c where s: "store_step (sg_redis S) q (peer n) = (q', c)"
        and p: "p = Calling env req a calls retries q'" "left = []" "w' = ((n\<lparr>peer := c\<rparr>, d), b)"
        by (cases q) (auto split: prod.splits)
      from ok Calling have o: "wanted env req" "0 < to_int32 (cr_Quantity req)" "serves (call_op req) q" by simp_all
      note o' = serves_step [OF s o(3)]
      note serves_call(1) [OF o(3,2)]
      from store_moves [OF s this I(3), of k] serves_call(2) [OF o(3,2), of k] serves_call(2) [OF o' o(2), of k]
        same [of "tables d" p] o o' p I w Calling assms(2) show ?thesis
        by (simp add: concurrent_inv_def balance_update)
    qed
  next
    case (Relaying q)
    with assms(1) w obtain q' d' b' where
      r: "relay_step (sg_otel S) (sg_jsonb S) q (d, b) = (q', d', b')"
      and p: "p = Relaying q'" "left = []" "w' = ((n, d'), b')" by (auto split: prod.splits)
    note M = relay_moves [OF r I(1) assms(2) Relaying S(1) I(2)]
    then have "ordered k (tables d') = ordered k (tables d)" by (intro ordered_cong) simp
    with M I w p Relaying assms(2) show ?thesis
      by (simp add: concurrent_inv_def balance_update)
  next
    case (Serving q)
    with assms(1) w obtain q' c where s: "store_step (sg_redis S) q (peer n) = (q', c)"
      and p: "p = Serving q'" "left = []" "w' = ((n\<lparr>peer := c\<rparr>, d), b)" by (auto split: prod.splits)
    have "pc_positive q" using ok Serving by simp
    from store_moves [OF s this I(3), of k] same [of "tables d" p] p I w Serving assms(2) show ?thesis
      by (simp add: concurrent_inv_def balance_update)
  qed
qed

lemma concurrent_step_inv:
  assumes "concurrent S (ps, w) (ps', w')" and "setting_ok S" and "concurrent_inv S ps w"
  shows "concurrent_inv S ps' w' \<and> balance k ps' w' \<le> balance k ps w \<and> (dedup_inv (snd w) \<longrightarrow> dedup_inv (snd w'))"
  using assms(1)
proof (cases rule: concurrent.cases)
  case (moves i p left)
  note M = process_step_inv [OF moves(4,2,3) assms(2,3), of k]
  then have "list_all (idle (sg_jsonb S)) left" by blast
  with M moves(1) side_by_side_left [of "sg_jsonb S" "ps[i := p]" _ _ left] balance_left [of "sg_jsonb S" left k "ps[i := p]" w'] show ?thesis
    by (simp add: concurrent_inv_def)
next
  case (stops i)
  let ?p = "dies (ps ! i)"
  have I: "side_by_side (sg_jsonb S) ps (sh_db w) (broker_sent (snd w))" using assms(3) by (simp add: concurrent_inv_def)
  note ok = side_by_side_nth [OF I stops(3)]
  have "side_by_side (sg_jsonb S) (ps[i := ?p]) (sh_db w) (broker_sent (snd w))"
    using dies_ok [OF ok] by (intro side_by_side_same [OF I stops(3)]) auto
  with assms(3) stops held_dies [OF ok, of k] show ?thesis
    by (simp add: concurrent_inv_def balance_update)
qed

lemma concurrent_run_inv:
  assumes "runs S (ps, w) (ps', w')" and "setting_ok S" and "concurrent_inv S ps w"
  shows "concurrent_inv S ps' w' \<and> balance k ps' w' \<le> balance k ps w \<and> (dedup_inv (snd w) \<longrightarrow> dedup_inv (snd w'))"
  using assms(1)
proof (induction rule: rtranclp_induct2)
  case refl
  then show ?case using assms(3) by simp
next
  case (step ps1 w1 ps2 w2)
  with concurrent_step_inv [OF step(2) assms(2), of k] show ?case by auto
qed

text \<open>The processes before their first step, and a world without orders; any stock.\<close>

fun fresh_process :: "'c process \<Rightarrow> bool" where
  "fresh_process (Request (Arrived env r)) = env_ok env"
| "fresh_process (Relaying (Polling ctx log)) = True"
| "fresh_process (Serving (Started x)) = positive_op x"
| "fresh_process _ = False"

definition quiet :: "'r shared \<Rightarrow> bool" where
  "quiet w \<longleftrightarrow> orders (sh_db w) = Map.empty \<and> outbox_events (sh_db w) = [] \<and> stream (snd w) = [] \<and>
     recent (snd w) = [] \<and> stock_ok (sh_stock w)"

lemma fresh_process_ok:
  "fresh_process p \<Longrightarrow> process_ok jsonb t ms p \<and> writes p = no_writes \<and> held k p = 0 \<and> asked_for k p = 0"
  by (cases p rule: fresh_process.cases) auto

lemma quiet_inv:
  assumes "list_all fresh_process ps" and "quiet w"
  shows "concurrent_inv S ps w" and "balance k ps w = available (sh_stock w) k"
    and "window_holds (snd w) \<Longrightarrow> dedup_inv (snd w)"
proof -
  have p: "process_ok jsonb t ms q \<and> keys q = [] \<and> rows q = [] \<and> held k q = 0 \<and> asked_for k q = 0" if "q \<in> set ps" for jsonb t ms q
    using that assms(1) fresh_process_ok [of q jsonb t ms k] by (auto simp: list_all_iff)
  then have "total (held k) ps = 0" "total (asked_for k) ps = 0" by (simp_all cong: map_cong)
  with assms(2) show "balance k ps w = available (sh_stock w) k" by (simp add: balance_def quiet_def ordered_def)
  have "told (sg_jsonb S) (sh_db w) []" using assms(2) by (simp add: told_def quiet_def)
  moreover have "relay_inv (sg_jsonb S) (sh_db w) (broker_sent (snd w))"
    using assms(2) by (simp add: relay_inv_def outbox_ok_def quiet_def broker_sent_def)
  ultimately show "concurrent_inv S ps w"
    using assms(2) p by (auto simp: concurrent_inv_def side_by_side_def quiet_def list_all_iff uncommitted_def apart_def disjoint_def)
  show "window_holds (snd w) \<Longrightarrow> dedup_inv (snd w)"
    using assms(2) by (simp add: dedup_inv_def quiet_def once_def broker_sent_def)
qed

section \<open>Properties of the runs\<close>

text \<open>A sample: one request and a relay that waits.\<close>

definition sample_processes :: "string process list" where
  "sample_processes = [Request (Arrived sample_order_env sample_order_request), Relaying (Polling ''t'' [])]"

definition sample_shared :: "(string \<rightharpoonup> string) shared" where
  "sample_shared = (sample_world [], \<lparr>stream = [], recent = [], weather = []\<rparr>)"

lemma sample_fresh: "list_all fresh_process sample_processes"
  using sample_env_ok sample_pre by (simp add: sample_processes_def env_ok_def)

lemma sample_quiet: "quiet sample_shared"
  using sample_starts by (simp add: quiet_def starts_def sample_shared_def sample_platform_def)

lemma sample_concurrent:
  obtains effs left n d where
    "runs sample_setting (sample_processes, sample_shared)
       (Request (Answered (WriteJSON 201 (order_json sample_order)) effs) # Relaying (Polling ''t'' []) # left, ((n, d), snd sample_shared))"
    and "tables (cs_next (peer n)) = [''A'' \<mapsto> (''a'', 6)]" and "script d = []"
    and "length (outbox_events (tables d)) = 1" and "dom (orders (tables d)) = {''u1''}" and "total (asked_for k) left = 0"
proof -
  obtain n d where w: "sample_world [] = (n, d)" by fastforce
  obtain e2 n1 j where C: "createOrder (Client_Reserve (inventory_service_grpc map_redis)) CreateOrder plain_otel
      sample_order_env sample_order_request (sample_world []) =
      (let (res, d') = CreateOrder sample_order (outbox_of plain_otel sample_order_env j) (snd (sample_world []))
       in case res of
            Some err \<Rightarrow> (WriteError 500 ''internal error'',
              e2 @ log_failure ''create order failed'' ''sku'' ''A'' err, (n1, d'))
          | None \<Rightarrow> (WriteJSON 201 (order_json sample_order), e2 @ [Counter_Inc ''orders_created_total'' []], (n1, d')))"
    and j: "parse_all (render j) = Some j" and n1: "tables (cs_next (peer n1)) = [''A'' \<mapsto> (''a'', 6)]"
    by (rule sample_createOrder [OF refl])
  have "\<exists>d'. CreateOrder sample_order (outbox_of plain_otel sample_order_env j) (snd (sample_world [])) = (None, d') \<and> script d' = []"
    using j by (intro CreateOrder_calm [of _ _ j])
      (simp_all add: sample_world_def outbox_of_def order_of_def in_int32_def)
  then obtain d1 where d1: "CreateOrder sample_order (outbox_of plain_otel sample_order_env j) (snd (sample_world [])) = (None, d1)"
    "script d1 = []" by blast
  note created = pgo.create_ok [OF d1(1)]
  then have one: "length (outbox_events (tables d1)) = 1" by (auto simp: created_def sample_world_def)
  from created obtain t where "orders (tables d1) = [o_ID sample_order \<mapsto> t]"
    by (auto simp: created_def sample_world_def)
  then have one: "length (outbox_events (tables d1)) = 1" "dom (orders (tables d1)) = {''u1''}"
    by (simp_all add: one order_of_def sample_order_env_def)
  from C d1 obtain effs where C': "createOrder (Client_Reserve (inventory_service_grpc map_redis)) CreateOrder
      plain_otel sample_order_env sample_order_request (n, d) = (WriteJSON 201 (order_json sample_order), effs, n1, d1)"
    by (simp add: w)
  have "(alone (inventory_service_grpc map_redis) plain_otel ^^ 11)
      (Arrived sample_order_env sample_order_request, n, d) = (Answered (WriteJSON 201 (order_json sample_order)) effs, n1, d1)"
    using request_alone [of "inventory_service_grpc map_redis" plain_otel sample_order_env sample_order_request n d] C' by simp
  then have "(alone (inventory_service_grpc (sg_redis sample_setting)) (sg_otel sample_setting) ^^ 11)
      (Arrived sample_order_env sample_order_request, n, d) = (Answered (WriteJSON 201 (order_json sample_order)) effs, n1, d1)"
    by (simp only: sample_setting_def setting.simps)
  moreover have "0 < length sample_processes" "sample_processes ! 0 = Request (Arrived sample_order_env sample_order_request)"
    "\<forall>j < length sample_processes. j \<noteq> 0 \<longrightarrow> keys (sample_processes ! j) = []"
    by (simp_all add: sample_processes_def less_Suc_eq)
  ultimately obtain left where left: "list_all finished left" and "runs sample_setting (sample_processes, ((n, d), snd sample_shared))
      (sample_processes[0 := Request (Answered (WriteJSON 201 (order_json sample_order)) effs)] @ left, ((n1, d1), snd sample_shared))"
    using alone_runs by blast
  moreover have "((n, d), snd sample_shared) = sample_shared" by (simp only: sample_shared_def w snd_conv)
  ultimately have "runs sample_setting (sample_processes, sample_shared)
       (Request (Answered (WriteJSON 201 (order_json sample_order)) effs) # Relaying (Polling ''t'' []) # left, ((n1, d1), snd sample_shared))"
    by (simp only: sample_processes_def list_update.simps nat.case append.simps)
  moreover from left have "total (asked_for k) left = 0" by (induction left) (auto elim: finished.elims)
  ultimately show thesis using n1 d1(2) one by (intro that)
qed

lemma told_row:
  assumes "told jsonb t evs" and "orders t i = Some ord"
  shows "\<exists>row \<in> set (outbox_events t). \<exists>e. row_event jsonb row = Inr e \<and> tells e ord \<and> oc_OrderID e = i"
proof -
  from assms have "i \<in> oc_OrderID ` set evs" by (auto simp: told_def)
  then obtain e where e: "e \<in> set evs" "i = oc_OrderID e" by blast
  with assms have "tells e ord" unfolding told_def by force
  moreover from assms(1) e(1) have "Inr e \<in> set (map (row_event jsonb) (outbox_events t))" by (simp add: told_def)
  then obtain row where "row \<in> set (outbox_events t)" "row_event jsonb row = Inr e" by auto
  ultimately show ?thesis using e(2) by blast
qed

lemma told_ordered_nonneg:
  assumes "told jsonb t evs"
  shows "0 \<le> ordered k t"
proof -
  have "0 \<le> units k (the (orders t i))" if "i \<in> dom (orders t)" for i
  proof -
    from assms that have "i \<in> oc_OrderID ` set evs" by (simp add: told_def)
    with assms obtain ord where "orders t i = Some ord" "0 < o_Quantity ord" unfolding told_def tells_def by blast
    then show ?thesis by (simp add: units_def)
  qed
  then show ?thesis unfolding ordered_def by (rule sum_nonneg)
qed

lemma started_inv:
  assumes "runs S (ps, w) (ps', w')" and "setting_ok S" and "list_all fresh_process ps" and "quiet w"
  shows "concurrent_inv S ps' w' \<and> balance k ps' w' \<le> available (sh_stock w) k \<and>
    (window_holds (snd w) \<longrightarrow> dedup_inv (snd w'))"
  using concurrent_run_inv [OF assms(1,2) quiet_inv(1) [OF assms(3,4)], of k] quiet_inv(2,3) [OF assms(3,4)] by auto

text \<open>
  C3. No overselling, however requests interleave: with any number of requests, restocks, reads and
  relays cut at each of their calls to Redis, Postgres, inventory-service and the broker, with retries
  beside the attempts they were meant to replace, and with deaths anywhere, the units in stored orders,
  those taken by reservations that have not become orders and those left in stock never exceed the
  initial stock and what restocks asked to add, and none of the three is negative.
\<close>

theorem concurrent_never_oversells:
  assumes "runs S (ps, w) (ps', w')" and "setting_ok S" and "list_all fresh_process ps" and "quiet w"
  shows "0 \<le> available (sh_stock w') k \<and> 0 \<le> total (held k) ps' \<and> 0 \<le> ordered k (sh_db w') \<and>
    ordered k (sh_db w') + total (held k) ps' + available (sh_stock w') k \<le>
      available (sh_stock w) k + total (asked_for k) ps'"
proof -
  from started_inv [OF assms, of k] have I: "concurrent_inv S ps' w'" and B: "balance k ps' w' \<le> available (sh_stock w) k"
    by blast+
  from I have "0 \<le> available (sh_stock w') k" by (simp add: concurrent_inv_def available_nonneg)
  moreover from I have "\<forall>p \<in> set ps'. 0 \<le> held k p"
    by (auto simp: concurrent_inv_def side_by_side_def list_all_iff intro: held_nonneg)
  then have "0 \<le> total (held k) ps'" by (intro sum_list_nonneg) auto
  moreover from I obtain evs where "told (sg_jsonb S) (sh_db w') evs" by (auto simp: concurrent_inv_def side_by_side_def)
  then have "0 \<le> ordered k (sh_db w')" by (rule told_ordered_nonneg)
  ultimately show ?thesis using B by (simp add: balance_def)
qed

theorem concurrent_never_oversells_witness:
  "\<exists>ps' w'. runs sample_setting (sample_processes, sample_shared) (ps', w') \<and>
     ordered ''A'' (sh_db w') + total (held ''A'') ps' + available (sh_stock w') ''A'' \<le> 10 \<and>
     available (sh_stock w') ''A'' = 6"
proof -
  obtain effs left n d where run: "runs sample_setting (sample_processes, sample_shared)
       (Request (Answered (WriteJSON 201 (order_json sample_order)) effs) # Relaying (Polling ''t'' []) # left, ((n, d), snd sample_shared))"
    and st: "tables (cs_next (peer n)) = [''A'' \<mapsto> (''a'', 6)]" and "total (asked_for ''A'') left = 0" by (rule sample_concurrent)
  note this(3)
  moreover define w' where "w' = ((n, d), snd sample_shared)"
  moreover have "available (sh_stock sample_shared) ''A'' = 10"
    by (simp add: sample_shared_def sample_world_def sample_def available_def)
  moreover have "available (sh_stock w') ''A'' = 6" using st by (simp add: w'_def available_def)
  moreover note concurrent_never_oversells [OF run sample_setting_ok sample_fresh sample_quiet, of "''A''", folded w'_def]
  ultimately have "ordered ''A'' (sh_db w') + total (held ''A'')
      (Request (Answered (WriteJSON 201 (order_json sample_order)) effs) # Relaying (Polling ''t'' []) # left) +
      available (sh_stock w') ''A'' \<le> 10 \<and> available (sh_stock w') ''A'' = 6" by simp
  with run [folded w'_def] show ?thesis by blast
qed

text \<open>
  C4. What is answered, stored and streamed agrees, however transactions interleave: a request that was
  answered with 201 carries an order that is stored under its id; there are events, one for each outbox
  row, which the rows decode to, one for each stored order; and whatever is in the stream decodes to one.
\<close>

theorem concurrent_orders_have_their_events:
  assumes "runs S (ps, w) (ps', w')" and "setting_ok S" and "list_all fresh_process ps" and "quiet w"
  shows "(\<forall>calls effs. Request (Answered calls effs) \<in> set ps' \<longrightarrow> sent_status calls = 201 \<longrightarrow>
      (\<exists>ord. calls = WriteJSON 201 (order_json ord) \<and> orders (sh_db w') (o_ID ord) = Some (stored ord))) \<and>
    (\<exists>evs. told (sg_jsonb S) (sh_db w') evs \<and>
      (\<forall>m \<in> set (stream (snd w')). \<exists>e \<in> set evs. unmarshal_order_created (msg_Data m) = Inr e))"
proof -
  from started_inv [OF assms] have I: "side_by_side (sg_jsonb S) ps' (sh_db w') (broker_sent (snd w'))"
    by (auto simp: concurrent_inv_def)
  then obtain evs where t: "told (sg_jsonb S) (sh_db w') evs"
    and r: "relay_inv (sg_jsonb S) (sh_db w') (broker_sent (snd w'))" by (auto simp: side_by_side_def)
  from stream_tells [OF r t] have "\<forall>m \<in> set (stream (snd w')). \<exists>e \<in> set evs. unmarshal_order_created (msg_Data m) = Inr e"
    by blast
  moreover from I have ok: "list_all (process_ok (sg_jsonb S) (sh_db w') (broker_sent (snd w'))) ps'" by (simp add: side_by_side_def)
  have "\<exists>ord. calls = WriteJSON 201 (order_json ord) \<and> orders (sh_db w') (o_ID ord) = Some (stored ord)"
    if "Request (Answered calls effs) \<in> set ps'" and "sent_status calls = 201" for calls effs
  proof -
    from bspec [OF ok [unfolded list_all_iff] that(1)] that(2) show ?thesis by simp
  qed
  ultimately show ?thesis using t by blast
qed

theorem concurrent_orders_have_their_events_witness:
  "\<exists>ps' w' evs. runs sample_setting (sample_processes, sample_shared) (ps', w') \<and>
     told render (sh_db w') evs \<and> length evs = 1"
proof -
  obtain effs left n d where run: "runs sample_setting (sample_processes, sample_shared)
       (Request (Answered (WriteJSON 201 (order_json sample_order)) effs) # Relaying (Polling ''t'' []) # left, ((n, d), snd sample_shared))"
    and one: "length (outbox_events (tables d)) = 1" by (rule sample_concurrent)
  from concurrent_orders_have_their_events [OF run sample_setting_ok sample_fresh sample_quiet] obtain evs where
    t: "told (sg_jsonb sample_setting) (tables d) evs" by auto
  then have "length evs = 1" using one by (auto simp: told_def dest!: map_eq_imp_length_eq)
  with run t show ?thesis by (fastforce simp: sample_setting_def)
qed

text \<open>
  C7. Several relays publish each event once: with any number of relays on one outbox, polling and
  publishing side by side, dying and starting over, losing acknowledgements and marks, no id is in the
  stream twice as long as the broker's deduplication window holds; what is marked was published and
  what was published is in the outbox.
\<close>

theorem concurrent_relays_publish_once:
  assumes "runs S (ps, w) (ps', w')" and "setting_ok S" and "list_all fresh_process ps" and "quiet w"
    and "window_holds (snd w)"
  shows "once (broker_sent (snd w')) \<and> relay_inv (sg_jsonb S) (sh_db w') (broker_sent (snd w'))"
  using started_inv [OF assms(1-4)] assms(5) by (simp add: concurrent_inv_def side_by_side_def dedup_inv_def)

theorem concurrent_relays_publish_once_witness:
  "\<exists>ps' w'. runs sample_setting (sample_processes, sample_shared) (ps', w') \<and>
     once (broker_sent (snd w')) \<and> orders (sh_db w') \<noteq> Map.empty"
proof -
  obtain effs left n d where run: "runs sample_setting (sample_processes, sample_shared)
       (Request (Answered (WriteJSON 201 (order_json sample_order)) effs) # Relaying (Polling ''t'' []) # left, ((n, d), snd sample_shared))"
    and dom: "dom (orders (tables d)) = {''u1''}" by (rule sample_concurrent)
  have "orders (tables d) \<noteq> Map.empty" using dom by (metis dom_empty insert_not_empty)
  moreover have "window_holds (snd sample_shared)" by (simp add: sample_shared_def window_holds_def)
  note concurrent_relays_publish_once [OF run sample_setting_ok sample_fresh sample_quiet this]
  ultimately have "once (broker_sent (snd ((n, d), snd sample_shared))) \<and> orders (sh_db ((n, d), snd sample_shared)) \<noteq> Map.empty"
    by simp
  with run show ?thesis by blast
qed

text \<open>A relay that meets no failure and has enough polls empties the outbox.\<close>

lemma relay_drained:
  assumes "setting_ok S" and "service_relay (sg_jsonb S) (sg_otel S) ctx ticks d b = (log, d', b')"
    and "script d = []" and "weather b = []" and "set (recent b) \<subseteq> msg_id ` set (stream b)"
    and "relay_inv (sg_jsonb S) (tables d) (broker_sent b)" and "told (sg_jsonb S) (tables d) evs"
    and "length (unpublished (tables d)) \<le> 20 * Suc ticks"
  shows "log = []" and "relay_inv (sg_jsonb S) (tables d') (broker_sent b')" and "unpublished (tables d') = []"
    and "told (sg_jsonb S) (tables d') evs" and "orders (tables d') = orders (tables d)"
    and "dedup_inv b \<longrightarrow> dedup_inv b'"
proof -
  have w3c: "w3c (sg_otel S)" using assms(1) by (simp add: setting_ok_def)
  with orelay.relay_Run_inv [OF assms(2)] assms(5,6) show "relay_inv (sg_jsonb S) (tables d') (broker_sent b')"
    and "dedup_inv b \<longrightarrow> dedup_inv b'" unfolding dedup_inv_def by blast+
  from w3c orelay.relay_Run_inv [OF assms(2)] assms(5,6) have same: "but_marks (tables d') = but_marks (tables d)" by blast
  from assms(6) have "outbox_ok (tables d)" by (simp add: relay_inv_def)
  from orelay.relay_Run_up [OF assms(2-4) this] assms(8) show "log = []" "unpublished (tables d') = []"
    by (simp_all add: batchSize_def)
  show "told (sg_jsonb S) (tables d') evs" using assms(7) same told_but_marks by metis
  show "orders (tables d') = orders (tables d)" using arg_cong [OF same, of orders] by (simp add: but_marks_def)
qed

lemma drained_row:
  assumes "relay_inv jsonb t (broker_sent b)" and "unpublished t = []" and "told jsonb t evs" and "orders t i = Some ord"
  shows "\<exists>m e. m \<in> set (stream b) \<and> unmarshal_order_created (msg_Data m) = Inr e \<and> tells e ord \<and> oc_OrderID e = i"
proof -
  from told_row [OF assms(3,4)] obtain row e where row: "row \<in> set (outbox_events t)"
    and e: "row_event jsonb row = Inr e" "tells e ord" "oc_OrderID e = i" by blast
  from unpublished_Nil assms(2) row have "ob_published row" by blast
  with assms(1) row have "msg_of jsonb row \<in> set (broker_sent b)" by (auto simp: relay_inv_def)
  then obtain m where "m \<in> set (stream b)" "msg_Data m = jsonb (ob_payload row)"
    by (auto simp: broker_sent_def msg_of_def)
  with e show ?thesis unfolding row_event_def by metis
qed

text \<open>
  C5. An order that was answered with 201 is announced, whatever its transaction's id: once the database
  and the broker answer, a relay's polls, one for each twenty waiting rows, put into the stream an event
  that decodes to the order, also when rows with greater ids committed and were published before.
\<close>

theorem answered_orders_are_announced:
  assumes "runs S (ps, w) (ps', ((n, d), b))" and "setting_ok S" and "list_all fresh_process ps" and "quiet w"
    and "Request (Answered calls effs) \<in> set ps'" and "sent_status calls = 201"
    and "script d = []" and "weather b = []" and "length (unpublished (tables d)) \<le> 20 * Suc ticks"
    and "service_relay (sg_jsonb S) (sg_otel S) ctx ticks d b = (log, d', b')"
  shows "log = [] \<and> (\<exists>ord m e. calls = WriteJSON 201 (order_json ord) \<and> orders (tables d') (o_ID ord) = Some (stored ord) \<and>
    m \<in> set (stream b') \<and> unmarshal_order_created (msg_Data m) = Inr e \<and> tells e (stored ord))"
proof -
  from started_inv [OF assms(1-4)] have I: "side_by_side (sg_jsonb S) ps' (tables d) (broker_sent b)"
    and s: "set (recent b) \<subseteq> msg_id ` set (stream b)" by (auto simp: concurrent_inv_def)
  then obtain evs where t: "told (sg_jsonb S) (tables d) evs" and r: "relay_inv (sg_jsonb S) (tables d) (broker_sent b)"
    and ok: "\<forall>p \<in> set ps'. process_ok (sg_jsonb S) (tables d) (broker_sent b) p"
    by (auto simp: side_by_side_def list_all_iff)
  from bspec [OF ok assms(5)] assms(6) obtain ord where
    ord: "calls = WriteJSON 201 (order_json ord)" "orders (tables d) (o_ID ord) = Some (stored ord)" by auto
  note drained = relay_drained [OF assms(2,10,7,8) s r t assms(9)]
  have ord': "orders (tables d') (o_ID ord) = Some (stored ord)" using ord(2) drained(5) by simp
  from drained_row [OF drained(2,3,4) this] drained(1) ord(1) ord' show ?thesis by blast
qed

theorem answered_orders_are_announced_witness:
  "\<exists>ps' n d b log d' b'. runs sample_setting (sample_processes, sample_shared) (ps', ((n, d), b)) \<and>
     service_relay render plain_otel ''t'' 0 d b = (log, d', b') \<and> stream b = [] \<and> stream b' \<noteq> []"
proof -
  obtain effs left n d where run: "runs sample_setting (sample_processes, sample_shared)
       (Request (Answered (WriteJSON 201 (order_json sample_order)) effs) # Relaying (Polling ''t'' []) # left, ((n, d), snd sample_shared))"
    and d: "script d = []" "length (outbox_events (tables d)) = 1" by (rule sample_concurrent)
  let ?b = "snd sample_shared"
  obtain log d' b' where r: "service_relay render plain_otel ''t'' 0 d ?b = (log, d', b')" by (rule prod_cases3)
  then have r': "service_relay (sg_jsonb sample_setting) (sg_otel sample_setting) ''t'' 0 d ?b = (log, d', b')"
    by (simp add: sample_setting_def)
  have un: "length (unpublished (tables d)) \<le> 20 * Suc 0" using length_unpublished [of "tables d"] d(2) by linarith
  have b: "weather ?b = []" "stream ?b = []" by (simp_all add: sample_shared_def)
  from answered_orders_are_announced [OF run [folded surjective_pairing] sample_setting_ok sample_fresh sample_quiet
      list.set_intros(1) _ d(1) b(1) un r'] have "stream b' \<noteq> []" by auto
  with run r b(2) show ?thesis by blast
qed

section \<open>Notifications and totals\<close>

text \<open>The orders a confirmation was sent for, by the log lines of notification-service.\<close>

fun notified_by :: "effect \<Rightarrow> string list" where
  "notified_by (Log_Info m attrs) =
     (if m = ''order confirmation notification sent'' then map snd (filter (\<lambda>a. fst a = ''order_id'') attrs) else [])"
| "notified_by _ = []"

definition notified :: "effect list \<Rightarrow> string list" where
  "notified effs = concat (map notified_by effs)"

lemma notified_deliver:
  assumes "deliver otel ctx (notification_handleOrderCreated otel) msgs d c = (effs, c')" and "cn_up c"
  shows "cn_up c' \<and> notified effs @ map oc_OrderID (handled msgs ds (cn_acked c')) =
    map oc_OrderID (handled msgs (d # ds) (cn_acked c))"
  using assms
  by (cases d) (auto simp: deliver_def on_message_def notification_handleOrderCreated_def notified_def event_attrs_def Let_def
      split: if_splits sum.splits option.splits)

lemma notified_handled:
  assumes "run_deliveries otel ctx (notification_handleOrderCreated otel) msgs ds c = (effs, c')" and "cn_up c"
  shows "notified effs = map oc_OrderID (handled msgs ds (cn_acked c))"
  using assms
proof (induction ds arbitrary: c effs)
  case (Cons d ds)
  obtain e1 c1 where d: "deliver otel ctx (notification_handleOrderCreated otel) msgs d c = (e1, c1)" by force
  then obtain e2 where r: "run_deliveries otel ctx (notification_handleOrderCreated otel) msgs ds c1 = (e2, c')" and e: "effs = e1 @ e2"
    using Cons.prems(1) by (auto split: prod.splits)
  from notified_deliver [OF d Cons.prems(2), of ds] Cons.IH [OF r] e show ?case by (simp add: notified_def)
qed (simp add: notified_def)

lemma handled_covers:
  assumes "i \<in> fst ` set ds" and "i < length msgs" and "unmarshal_order_created (msg_Data (msgs ! i)) = Inr e" and "i \<notin> set acked"
  shows "e \<in> set (handled msgs ds acked)"
  using assms
proof (induction ds arbitrary: acked)
  case (Cons d ds)
  obtain j arrives where d: "d = (j, arrives)" by force
  show ?case
  proof (cases "j = i")
    case False
    with Cons d show ?thesis by (auto split: sum.splits)
  qed (use Cons.prems d in simp)
qed simp

lemma handled_decodes: "e \<in> set (handled msgs ds acked) \<Longrightarrow> \<exists>m \<in> set msgs. unmarshal_order_created (msg_Data m) = Inr e"
  by (induction msgs ds acked rule: handled.induct) (auto split: if_splits sum.splits)

text \<open>Where each message was delivered and acknowledged, each event was handled once.\<close>

lemma settled_stream:
  assumes "relay_inv jsonb t (broker_sent b)" and "once (broker_sent b)" and "unpublished t = []" and "told jsonb t evs"
    and "list_all snd ds" and "{..<length (stream b)} \<subseteq> fst ` set ds"
  shows "mset (handled (stream b) ds []) = mset evs"
proof -
  have "unmarshal_order_created (msg_Data m) = Inr (decoded (msg_Data m))" if "m \<in> set (stream b)" for m
    using stream_tells [OF assms(1,4) that] by (auto simp: decoded_def)
  then have "list_all2 (\<lambda>m e. unmarshal_order_created (msg_Data m) = Inr e) (stream b) (map decoded (stream_data b))"
    by (simp add: list_all2_conv_all_nth)
  from handled_all [OF assms(5) this assms(6)] stream_is_outbox [OF assms(1-4)] show ?thesis by simp
qed

text \<open>
  C6. Every order is notified: after any interleaving of requests, relays and restocks, once the database
  and the broker answer, a relay has polled for the waiting rows and each message of the stream was
  delivered at least once, notification-service has sent a confirmation for every stored order and
  for nothing else, whatever acknowledgements were lost; and exactly one for each order when the
  acknowledgements arrive and the broker's window holds.
\<close>

theorem every_order_is_notified:
  assumes "runs S (ps, w) (ps', ((n, d), b))" and "setting_ok S" and "list_all fresh_process ps" and "quiet w"
    and "script d = []" and "weather b = []" and "length (unpublished (tables d)) \<le> 20 * Suc ticks"
    and "service_relay (sg_jsonb S) (sg_otel S) ctx ticks d b = (log, d', b')"
    and "{..<length (stream b')} \<subseteq> fst ` set ds"
    and "run_deliveries (sg_otel S) ctx' (notification_handleOrderCreated (sg_otel S)) (stream b') ds (fresh ()) = (effs, c')"
  shows "set (notified effs) = dom (orders (tables d)) \<and>
    (list_all snd ds \<and> window_holds (snd w) \<longrightarrow> mset (notified effs) = mset_set (dom (orders (tables d))))"
proof -
  from started_inv [OF assms(1-4)] obtain evs where t: "told (sg_jsonb S) (tables d) evs"
    and r: "relay_inv (sg_jsonb S) (tables d) (broker_sent b)" and s: "set (recent b) \<subseteq> msg_id ` set (stream b)"
    and D: "window_holds (snd w) \<longrightarrow> dedup_inv b" by (auto simp: concurrent_inv_def side_by_side_def)
  note drained = relay_drained [OF assms(2,8,5,6) s r t assms(7)]
  have N: "notified effs = map oc_OrderID (handled (stream b') ds [])" using notified_handled [OF assms(10)] by simp
  have ids: "oc_OrderID ` set evs = dom (orders (tables d))" "distinct (map oc_OrderID evs)" using t by (simp_all add: told_def)
  have dec: "\<exists>e \<in> set evs. unmarshal_order_created (msg_Data m) = Inr e" if "m \<in> set (stream b')" for m
    using stream_tells [OF drained(2,4) that] .
  have "set (notified effs) \<subseteq> dom (orders (tables d))"
  proof
    fix i assume "i \<in> set (notified effs)"
    then obtain e where e: "e \<in> set (handled (stream b') ds [])" "i = oc_OrderID e" unfolding N by auto
    from handled_decodes [OF e(1)] obtain m where m: "m \<in> set (stream b')" "unmarshal_order_created (msg_Data m) = Inr e" by blast
    with dec have "e \<in> set evs" by fastforce
    with e(2) ids(1) show "i \<in> dom (orders (tables d))" by blast
  qed
  moreover have "dom (orders (tables d)) \<subseteq> set (notified effs)"
  proof
    fix i assume "i \<in> dom (orders (tables d))"
    then obtain ord where "orders (tables d') i = Some ord" using drained(5) by auto
    from drained_row [OF drained(2,3,4) this] obtain m e where
      m: "m \<in> set (stream b')" "unmarshal_order_created (msg_Data m) = Inr e" "oc_OrderID e = i" by blast
    then obtain k where "k < length (stream b')" "stream b' ! k = m" by (metis in_set_conv_nth)
    with handled_covers [of k ds "stream b'" e "[]"] m assms(9) show "i \<in> set (notified effs)" unfolding N by auto
  qed
  moreover have "mset (notified effs) = mset_set (dom (orders (tables d)))" if "list_all snd ds" "window_holds (snd w)"
  proof -
    from D that(2) have "once (broker_sent b')" using drained(6) by (simp add: dedup_inv_def)
    from settled_stream [OF drained(2) this drained(3,4) that(1) assms(9)] have "mset (handled (stream b') ds []) = mset evs" .
    then have "mset (notified effs) = mset (map oc_OrderID evs)" unfolding N by (simp only: mset_map)
    also have "\<dots> = mset_set (dom (orders (tables d)))" using mset_set_set [OF ids(2)] ids(1) by simp
    finally show ?thesis .
  qed
  ultimately show ?thesis by blast
qed

theorem every_order_is_notified_witness:
  "\<exists>ps' n d b log d' b' effs c'. runs sample_setting (sample_processes, sample_shared) (ps', ((n, d), b)) \<and>
     service_relay render plain_otel ''t'' 0 d b = (log, d', b') \<and>
     run_deliveries plain_otel ''t'' (notification_handleOrderCreated plain_otel) (stream b')
       (map (\<lambda>i. (i, True)) [0..<length (stream b')]) (fresh ()) = (effs, c') \<and>
     mset (notified effs) = {#''u1''#}"
proof -
  obtain effs left n d where run: "runs sample_setting (sample_processes, sample_shared)
       (Request (Answered (WriteJSON 201 (order_json sample_order)) effs) # Relaying (Polling ''t'' []) # left, ((n, d), snd sample_shared))"
    and d: "script d = []" "length (outbox_events (tables d)) = 1" "dom (orders (tables d)) = {''u1''}"
    by (rule sample_concurrent)
  let ?b = "snd sample_shared"
  obtain log d' b' where r: "service_relay render plain_otel ''t'' 0 d ?b = (log, d', b')" by (rule prod_cases3)
  let ?ds = "map (\<lambda>i. (i, True)) [0..<length (stream b')]"
  obtain effs' c' where n: "run_deliveries plain_otel ''t'' (notification_handleOrderCreated plain_otel) (stream b') ?ds (fresh ()) = (effs', c')"
    by (rule prod.exhaust)
  from r n have r': "service_relay (sg_jsonb sample_setting) (sg_otel sample_setting) ''t'' 0 d ?b = (log, d', b')"
    "run_deliveries (sg_otel sample_setting) ''t'' (notification_handleOrderCreated (sg_otel sample_setting)) (stream b') ?ds (fresh ()) = (effs', c')"
    by (simp_all add: sample_setting_def)
  have un: "length (unpublished (tables d)) \<le> 20 * Suc 0" using length_unpublished [of "tables d"] d(2) by linarith
  have b: "weather ?b = []" "window_holds ?b" by (simp_all add: sample_shared_def window_holds_def)
  have ds: "{..<length (stream b')} \<subseteq> fst ` set ?ds" "list_all snd ?ds" by (auto simp: list_all_iff image_iff)
  from every_order_is_notified [OF run [folded surjective_pairing] sample_setting_ok sample_fresh sample_quiet
      d(1) b(1) un r'(1) ds(1) r'(2)] b(2) ds(2) have "mset (notified effs') = {#''u1''#}" by (simp only: d(3)) simp
  with run r n show ?thesis by blast
qed

text \<open>
  The totals catch up as well: under the same conditions, with acknowledgements that arrive and a broker
  window that holds, \<open>/stats\<close> of analytics-service shows the number of stored orders and the sum of their
  quantities, whatever the interleaving that stored them.
\<close>

lemma told_accepted:
  assumes "relay_inv jsonb t (broker_sent b)" and "told jsonb t evs"
  shows "acceptable (\<lambda>e. 0 \<le> oc_Quantity e) (stream b)"
  unfolding acceptable_def
proof (intro ballI allI impI)
  fix m e assume "m \<in> set (stream b)" "unmarshal_order_created (msg_Data m) = Inr e"
  with stream_tells [OF assms] have "e \<in> set evs" by fastforce
  with assms(2) obtain ord where "tells e ord" by (auto simp: told_def)
  then show "0 \<le> oc_Quantity e" by (simp add: tells_def)
qed

theorem every_order_is_counted:
  assumes "runs S (ps, w) (ps', ((n, d), b))" and "setting_ok S" and "list_all fresh_process ps" and "quiet w"
    and "script d = []" and "weather b = []" and "length (unpublished (tables d)) \<le> 20 * Suc ticks"
    and "service_relay (sg_jsonb S) (sg_otel S) ctx ticks d b = (log, d', b')"
    and "{..<length (stream b')} \<subseteq> fst ` set ds" and "list_all snd ds" and "window_holds (snd w)"
    and "run_deliveries (sg_otel S) ctx' (analytics_handleOrderCreated (sg_otel S)) (stream b') ds (fresh zero_stats) = (effs, c')"
  shows "Stats_Snapshot (cn_app c') =
    \<lparr>sn_OrdersCount = to_int64 (int (card (dom (orders (tables d))))),
     sn_TotalQuantityReserved = to_int64 (\<Sum>i \<in> dom (orders (tables d)). o_Quantity (the (orders (tables d) i)))\<rparr>"
proof -
  from started_inv [OF assms(1-4)] obtain evs where t: "told (sg_jsonb S) (tables d) evs"
    and r: "relay_inv (sg_jsonb S) (tables d) (broker_sent b)" and s: "set (recent b) \<subseteq> msg_id ` set (stream b)"
    and D: "window_holds (snd w) \<longrightarrow> dedup_inv b" by (auto simp: concurrent_inv_def side_by_side_def)
  note drained = relay_drained [OF assms(2,8,5,6) s r t assms(7)]
  from D assms(11) have "once (broker_sent b')" using drained(6) by (simp add: dedup_inv_def)
  from settled_stream [OF drained(2) this drained(3,4) assms(10,9)] have M: "mset (handled (stream b') ds []) = mset evs" .
  from analytics.run_deliveries_handled [OF assms(12) told_accepted [OF drained(2,4)]]
  have "cn_app c' = fold note_stats (handled (stream b') ds []) zero_stats" by simp
  with mset_eq_length [OF M] sum_list_handled [OF M, of oc_Quantity] told_totals [OF t]
  show ?thesis by (simp add: fold_note_zero Stats_Snapshot_def)
qed

end
