(* ===== verification/Metrics.thy ===== *)
theory Metrics
  imports Platform
begin

text \<open>
  The metrics the services declare (\<open>metrics/http.go\<close>, \<open>metrics/grpc.go\<close>, \<open>order/metrics.go\<close>, \<open>inventory/metrics.go\<close>,
  \<open>caching_store.go\<close>, \<open>stats.go\<close>, \<open>domain.go\<close>) against the calls their handlers make. \<open>promauto\<close> panics when two
  metrics of a process share a name, \<open>WithLabelValues\<close> when the number of values is not that of the labels,
  \<open>Add\<close> on a negative value. The locale \<open>metered\<close> is a route table whose handlers keep to a registry; it is
  interpreted on every service. Shown: every call fits the
  declarations and only a negative \<open>Add\<close> panics, which counter an order's answer moves, and how many series a
  client can make.
\<close>

section \<open>Declarations\<close>

datatype metric_kind = Counter | Histogram

record metric =
  mt_Name :: string
  mt_Labels :: "string list"
  mt_Kind :: metric_kind

definition NewCounter :: "string \<Rightarrow> metric" where
  "NewCounter n = \<lparr>mt_Name = n, mt_Labels = [], mt_Kind = Counter\<rparr>"

definition NewCounterVec :: "string \<Rightarrow> string list \<Rightarrow> metric" where
  "NewCounterVec n labels = \<lparr>mt_Name = n, mt_Labels = labels, mt_Kind = Counter\<rparr>"

definition NewHistogramVec :: "string \<Rightarrow> string list \<Rightarrow> metric" where
  "NewHistogramVec n labels = \<lparr>mt_Name = n, mt_Labels = labels, mt_Kind = Histogram\<rparr>"

definition http_metrics :: "metric list" where
  "http_metrics =
     [NewCounterVec ''http_requests_total'' [''method'', ''path'', ''status''],
      NewHistogramVec ''http_request_duration_seconds'' [''method'', ''path'', ''status'']]"

definition grpc_client_metrics :: "metric list" where
  "grpc_client_metrics =
     [NewCounterVec ''grpc_client_requests_total'' [''method'', ''code''],
      NewHistogramVec ''grpc_client_request_duration_seconds'' [''method'', ''code''],
      NewCounterVec ''grpc_client_retries_total'' [''method'']]"

definition grpc_server_metrics :: "metric list" where
  "grpc_server_metrics =
     [NewCounterVec ''grpc_server_requests_total'' [''method'', ''code''],
      NewHistogramVec ''grpc_server_request_duration_seconds'' [''method'', ''code'']]"

definition order_metrics :: "metric list" where
  "order_metrics = [NewCounter ''orders_created_total'', NewCounterVec ''stock_reservation_failures_total'' [''reason'']]"

definition restock_metrics :: "metric list" where
  "restock_metrics = [NewCounter ''items_restocked_total'']"

definition cache_metrics :: "metric list" where
  "cache_metrics = [NewCounterVec ''inventory_item_cache_result_total'' [''result'']]"

definition stats_metrics :: "metric list" where
  "stats_metrics = [NewCounter ''analytics_orders_recorded_total'', NewCounter ''analytics_quantity_reserved_total'']"

definition notification_metrics :: "metric list" where
  "notification_metrics = [NewCounter ''notifications_sent_total'']"

lemmas metric_defs = NewCounter_def NewCounterVec_def NewHistogramVec_def http_metrics_def grpc_client_metrics_def
  grpc_server_metrics_def order_metrics_def restock_metrics_def cache_metrics_def stats_metrics_def notification_metrics_def

text \<open>What the packages a process links register when it starts.\<close>

definition order_registry :: "metric list" where
  "order_registry = http_metrics @ grpc_client_metrics @ order_metrics"

definition inventory_registry :: "metric list" where
  "inventory_registry = http_metrics @ grpc_server_metrics @ restock_metrics @ cache_metrics"

definition analytics_registry :: "metric list" where
  "analytics_registry = http_metrics @ stats_metrics"

definition notification_registry :: "metric list" where
  "notification_registry = http_metrics @ notification_metrics"

definition gateway_registry :: "metric list" where
  "gateway_registry = http_metrics"

lemmas registry_defs = order_registry_def inventory_registry_def analytics_registry_def notification_registry_def gateway_registry_def

text \<open>What the library asks of the metrics of one process, and of a call on them.\<close>

definition registrable :: "metric list \<Rightarrow> bool" where
  "registrable reg \<longleftrightarrow> distinct (map mt_Name reg) \<and> list_all (\<lambda>m. distinct (mt_Labels m)) reg"

definition has_metric :: "metric list \<Rightarrow> metric_kind \<Rightarrow> string \<Rightarrow> string list \<Rightarrow> bool" where
  "has_metric reg k n vs \<longleftrightarrow> list_ex (\<lambda>m. mt_Name m = n \<and> mt_Kind m = k \<and> length (mt_Labels m) = length vs) reg"

fun declared :: "metric list \<Rightarrow> effect \<Rightarrow> bool" where
  "declared reg (Counter_Inc n vs) = has_metric reg Counter n vs"
| "declared reg (Counter_Add n vs v) = (has_metric reg Counter n vs \<and> 0 \<le> v)"
| "declared reg (Observe n vs) = has_metric reg Histogram n vs"
| "declared reg _ = True"

lemma has_metric_append [simp]: "has_metric (reg @ reg') k n vs = (has_metric reg k n vs \<or> has_metric reg' k n vs)"
  by (simp add: has_metric_def)

lemma declared_http [simp]:
  "has_metric http_metrics Counter ''http_requests_total'' [a, b, c]"
  "has_metric http_metrics Histogram ''http_request_duration_seconds'' [a, b, c]"
  by (simp_all add: has_metric_def metric_defs)

lemma declared_log_failure [simp]: "list_all (declared reg) (log_failure m k v e)"
  by (simp add: log_failure_def)

section \<open>Routes that keep to a registry\<close>

text \<open>What an endpoint emits.\<close>

abbreviation emits :: "'a \<times> effect list \<times> 's \<Rightarrow> effect list" where
  "emits a \<equiv> fst (snd a)"

definition keeps_to :: "metric list \<Rightarrow> 's route list \<Rightarrow> bool" where
  "keeps_to reg rts \<longleftrightarrow> (\<forall>rt \<in> set rts. \<forall>r s. list_all (declared reg) (emits (rt_Handler rt r s)))"

lemma keeps_to_simps [simp]:
  "keeps_to reg []" "keeps_to reg (rts @ rts') = (keeps_to reg rts \<and> keeps_to reg rts')"
  "keeps_to reg (rt # rts) = ((\<forall>r s. list_all (declared reg) (emits (rt_Handler rt r s))) \<and> keeps_to reg rts)"
  by (auto simp: keeps_to_def)

lemma mux_keeps: "keeps_to reg rts \<Longrightarrow> list_all (declared reg) (fst (snd (snd (ServeMux rts r s))))"
proof (cases "find_route rts (req_Method r) (path_segs (req_Path r))")
  case (Some rt)
  then show "keeps_to reg rts \<Longrightarrow> ?thesis" using find_route_mem [OF Some]
    by (auto simp: ServeMux_def Let_def keeps_to_def split: prod.splits)
qed (simp add: ServeMux_def Let_def)

lemma keeps_to_mono:
  "keeps_to reg rts \<Longrightarrow> (\<And>x. declared reg x \<Longrightarrow> declared reg' x) \<Longrightarrow> keeps_to reg' rts"
  by (simp add: keeps_to_def list_all_iff)

locale metered =
  fixes reg :: "metric list" and rts :: "'s route list"
  assumes http_declared: "has_metric reg Counter ''http_requests_total'' [a, b, c]"
      "has_metric reg Histogram ''http_request_duration_seconds'' [a, b, c]"
    and handlers: "keeps_to reg rts"
begin

lemma chain_declared: "list_all (declared reg) (fst (snd (snd (handler_chain env rts r s))))"
proof -
  obtain r' calls effs s' where m: "ServeMux rts r s = (r', calls, effs, s')" by (rule prod_cases4)
  with mux_keeps [OF handlers, of r s] http_declared show ?thesis by (simp add: handler_chain_eq Let_def)
qed

text \<open>The path label is one of finitely many, whatever paths clients ask for.\<close>

lemma path_labels:
  assumes "handler_chain env rts r s = (r', calls, effs, s')"
  shows "path_label r' \<in> insert ''unmatched'' (rt_Text ` set rts)"
proof -
  obtain r1 c1 e1 s1 where m: "ServeMux rts r s = (r1, c1, e1, s1)" by (rule prod_cases4)
  with assms have "r' = r1" by (simp add: handler_chain_eq Let_def)
  with ServeMux_pattern [of rts r s] m show ?thesis by (auto simp: path_label_def)
qed

end

section \<open>The handlers of order-service\<close>

lemma Do_loop_keeps:
  assumes "Do_loop env cfg onRetry isRetryable fn a err s = (r, ws, effs, s')"
    and "\<And>s. P s \<Longrightarrow> P (snd (fn s))" and "\<And>n d e. list_all Q (hook onRetry n d e)" and "P s"
  shows "P s' \<and> list_all Q effs"
  using assms(1,4)
proof (induction "nat (MaxAttempts cfg - int a)" arbitrary: a err s r ws effs rule: less_induct)
  case less
  obtain res s1 where fn: "fn s = (res, s1)" by force
  with assms(2) less.prems(2) have P: "P s1" by fastforce
  show ?case
  proof (cases "res = None \<or> (\<exists>e. res = Some e \<and> (\<not> isRetryable e \<or> int a = MaxAttempts cfg - 1)) \<or> MaxAttempts cfg \<le> int a")
    case True
    with less.prems fn P show ?thesis by (auto simp: Do_loop.simps [of _ _ _ _ _ a] split: if_splits)
  next
    case False
    then obtain e where e: "res = Some e" "isRetryable e" and a: "int a < MaxAttempts cfg - 1" by (cases res) auto
    show ?thesis
    proof (cases "\<exists>d. backoffDelay cfg a (env_draw env a) = Some d \<and> env_ctx_done env a = None")
      case True
      then obtain d where d: "backoffDelay cfg a (env_draw env a) = Some d" "env_ctx_done env a = None" by blast
      obtain r' ws' effs' s2 where rest: "Do_loop env cfg onRetry isRetryable fn (a + 1) (Some e) s1 = (r', ws', effs', s2)"
        by (rule prod_cases4)
      with less.prems(1) fn e a d have "s2 = s'" "effs = hook onRetry (int a + 1) d e @ effs'"
        by (auto simp: Do_loop.simps [of _ _ _ _ _ a] Let_def hook_def)
      with less.hyps [OF _ rest [unfolded \<open>s2 = s'\<close>] P] a assms(3) show ?thesis by simp
    next
      case False
      with less.prems(1) fn e a have "s' = s1" "effs = [] \<or> (\<exists>d. effs = hook onRetry (int a + 1) d e)"
        by (auto simp: Do_loop.simps [of _ _ _ _ _ a] Let_def hook_def split: option.splits)
      with P assms(3) show ?thesis by auto
    qed
  qed
qed

lemma Reserve_emits:
  assumes "Client_Reserve server env sku q n = (res, effs, n')"
  shows "list_all (declared grpc_client_metrics) effs"
proof -
  let ?P = "\<lambda>(n, resp, effs). list_all (declared grpc_client_metrics) effs"
  obtain r ws retries n1 resp calls where D: "Do env reserveRetryConfig (Some reserve_OnRetry) isRetryableStatus
      (reserve_call server sku q) (n, None, []) = (r, ws, retries, n1, resp, calls)" by (metis prod_cases6)
  have "?P (snd (reserve_call server sku q st))" if "?P st" for st
    using that
    by (cases st) (auto simp: reserve_call_def UnaryClientInterceptor_def Let_def has_metric_def metric_defs
        split: prod.splits sum.splits)
  moreover have "list_all (declared grpc_client_metrics) (hook (Some reserve_OnRetry) k d e)" for k d e
    by (simp add: hook_def reserve_OnRetry_def RecordGRPCClientRetry_def has_metric_def metric_defs)
  moreover have "?P (n, None, [])" by simp
  ultimately have "?P (n1, resp, calls) \<and> list_all (declared grpc_client_metrics) retries"
    by (rule Do_loop_keeps [OF D [unfolded Do_def]])
  with assms D show ?thesis by (auto simp: Client_Reserve_def)
qed

text \<open>Requests and retries of one call are counted under two spellings of its method.\<close>

lemma retries_under_another_label:
  "reserveStockMethod \<noteq> ReserveStock_FullMethodName"
  by (simp add: reserveStockMethod_def ReserveStock_FullMethodName_def)

text \<open>What the handlers of orders themselves count, beside the middleware's two metrics.\<close>

definition own_metrics :: "metric list" where
  "own_metrics = grpc_client_metrics @ order_metrics"

lemma declared_own: "declared grpc_client_metrics x \<Longrightarrow> declared own_metrics x"
  by (cases x) (auto simp: own_metrics_def)

lemma declared_order: "declared own_metrics x \<Longrightarrow> declared order_registry x"
  by (cases x) (auto simp: order_registry_def own_metrics_def)

lemma createOrder_emits:
  "list_all (declared own_metrics) (emits (createOrder (Client_Reserve server) storeOrder otel env r w))"
proof -
  have R: "list_all (declared own_metrics) effs" if "Client_Reserve server renv sku q n = (res, effs, n')" for renv sku q n res effs n'
    using Reserve_emits [OF that] by (auto simp: list_all_iff declared_own)
  have "has_metric own_metrics Counter ''orders_created_total'' []"
    "has_metric own_metrics Counter ''stock_reservation_failures_total'' [x]" for x
    by (simp_all add: own_metrics_def has_metric_def metric_defs)
  then show ?thesis
    by (cases w) (auto simp: createOrder_def reservation_failed_def Let_def split: sum.splits option.splits prod.splits dest: R)
qed

lemma service_routes_keep [simp]: "keeps_to reg (service_routes ping (static page))"
  by (auto simp: service_routes_def HealthHandler_def static_def split: prod.splits option.splits)

lemma order_Register_own: "keeps_to own_metrics (order_Register (Client_Reserve server) storeOrder getOrder otel env)"
  by (auto simp: order_Register_def createOrder_emits order_getOrder_def Let_def split: sum.splits prod.splits)

lemma order_Register_keeps: "keeps_to order_registry (order_Register (Client_Reserve server) storeOrder getOrder otel env)"
  by (rule keeps_to_mono [OF order_Register_own declared_order])

interpretation order_meter: metered order_registry
  "order_Register (Client_Reserve server) storeOrder getOrder otel oenv @ service_routes ping (static page)"
  for server storeOrder getOrder otel oenv ping page
  by unfold_locales (simp_all add: order_registry_def order_Register_keeps [unfolded order_registry_def])

section \<open>The handlers of inventory-service\<close>

lemma inventory_Register_keeps: "keeps_to inventory_registry (inventory_Register getItem restockItem)"
  by (auto simp: inventory_Register_def inventory_getItem_def inventory_restockItem_def Let_def has_metric_def
      inventory_registry_def metric_defs split: sum.splits prod.splits)

interpretation inventory_meter: metered inventory_registry
  "inventory_Register getItem restockItem @ service_routes ping (static page)" for getItem restockItem ping page
  by unfold_locales (simp_all add: inventory_registry_def inventory_Register_keeps [unfolded inventory_registry_def])

lemma inventory_grpc_emits: "list_all (declared inventory_registry) (emits (inventory_grpc reserveStock dec s))"
  by (auto simp: inventory_grpc_def ReserveStock_Handler_def UnaryServerInterceptor_def grpc_ReserveStock_def Let_def
      has_metric_def inventory_registry_def metric_defs split: sum.splits prod.splits)

text \<open>The cache counts hits and misses.\<close>

lemma caching_keeps:
  assumes "list_all (declared inventory_registry) (cs_effects c)"
  shows "list_all (declared inventory_registry) (cs_effects (snd (caching_GetItem redis getItem sku c)))"
    and "list_all (declared inventory_registry) (cs_effects (snd (caching_ReserveStock redis reserveStock sku q c)))"
    and "list_all (declared inventory_registry) (cs_effects (snd (caching_RestockItem redis restockItem sku q c)))"
  using assms
  by (auto simp: caching_GetItem_def caching_ReserveStock_def caching_RestockItem_def cacheResult_def cache_set_def Let_def
      has_metric_def inventory_registry_def metric_defs split: sum.splits prod.splits)

section \<open>The consumers and the gateway\<close>

interpretation analytics_meter: metered analytics_registry "analytics_routes connected (static page)" for connected page
  by unfold_locales (auto simp: analytics_registry_def analytics_routes_def nats_HealthHandler_def StatsHandler_def static_def)

lemma notification_routes_keep:
  "keeps_to notification_registry
     [\<lparr>rt_Text = ''GET /healthz'', rt_Method = Some ''GET'', rt_Segs = [Lit ''healthz''],
       rt_Handler = nats_HealthHandler connected\<rparr>,
      \<lparr>rt_Text = ''GET /metrics'', rt_Method = Some ''GET'', rt_Segs = [Lit ''metrics''], rt_Handler = static page\<rparr>]"
  by (simp add: nats_HealthHandler_def static_def)

interpretation notification_meter: metered notification_registry
  "[\<lparr>rt_Text = ''GET /healthz'', rt_Method = Some ''GET'', rt_Segs = [Lit ''healthz''],
      rt_Handler = nats_HealthHandler connected\<rparr>,
    \<lparr>rt_Text = ''GET /metrics'', rt_Method = Some ''GET'', rt_Segs = [Lit ''metrics''], rt_Handler = static page\<rparr>]"
  for connected page
  using notification_routes_keep by unfold_locales (simp_all add: notification_registry_def)

lemma ReverseProxy_emits: "list_all (declared reg) (emits (ReverseProxy dial u (proxy_ErrorHandler target) r g))"
  by (auto simp: ReverseProxy_def proxy_ErrorHandler_def Let_def split: option.splits prod.splits io.splits)

interpretation gateway_meter: metered gateway_registry
  "gateway_routes (ReverseProxy dial u1 (proxy_ErrorHandler t1)) (ReverseProxy dial u2 (proxy_ErrorHandler t2))
     (ReverseProxy dial u3 (proxy_ErrorHandler t3)) (static page) (static files)" for dial u1 u2 u3 t1 t2 t3 page files
  by unfold_locales (simp_all add: gateway_registry_def gateway_routes_def gateway_HealthHandler_def static_def ReverseProxy_emits)

text \<open>A message's callback, over any handler that keeps to the registry.\<close>

lemma deliveries_emit:
  assumes "\<And>ctx evt s. list_all (declared reg) (emits (handle ctx evt s))"
  shows "list_all (declared reg) (fst (run_deliveries otel ctx handle msgs ds c))"
proof (induction ds arbitrary: c)
  case (Cons d ds)
  have on: "list_all (declared reg) (emits (on_message otel ctx handle m s))" for m s
    using assms by (auto simp: on_message_def Let_def split: sum.splits option.splits prod.splits) (metis fst_conv snd_conv)+
  have "list_all (declared reg) (fst (deliver otel ctx handle msgs d c))"
    using on [of "msgs ! fst d" "cn_app c"]
    by (auto simp: deliver_def Let_def split: prod.splits option.splits reply.splits)
  with Cons show ?case by (auto split: prod.splits) (metis fst_conv)
qed simp

lemma consumers_emit:
  "list_all (declared analytics_registry) (emits (analytics_handleOrderCreated otel ctx evt s))"
  "list_all (declared notification_registry) (emits (notification_handleOrderCreated otel ctx evt u))"
  by (auto simp: analytics_handleOrderCreated_def Stats_Record_def prom_Add_def notification_handleOrderCreated_def Let_def
      has_metric_def analytics_registry_def notification_registry_def metric_defs)

section \<open>Properties\<close>

text \<open>
  C39. In each of the five processes no two metrics share a name and no metric has a label twice, so none
  panics when it registers; and whatever requests, gRPC calls and messages come and whatever fails, every
  counter and histogram that a handler, an interceptor, the cache or a middleware moves is declared in its
  process, as that kind, with as many labels as it is given values. One metric call can panic, and it moves
  nothing: the \<open>Add\<close> of a quantity below zero. The analytics handler panics for exactly those events, the
  notification handler for none.
\<close>

theorem metric_calls_fit_declarations:
  "list_all registrable [order_registry, inventory_registry, analytics_registry, notification_registry, gateway_registry] \<and>
   list_all (declared order_registry)
     (emits (snd (order_http (Client_Reserve server) storeOrder getOrder otel ping (static page) oenv env r w))) \<and>
   list_all (declared inventory_registry) (emits (snd (inventory_http getItem restockItem ping' (static page) env r s))) \<and>
   list_all (declared inventory_registry) (emits (inventory_grpc reserveStock dec s)) \<and>
   list_all (declared inventory_registry) (cs_effects (snd (caching_GetItem redis getRow sku (c\<lparr>cs_effects := []\<rparr>)))) \<and>
   list_all (declared inventory_registry) (cs_effects (snd (caching_ReserveStock redis reserveRow sku q (c\<lparr>cs_effects := []\<rparr>)))) \<and>
   list_all (declared inventory_registry) (cs_effects (snd (caching_RestockItem redis restockRow sku q (c\<lparr>cs_effects := []\<rparr>)))) \<and>
   list_all (declared analytics_registry) (emits (snd (analytics_http connected (static page) env r stats))) \<and>
   list_all (declared analytics_registry)
     (fst (run_deliveries otel ctx (analytics_handleOrderCreated otel) msgs ds (cn :: stats consumer))) \<and>
   list_all (declared notification_registry) (emits (snd (notification_http connected' (static page) env r ()))) \<and>
   list_all (declared notification_registry)
     (fst (run_deliveries otel ctx (notification_handleOrderCreated otel) msgs ds (cn' :: unit consumer))) \<and>
   list_all (declared gateway_registry)
     (emits (snd (gateway_http (ReverseProxy dial u1 (proxy_ErrorHandler t1)) (ReverseProxy dial u2 (proxy_ErrorHandler t2))
        (ReverseProxy dial u3 (proxy_ErrorHandler t3)) (static page) (static files) env r g))) \<and>
   (fst (analytics_handleOrderCreated otel ctx evt stats) = None \<longleftrightarrow> oc_Quantity evt < 0) \<and>
   fst (notification_handleOrderCreated otel ctx evt ()) \<noteq> None"
proof (intro conjI)
  show "list_all registrable [order_registry, inventory_registry, analytics_registry, notification_registry, gateway_registry]"
    by (simp add: registrable_def registry_defs metric_defs)
  show "list_all (declared inventory_registry) (cs_effects (snd (caching_GetItem redis getRow sku (c\<lparr>cs_effects := []\<rparr>))))"
    "list_all (declared inventory_registry) (cs_effects (snd (caching_ReserveStock redis reserveRow sku q (c\<lparr>cs_effects := []\<rparr>))))"
    "list_all (declared inventory_registry) (cs_effects (snd (caching_RestockItem redis restockRow sku q (c\<lparr>cs_effects := []\<rparr>))))"
    by (rule caching_keeps; simp)+
  show "fst (analytics_handleOrderCreated otel ctx evt stats) = None \<longleftrightarrow> oc_Quantity evt < 0"
    "fst (notification_handleOrderCreated otel ctx evt ()) \<noteq> None"
    by (simp_all add: analytics_handleOrderCreated_def notification_handleOrderCreated_def Stats_Record_def prom_Add_def Let_def)
qed (simp_all only: order_http_def inventory_http_def analytics_http_def notification_http_def gateway_http_def
    order_meter.chain_declared inventory_meter.chain_declared analytics_meter.chain_declared
    notification_meter.chain_declared gateway_meter.chain_declared inventory_grpc_emits deliveries_emit consumers_emit)

text \<open>
  C13. The counters of order-service tell what was answered: \<open>orders_created_total\<close> moves by one with each
  201 and with nothing else, \<open>stock_reservation_failures_total\<close> by one with each 404, 409 and 502 of
  \<open>POST /orders\<close>, under the reason of that answer.
\<close>

theorem order_counters_agree:
  "let (calls, effs, w') = createOrder (Client_Reserve server) storeOrder otel env r w in
   count_list effs (Counter_Inc ''orders_created_total'' []) = (if sent_status calls = 201 then 1 else 0) \<and>
   count_list effs (reservation_failed ''not_found'') = (if sent_status calls = 404 then 1 else 0) \<and>
   count_list effs (reservation_failed ''insufficient_stock'') = (if sent_status calls = 409 then 1 else 0) \<and>
   count_list effs (reservation_failed ''unavailable'') = (if sent_status calls = 502 then 1 else 0)"
proof -
  have none: "count_list effs (Counter_Inc n vs) = 0"
    if "list_all (declared grpc_client_metrics) effs" and "n \<in> mt_Name ` set order_metrics" for effs n vs
  proof -
    have "\<not> declared grpc_client_metrics (Counter_Inc n vs)"
      using that(2) by (auto simp: has_metric_def metric_defs)
    with that(1) show ?thesis by (auto simp: count_list_0_iff list_all_iff)
  qed
  have R: "count_list effs (Counter_Inc n vs) = 0"
    if "Client_Reserve server renv sku q iv = (res, effs, iv')" and "n \<in> mt_Name ` set order_metrics"
    for renv sku q iv res effs iv' n vs
    using none [OF Reserve_emits [OF that(1)] that(2)] .
  have "''orders_created_total'' \<in> mt_Name ` set order_metrics" "''stock_reservation_failures_total'' \<in> mt_Name ` set order_metrics"
    by (simp_all add: metric_defs)
  then show ?thesis
    by (cases w) (auto simp: createOrder_def reservation_failed_def log_failure_def Let_def R
        split: sum.splits option.splits prod.splits)
qed

section \<open>Series\<close>

text \<open>
  The series a process holds after the effects so far: a name with its label values, of each counter
  touched and each histogram observed. The code deletes none.
\<close>

fun series_of :: "effect \<Rightarrow> (string \<times> string list) set" where
  "series_of (Counter_Inc n vs) = {(n, vs)}"
| "series_of (Counter_Add n vs v) = {(n, vs)}"
| "series_of (Observe n vs) = {(n, vs)}"
| "series_of _ = {}"

definition series :: "effect list \<Rightarrow> (string \<times> string list) set" where
  "series effs = (\<Union>x \<in> set effs. series_of x)"

lemma series_simps [simp]: "series [] = {}" "series (x # xs) = series_of x \<union> series xs" "series (xs @ ys) = series xs \<union> series ys"
  by (auto simp: series_def)

text \<open>Requests served one after the other.\<close>

fun serve_all :: "'s server \<Rightarrow> request list \<Rightarrow> 's \<Rightarrow> effect list \<times> 's" where
  "serve_all server [] s = ([], s)"
| "serve_all server (r # rs) s =
     (let (r', calls, effs, s') = server r s; (effs', s'') = serve_all server rs s' in (effs @ effs', s''))"

text \<open>Those of the middleware's two metrics.\<close>

definition http_series :: "effect list \<Rightarrow> (string \<times> string list) set" where
  "http_series effs = {x \<in> series effs. fst x \<in> {''http_requests_total'', ''http_request_duration_seconds''}}"

lemma http_series_append [simp]: "http_series (xs @ ys) = http_series xs \<union> http_series ys"
  by (auto simp: http_series_def)

lemma own_not_http: "declared own_metrics x \<Longrightarrow> y \<in> series_of x \<Longrightarrow> fst y \<notin> {''http_requests_total'', ''http_request_duration_seconds''}"
  by (cases x) (auto simp: own_metrics_def has_metric_def metric_defs)

lemma http_series_own: "list_all (declared own_metrics) effs \<Longrightarrow> http_series effs = {}"
  unfolding http_series_def series_def list_all_iff using own_not_http by blast

text \<open>Behind the middleware, over routes that leave its two metrics alone, a request touches one series of each.\<close>

lemma chain_series:
  assumes "keeps_to own_metrics rts" and "handler_chain env rts r s = (r', calls, effs, s')"
  shows "http_series effs = {''http_requests_total'', ''http_request_duration_seconds''} \<times>
    {[req_Method r, path_label r', Itoa (rec_status (record_calls calls))]}"
proof -
  obtain r1 c1 e1 s1 where m: "ServeMux rts r s = (r1, c1, e1, s1)" by (rule prod_cases4)
  from http_series_own [OF mux_keeps [OF assms(1), of r s]] m have "http_series e1 = {}" by simp
  moreover have "req_Method r1 = req_Method r"
    using m by (auto simp: ServeMux_def Let_def split: option.splits prod.splits if_splits)
  moreover have "http_series [Counter_Inc ''http_requests_total'' ls, Observe ''http_request_duration_seconds'' ls, Log_Info t kv] =
      {''http_requests_total'', ''http_request_duration_seconds''} \<times> {ls}" for ls t kv
    by (auto simp: http_series_def)
  ultimately show ?thesis using assms(2) m by (auto simp: handler_chain_eq Let_def)
qed

text \<open>A request that no route matches changes nothing and is counted under its own method.\<close>

lemma recorded_error: "200 \<le> n \<Longrightarrow> rec_status (record_calls (http_Error t n)) = n"
  "200 \<le> n \<Longrightarrow> rec_status (record_calls (SetHeader k v # http_Error t n)) = n"
  by (subst recorder_sees_sent_status; simp add: http_Error_def)+

lemma chain_unmatched:
  assumes "find_route rts (req_Method r) (path_segs (req_Path r)) = None"
    and "n = (if allowed_methods rts (path_segs (req_Path r)) \<noteq> [] then 405 else 404)"
  shows "\<exists>r' calls effs. handler_chain env rts r s = (r', calls, effs, s) \<and>
    series effs = {''http_requests_total'', ''http_request_duration_seconds''} \<times> {[req_Method r, ''unmatched'', Itoa n]}"
proof -
  obtain r1 c1 where m: "ServeMux rts r s = (r1, c1, [], s)" "req_Method r1 = req_Method r" "req_Pattern r1 = []"
    "rec_status (record_calls c1) = n"
    using assms by (cases "allowed_methods rts (path_segs (req_Path r)) = []") (simp_all add: ServeMux_def Let_def recorded_error)
  have "series [Counter_Inc ''http_requests_total'' ls, Observe ''http_request_duration_seconds'' ls, Log_Info t kv] =
      {''http_requests_total'', ''http_request_duration_seconds''} \<times> {ls}" for ls t kv by auto
  with m show ?thesis by (simp add: handler_chain_eq path_label_def Let_def del: series_simps(2))
qed

lemma serve_all_series:
  assumes "\<And>m. \<exists>r' calls effs. server (req m) w = (r', calls, effs, w) \<and> series effs = N \<times> {f m}"
  shows "snd (serve_all server (map req ms) w) = w \<and> series (fst (serve_all server (map req ms) w)) = N \<times> f ` set ms"
proof (induction ms)
  case (Cons m ms)
  obtain effs2 where rest: "serve_all server (map req ms) w = (effs2, w)" "series effs2 = N \<times> f ` set ms"
    using Cons by (metis prod.collapse)
  from assms [of m] obtain r' calls effs where "server (req m) w = (r', calls, effs, w)" "series effs = N \<times> {f m}" by blast
  with rest have "serve_all server (map req (m # ms)) w = (effs @ effs2, w)" by simp
  then show ?case using rest(2) \<open>series effs = _\<close> by auto
qed simp

text \<open>
  C40. The series of order-service's HTTP metrics. A request moves exactly one series of the counter and one
  of the histogram, both under its method, the path label and the status it was answered with, and the path label
  is one of five, whatever path is asked for. But the method label is the client's own text: for any list
  of distinct made-up methods (here ones that begin with an X), the requests change nothing and each leaves
  a series of its own in the counter and in the histogram, so their number is the client's choice.
\<close>

theorem series_of_order_service:
  "(let (r', calls, effs, w') = order_http (Client_Reserve server) storeOrder getOrder otel ping (static page) oenv env r w
    in http_series effs = {''http_requests_total'', ''http_request_duration_seconds''} \<times>
         {[req_Method r, path_label r', Itoa (rec_status (record_calls calls))]} \<and>
       path_label r' \<in> {''POST /orders'', ''GET /orders/{id}'', ''GET /healthz'', ''GET /metrics'', ''unmatched''}) \<and>
   (let (effs, w') = serve_all (order_http (Client_Reserve server) storeOrder getOrder otel ping (static page) oenv env)
           (map (\<lambda>m. r\<lparr>req_Method := CHR ''X'' # m\<rparr>) ms) w
    in w' = w \<and> (distinct ms \<longrightarrow>
       card {vs. (''http_requests_total'', vs) \<in> series effs} = length ms \<and>
       card {vs. (''http_request_duration_seconds'', vs) \<in> series effs} = length ms))"
proof (intro conjI)
  let ?rts = "order_Register (Client_Reserve server) storeOrder getOrder otel oenv @ service_routes ping (static page)"
  have own: "keeps_to own_metrics ?rts" by (simp add: order_Register_own)
  obtain r' calls effs w' where h: "handler_chain env ?rts r w = (r', calls, effs, w')" by (rule prod_cases4)
  have "path_label r' \<in> {''POST /orders'', ''GET /orders/{id}'', ''GET /healthz'', ''GET /metrics'', ''unmatched''}"
    using order_meter.path_labels [OF h] by (auto simp: order_Register_def service_routes_def)
  with chain_series [OF own h] h show "let (r', calls, effs, w') = order_http (Client_Reserve server) storeOrder getOrder otel
        ping (static page) oenv env r w
    in http_series effs = {''http_requests_total'', ''http_request_duration_seconds''} \<times>
         {[req_Method r, path_label r', Itoa (rec_status (record_calls calls))]} \<and>
       path_label r' \<in> {''POST /orders'', ''GET /orders/{id}'', ''GET /healthz'', ''GET /metrics'', ''unmatched''}"
    by (simp only: order_http_def Let_def prod.case)
next
  let ?server = "order_http (Client_Reserve server) storeOrder getOrder otel ping (static page) oenv env"
  let ?rts = "order_Register (Client_Reserve server) storeOrder getOrder otel oenv @ service_routes ping (static page)"
  let ?req = "\<lambda>m. r\<lparr>req_Method := CHR ''X'' # m\<rparr>"
  have none: "find_route ?rts (CHR ''X'' # m) segs = None" for m segs
    by (simp add: find_route_def route_matches_def order_Register_def service_routes_def)
  define n :: int where "n = (if allowed_methods ?rts (path_segs (req_Path r)) \<noteq> [] then 405 else 404)"
  define st where "st = Itoa n"
  have one: "\<exists>r' calls effs. ?server (?req m) w = (r', calls, effs, w) \<and>
      series effs = {''http_requests_total'', ''http_request_duration_seconds''} \<times> {[CHR ''X'' # m, ''unmatched'', st]}" for m
  proof -
    have req: "req_Method (?req m) = CHR ''X'' # m" "req_Path (?req m) = req_Path r" by simp_all
    from chain_unmatched [of ?rts "?req m" n env w, unfolded req, OF none n_def] show ?thesis
      unfolding order_http_def st_def .
  qed
  have all: "snd (serve_all ?server (map ?req ms) w) = w \<and> series (fst (serve_all ?server (map ?req ms) w)) =
      {''http_requests_total'', ''http_request_duration_seconds''} \<times> (\<lambda>m. [CHR ''X'' # m, ''unmatched'', st]) ` set ms"
    by (rule serve_all_series) (rule one)
  have "card ((\<lambda>m. [CHR ''X'' # m, ''unmatched'', st]) ` set ms) = length ms" if "distinct ms"
    using that by (simp add: card_image inj_on_def distinct_card)
  moreover have "{vs. (''http_requests_total'', vs) \<in> series (fst (serve_all ?server (map ?req ms) w))} =
      (\<lambda>m. [CHR ''X'' # m, ''unmatched'', st]) ` set ms"
    "{vs. (''http_request_duration_seconds'', vs) \<in> series (fst (serve_all ?server (map ?req ms) w))} =
      (\<lambda>m. [CHR ''X'' # m, ''unmatched'', st]) ` set ms"
    unfolding conjunct2 [OF all] by auto
  ultimately show "let (effs, w') = serve_all ?server (map ?req ms) w
    in w' = w \<and> (distinct ms \<longrightarrow>
       card {vs. (''http_requests_total'', vs) \<in> series effs} = length ms \<and>
       card {vs. (''http_request_duration_seconds'', vs) \<in> series effs} = length ms)"
    using conjunct1 [OF all] by (simp only: case_prod_beta Let_def) blast
qed

text \<open>Three made-up methods leave three series.\<close>

theorem series_of_order_service_witness:
  "card {vs. (''http_requests_total'', vs) \<in> series (fst (serve_all (order_http (Client_Reserve (\<lambda>d n. (Inl Order_ErrNotFound, [], n)))
      (\<lambda>ord e d. (None, d)) (\<lambda>i d. (Inl Order_ErrNotFound, d)) plain_otel (\<lambda>w. (None, w)) (static (\<lambda>r. [])) sample_order_env
      \<lparr>env_ms = 1, env_trace = None\<rparr>)
      (map (\<lambda>m. sample_post\<lparr>req_Method := CHR ''X'' # m\<rparr>) [''A'', ''B'', ''C'']) (\<lparr>peer = (), net = []\<rparr>, ())))} = 3"
  using series_of_order_service [where ms = "[''A'', ''B'', ''C'']" and r = sample_post and w = "(\<lparr>peer = (), net = []\<rparr>, ())"
      and server = "\<lambda>d n. (Inl Order_ErrNotFound, [], n)" and storeOrder = "\<lambda>ord e d. (None, d)"
      and getOrder = "\<lambda>i d. (Inl Order_ErrNotFound, d)" and otel = plain_otel and ping = "\<lambda>w. (None, w)" and page = "\<lambda>r. []"
      and oenv = sample_order_env and env = "\<lparr>env_ms = 1, env_trace = None\<rparr>", THEN conjunct2]
  by (simp add: case_prod_beta)

end
