(* ===== verification/Startup.thy ===== *)
theory Startup
  imports OrderEvents
begin

text \<open>
  How the five services start: their configuration (\<open>internal/config\<close>), and the constructors of what
  they hold open: the database pool (\<open>internal/db\<close>), the Redis client (\<open>internal/cache\<close>), the NATS
  connections (\<open>events\<close>), the tracer provider (\<open>internal/tracing\<close>), the TLS configurations
  (\<open>internal/tlsconfig\<close>) and the gRPC connection. Each library call takes its outcome from a script.
\<close>

section \<open>Configuration\<close>

text \<open>\<open>os.Getenv\<close>: the empty string for a variable that is not set.\<close>

type_synonym environ = "string \<Rightarrow> string"

definition getEnv :: "environ \<Rightarrow> string \<Rightarrow> string \<Rightarrow> string" where
  "getEnv os_Getenv key fallback = (let v = os_Getenv key in if v \<noteq> [] then v else fallback)"

record order_config =
  ocf_Port :: string
  ocf_DatabaseURL :: string
  ocf_InventoryServiceGRPCAddr :: string
  ocf_NatsURL :: string
  ocf_OTLPEndpoint :: string
  ocf_TLSCertFile :: string
  ocf_TLSKeyFile :: string
  ocf_TLSCAFile :: string

abbreviation no_database_url :: go_error where
  "no_database_url \<equiv> Driver_Error ''DATABASE_URL is required''"

definition order_Load :: "environ \<Rightarrow> go_error + order_config" where
  "order_Load env =
     (let cfg = \<lparr>ocf_Port = getEnv env ''PORT'' ''8082'',
                 ocf_DatabaseURL = env ''DATABASE_URL'',
                 ocf_InventoryServiceGRPCAddr = getEnv env ''INVENTORY_SERVICE_GRPC_ADDR'' ''localhost:9081'',
                 ocf_NatsURL = getEnv env ''NATS_URL'' ''nats://localhost:4222'',
                 ocf_OTLPEndpoint = getEnv env ''OTEL_EXPORTER_OTLP_ENDPOINT'' ''localhost:4317'',
                 ocf_TLSCertFile = getEnv env ''TLS_CERT_FILE'' ''/certs/order-service.crt'',
                 ocf_TLSKeyFile = getEnv env ''TLS_KEY_FILE'' ''/certs/order-service.key'',
                 ocf_TLSCAFile = getEnv env ''TLS_CA_FILE'' ''/certs/ca.crt''\<rparr>
      in if ocf_DatabaseURL cfg = [] then Inl no_database_url else Inr cfg)"

record inventory_config =
  icf_Port :: string
  icf_GRPCPort :: string
  icf_DatabaseURL :: string
  icf_RedisAddr :: string
  icf_OTLPEndpoint :: string
  icf_TLSCertFile :: string
  icf_TLSKeyFile :: string
  icf_TLSCAFile :: string

definition inventory_Load :: "environ \<Rightarrow> go_error + inventory_config" where
  "inventory_Load env =
     (let cfg = \<lparr>icf_Port = getEnv env ''PORT'' ''8081'',
                 icf_GRPCPort = getEnv env ''GRPC_PORT'' ''9081'',
                 icf_DatabaseURL = env ''DATABASE_URL'',
                 icf_RedisAddr = getEnv env ''REDIS_ADDR'' ''localhost:6379'',
                 icf_OTLPEndpoint = getEnv env ''OTEL_EXPORTER_OTLP_ENDPOINT'' ''localhost:4317'',
                 icf_TLSCertFile = getEnv env ''TLS_CERT_FILE'' ''/certs/inventory-service.crt'',
                 icf_TLSKeyFile = getEnv env ''TLS_KEY_FILE'' ''/certs/inventory-service.key'',
                 icf_TLSCAFile = getEnv env ''TLS_CA_FILE'' ''/certs/ca.crt''\<rparr>
      in if icf_DatabaseURL cfg = [] then Inl no_database_url else Inr cfg)"

record gateway_config =
  gcf_Port :: string
  gcf_OrderServiceURL :: string
  gcf_InventoryServiceURL :: string
  gcf_AnalyticsServiceURL :: string
  gcf_OTLPEndpoint :: string

definition gateway_Load :: "environ \<Rightarrow> gateway_config" where
  "gateway_Load env =
     \<lparr>gcf_Port = getEnv env ''PORT'' ''8080'',
      gcf_OrderServiceURL = getEnv env ''ORDER_SERVICE_URL'' ''http://localhost:8082'',
      gcf_InventoryServiceURL = getEnv env ''INVENTORY_SERVICE_URL'' ''http://localhost:8081'',
      gcf_AnalyticsServiceURL = getEnv env ''ANALYTICS_SERVICE_URL'' ''http://localhost:8084'',
      gcf_OTLPEndpoint = getEnv env ''OTEL_EXPORTER_OTLP_ENDPOINT'' ''localhost:4317''\<rparr>"

record analytics_config =
  acf_Port :: string
  acf_NatsURL :: string
  acf_OTLPEndpoint :: string

definition analytics_Load :: "environ \<Rightarrow> analytics_config" where
  "analytics_Load env =
     \<lparr>acf_Port = getEnv env ''PORT'' ''8084'',
      acf_NatsURL = getEnv env ''NATS_URL'' ''nats://localhost:4222'',
      acf_OTLPEndpoint = getEnv env ''OTEL_EXPORTER_OTLP_ENDPOINT'' ''localhost:4317''\<rparr>"

record notification_config =
  ncf_Port :: string
  ncf_NatsURL :: string
  ncf_OTLPEndpoint :: string

definition notification_Load :: "environ \<Rightarrow> notification_config" where
  "notification_Load env =
     \<lparr>ncf_Port = getEnv env ''PORT'' ''8083'',
      ncf_NatsURL = getEnv env ''NATS_URL'' ''nats://localhost:4222'',
      ncf_OTLPEndpoint = getEnv env ''OTEL_EXPORTER_OTLP_ENDPOINT'' ''localhost:4317''\<rparr>"

section \<open>TLS\<close>

text \<open>
  Of the file system, what the code asks: a key pair, the content of a file, and the certificates in
  a PEM text. \<open>fmt_q\<close> is the \<open>%q\<close> verb.
\<close>

record files =
  fl_LoadX509KeyPair :: "string \<Rightarrow> string \<Rightarrow> go_error + string"
  fl_ReadFile :: "string \<Rightarrow> go_error + string"
  fl_PEM :: "string \<Rightarrow> string list"
  fl_q :: "string \<Rightarrow> string"

datatype client_auth = NoClientCert | RequireAndVerifyClientCert

record tls_config =
  tls_Certificates :: "string list"
  tls_ClientAuth :: client_auth
  tls_ClientCAs :: "string list"
  tls_RootCAs :: "string list"

definition loadCA :: "files \<Rightarrow> string \<Rightarrow> go_error + string list" where
  "loadCA fl caFile =
     (case fl_ReadFile fl caFile of
        Inl err \<Rightarrow> Inl (Wrapped ''read ca cert'' err)
      | Inr pem \<Rightarrow>
          (let pool = fl_PEM fl pem
           in if pool = []
              then Inl (Driver_Error (''parse ca cert '' @ fl_q fl caFile @ '': no valid certificates found''))
              else Inr pool))"

definition tls_Server :: "files \<Rightarrow> string \<Rightarrow> string \<Rightarrow> string \<Rightarrow> go_error + tls_config" where
  "tls_Server fl certFile keyFile caFile =
     (case fl_LoadX509KeyPair fl certFile keyFile of
        Inl err \<Rightarrow> Inl (Wrapped ''load server cert/key'' err)
      | Inr cert \<Rightarrow>
          (case loadCA fl caFile of
             Inl err \<Rightarrow> Inl err
           | Inr pool \<Rightarrow>
               Inr \<lparr>tls_Certificates = [cert], tls_ClientAuth = RequireAndVerifyClientCert,
                    tls_ClientCAs = pool, tls_RootCAs = []\<rparr>))"

definition tls_Client :: "files \<Rightarrow> string \<Rightarrow> string \<Rightarrow> string \<Rightarrow> go_error + tls_config" where
  "tls_Client fl certFile keyFile caFile =
     (case fl_LoadX509KeyPair fl certFile keyFile of
        Inl err \<Rightarrow> Inl (Wrapped ''load client cert/key'' err)
      | Inr cert \<Rightarrow>
          (case loadCA fl caFile of
             Inl err \<Rightarrow> Inl err
           | Inr pool \<Rightarrow>
               Inr \<lparr>tls_Certificates = [cert], tls_ClientAuth = NoClientCert,
                    tls_ClientCAs = [], tls_RootCAs = pool\<rparr>))"

section \<open>Resources\<close>

datatype handle = Signals | Tracing | Pool | Redis | Nats | Inventory_conn

text \<open>
  The resources of a process: the outcomes of the library calls to come, the calls made with their
  arguments, what is open, the files, the TLS configuration loaded (\<open>serverTLSConfig\<close>,
  \<open>clientTLSConfig\<close>), and the one handed to the gRPC server or connection as its credentials.
\<close>

record res =
  rs_outcomes :: "go_error option list"
  rs_calls :: "(string \<times> string list) list"
  rs_open :: "handle list"
  rs_files :: files
  rs_tls :: "tls_config option"
  rs_creds :: "tls_config option"

fun next_outcome :: "go_error option list \<Rightarrow> go_error option \<times> go_error option list" where
  "next_outcome [] = (None, [])"
| "next_outcome (x # xs) = (x, xs)"

definition lib_call :: "string \<Rightarrow> string list \<Rightarrow> res \<Rightarrow> go_error option \<times> res" where
  "lib_call f args r =
     (let (x, rest) = next_outcome (rs_outcomes r)
      in (x, r\<lparr>rs_outcomes := rest, rs_calls := rs_calls r @ [(f, args)]\<rparr>))"

definition open_handle :: "handle \<Rightarrow> res \<Rightarrow> res" where
  "open_handle h r = r\<lparr>rs_open := h # rs_open r\<rparr>"

definition close_handle :: "handle \<Rightarrow> res \<Rightarrow> res" where
  "close_handle h r = r\<lparr>rs_open := remove1 h (rs_open r)\<rparr>"

definition NewPool :: "string \<Rightarrow> res \<Rightarrow> go_error option \<times> res" where
  "NewPool databaseURL r =
     (case lib_call ''pgxpool.New'' [databaseURL] r of
        (Some err, r) \<Rightarrow> (Some (Wrapped ''create pool'' err), r)
      | (None, r) \<Rightarrow>
          (case lib_call ''pool.Ping'' [] (open_handle Pool r) of
             (Some err, r) \<Rightarrow> (Some (Wrapped ''ping database'' err), close_handle Pool r)
           | (None, r) \<Rightarrow> (None, r)))"

definition ApplySchema :: "string \<Rightarrow> res \<Rightarrow> go_error option \<times> res" where
  "ApplySchema schemaSQL r =
     (case lib_call ''pool.Exec'' [schemaSQL] r of
        (Some err, r) \<Rightarrow> (Some (Wrapped ''apply schema'' err), r)
      | (None, r) \<Rightarrow> (None, r))"

definition redis_NewClient :: "string \<Rightarrow> res \<Rightarrow> go_error option \<times> res" where
  "redis_NewClient addr r =
     (case lib_call ''client.Ping'' [addr] (open_handle Redis r) of
        (Some err, r) \<Rightarrow> (Some (Wrapped ''ping redis'' err), close_handle Redis r)
      | (None, r) \<Rightarrow> (None, r))"

definition NewPublisher :: "string \<Rightarrow> res \<Rightarrow> go_error option \<times> res" where
  "NewPublisher natsURL r =
     (case lib_call ''nats.Connect'' [natsURL] r of
        (Some err, r) \<Rightarrow> (Some (Wrapped ''connect to nats'' err), r)
      | (None, r) \<Rightarrow>
          (case lib_call ''jetstream.New'' [] (open_handle Nats r) of
             (Some err, r) \<Rightarrow> (Some (Wrapped ''create jetstream context'' err), close_handle Nats r)
           | (None, r) \<Rightarrow>
               (case lib_call ''js.CreateOrUpdateStream'' [StreamName, SubjectCreated] r of
                  (Some err, r) \<Rightarrow> (Some (Wrapped ''ensure stream'' err), close_handle Nats r)
                | (None, r) \<Rightarrow> (None, r))))"

definition subscriber_Connect :: "string \<Rightarrow> res \<Rightarrow> go_error option \<times> res" where
  "subscriber_Connect natsURL r =
     (case lib_call ''nats.Connect'' [natsURL] r of
        (Some err, r) \<Rightarrow> (Some (Wrapped ''connect to nats'' err), r)
      | (None, r) \<Rightarrow> (None, open_handle Nats r))"

text \<open>The exporter is the handle; when the resources do not merge it stays open.\<close>

definition tracing_Init :: "string \<Rightarrow> string \<Rightarrow> res \<Rightarrow> go_error option \<times> res" where
  "tracing_Init serviceName otlpEndpoint r =
     (case lib_call ''otlptracegrpc.New'' [otlpEndpoint] r of
        (Some err, r) \<Rightarrow> (Some (Wrapped ''create otlp exporter'' err), r)
      | (None, r) \<Rightarrow>
          (case lib_call ''resource.Merge'' [serviceName] (open_handle Tracing r) of
             (Some err, r) \<Rightarrow> (Some (Wrapped ''merge resource'' err), r)
           | (None, r) \<Rightarrow> (None, r)))"

text \<open>The connection is made with the TLS configuration it is given.\<close>

definition inventoryclient_New :: "string \<Rightarrow> res \<Rightarrow> go_error option \<times> res" where
  "inventoryclient_New addr r =
     (case lib_call ''grpc.NewClient'' [addr] r of
        (Some err, r) \<Rightarrow> (Some (Wrapped ''dial inventory-service'' err), r)
      | (None, r) \<Rightarrow> (None, open_handle Inventory_conn (r\<lparr>rs_creds := rs_tls r\<rparr>)))"

text \<open>The \<open>Close\<close> methods of what was constructed.\<close>

definition inventoryclient_Close :: "res \<Rightarrow> res" where
  "inventoryclient_Close r = close_handle Inventory_conn r"

definition Publisher_Close :: "res \<Rightarrow> res" where
  "Publisher_Close r = close_handle Nats r"

definition Subscriber_Close :: "res \<Rightarrow> res" where
  "Subscriber_Close r = close_handle Nats r"

lemmas constructor_defs = NewPool_def ApplySchema_def redis_NewClient_def NewPublisher_def
  subscriber_Connect_def tracing_Init_def inventoryclient_New_def lib_call_def open_handle_def close_handle_def Let_def

section \<open>Properties\<close>

lemma getEnv_ne: "[] = getEnv env key fallback \<longleftrightarrow> env key = [] \<and> fallback = []"
  by (auto simp: getEnv_def Let_def)

text \<open>
  The two services with a database load their configuration exactly when \<open>DATABASE_URL\<close> is set;
  then no field is empty, the URL is the variable's value, and a port that is set wins over its default.
\<close>

theorem load_contract:
  "(case order_Load env of
      Inl err \<Rightarrow> env ''DATABASE_URL'' = [] \<and> err = no_database_url
    | Inr cfg \<Rightarrow> env ''DATABASE_URL'' \<noteq> [] \<and> ocf_DatabaseURL cfg = env ''DATABASE_URL'' \<and>
        ocf_Port cfg = getEnv env ''PORT'' ''8082'' \<and>
        [] \<notin> set [ocf_Port cfg, ocf_DatabaseURL cfg, ocf_InventoryServiceGRPCAddr cfg, ocf_NatsURL cfg,
          ocf_OTLPEndpoint cfg, ocf_TLSCertFile cfg, ocf_TLSKeyFile cfg, ocf_TLSCAFile cfg]) \<and>
   (case inventory_Load env of
      Inl err \<Rightarrow> env ''DATABASE_URL'' = [] \<and> err = no_database_url
    | Inr cfg \<Rightarrow> env ''DATABASE_URL'' \<noteq> [] \<and> icf_DatabaseURL cfg = env ''DATABASE_URL'' \<and>
        icf_Port cfg = getEnv env ''PORT'' ''8081'' \<and>
        [] \<notin> set [icf_Port cfg, icf_GRPCPort cfg, icf_DatabaseURL cfg, icf_RedisAddr cfg,
          icf_OTLPEndpoint cfg, icf_TLSCertFile cfg, icf_TLSKeyFile cfg, icf_TLSCAFile cfg])"
  by (simp add: order_Load_def inventory_Load_def Let_def getEnv_ne)

text \<open>
  The defaults fit together: where only \<open>DATABASE_URL\<close> is set, the gateway's three targets are the
  ports the services listen on, order-service dials the port inventory-service serves gRPC on, the
  publisher and both consumers use one NATS server, and the six ports differ.
\<close>

theorem default_wiring:
  "let env = (\<lambda>k. if k = ''DATABASE_URL'' then c # url else []); gw = gateway_Load env;
       an = analytics_Load env; no = notification_Load env
   in \<exists>oc ic. order_Load env = Inr oc \<and> inventory_Load env = Inr ic \<and>
     gcf_OrderServiceURL gw = ''http://localhost:'' @ ocf_Port oc \<and>
     gcf_InventoryServiceURL gw = ''http://localhost:'' @ icf_Port ic \<and>
     gcf_AnalyticsServiceURL gw = ''http://localhost:'' @ acf_Port an \<and>
     ocf_InventoryServiceGRPCAddr oc = ''localhost:'' @ icf_GRPCPort ic \<and>
     ocf_NatsURL oc = acf_NatsURL an \<and> acf_NatsURL an = ncf_NatsURL no \<and>
     distinct [gcf_Port gw, ocf_Port oc, icf_Port ic, icf_GRPCPort ic, acf_Port an, ncf_Port no]"
  by (simp add: order_Load_def inventory_Load_def gateway_Load_def analytics_Load_def notification_Load_def getEnv_def Let_def)

text \<open>
  A constructor that fails leaves open what was open before it, and one that succeeds opens its
  own resource and nothing else: a pool whose ping fails, a Redis client whose ping fails and a NATS
  connection whose stream cannot be ensured are closed again.
\<close>

theorem constructors_clean_up:
  "list_all (\<lambda>(f, h). rs_open (snd (f r)) = (if fst (f r) = None then h # rs_open r else rs_open r))
     [(NewPool url, Pool), (redis_NewClient url, Redis), (NewPublisher url, Nats),
      (subscriber_Connect url, Nats), (inventoryclient_New url, Inventory_conn)]"
  by (auto simp: constructor_defs split: prod.splits option.splits)

end
