(* ===== verification/Lifecycle.thy ===== *)
theory Lifecycle
  imports Startup
begin

text \<open>
  The five \<open>main\<close> functions: each is a script of steps (open, check, defer, start a goroutine, wait,
  stop) run beside the goroutines it starts. A step that fails before the servers start logs and
  calls \<open>os.Exit(1)\<close>, which runs no deferred call; otherwise \<open>main\<close> returns through its deferred calls,
  last first. The goroutines, signals and failures of servers come in any order, as a list of moves. The
  gRPC server takes the options it is made with; \<open>Creds\<close> hands it the TLS configuration loaded before.
\<close>

section \<open>Scripts\<close>

datatype call =
    Load_config go_error
  | Init_tracing string string
  | New_pool string
  | Apply_schema string
  | New_redis string
  | New_publisher string
  | Connect_nats string
  | Load_server_tls string string string
  | Load_client_tls string string string
  | New_client string
  | New_proxy string
  | Sub_fs string
  | Listen string

datatype worker = Http_server | Grpc_server | Relay | Consumer

text \<open>The options of \<open>grpc.NewServer\<close>; \<open>Creds\<close> is \<open>credentials.NewTLS\<close> of the configuration loaded before.\<close>

datatype server_option = Creds | Stats_handler | Unary_interceptor

datatype step =
    Try call string
  | Notify_context
  | New_grpc_server "server_option list"
  | Defer handle
  | Go worker "effect list"
  | Await_ctx effect
  | Await worker
  | Graceful_stop
  | Shutdown

definition use_tls :: "go_error + tls_config \<Rightarrow> res \<Rightarrow> go_error option \<times> res" where
  "use_tls x r = (case x of Inl err \<Rightarrow> (Some err, r) | Inr cfg \<Rightarrow> (None, r\<lparr>rs_tls := Some cfg\<rparr>))"

fun exec_call :: "call \<Rightarrow> res \<Rightarrow> go_error option \<times> res" where
  "exec_call (Load_config err) r = (Some err, r)"
| "exec_call (Init_tracing name endpoint) r = tracing_Init name endpoint r"
| "exec_call (New_pool url) r = NewPool url r"
| "exec_call (Apply_schema sql) r = ApplySchema sql r"
| "exec_call (New_redis addr) r = redis_NewClient addr r"
| "exec_call (New_publisher url) r = NewPublisher url r"
| "exec_call (Connect_nats url) r = subscriber_Connect url r"
| "exec_call (Load_server_tls cert key ca) r = use_tls (tls_Server (rs_files r) cert key ca) r"
| "exec_call (Load_client_tls cert key ca) r = use_tls (tls_Client (rs_files r) cert key ca) r"
| "exec_call (New_client addr) r = inventoryclient_New addr r"
| "exec_call (New_proxy target) r = lib_call ''url.Parse'' [target] r"
| "exec_call (Sub_fs dir) r = lib_call ''fs.Sub'' [dir] r"
| "exec_call (Listen addr) r = lib_call ''net.Listen'' [addr] r"

text \<open>
  A deferred call. That of the tracer logs when it fails; the handle counts as released all the same: the
  call has been made, and it is not made again.
\<close>

fun exec_deferred :: "handle \<Rightarrow> res \<Rightarrow> effect list \<times> res" where
  "exec_deferred Tracing r =
     (case lib_call ''shutdownTracing'' [] (close_handle Tracing r) of
        (Some err, r) \<Rightarrow> ([Log_Error ''failed to shut down tracing'' [(''error'', err_text err)]], r)
      | (None, r) \<Rightarrow> ([], r))"
| "exec_deferred h r = ([], close_handle h r)"

lemma exec_deferred_closes:
  "exec_deferred Inventory_conn r = ([], inventoryclient_Close r)"
  "exec_deferred Nats r = ([], Publisher_Close r)" "exec_deferred Nats r = ([], Subscriber_Close r)"
  by (simp_all add: inventoryclient_Close_def Publisher_Close_def Subscriber_Close_def)

section \<open>The process\<close>

record proc =
  pr_todo :: "step list"
  pr_defers :: "handle list"
  pr_res :: res
  pr_started :: "worker list"
  pr_running :: "worker list"
  pr_ctx_done :: bool
  pr_logs :: "effect list"
  pr_exit :: "int option"

text \<open>
  \<open>main\<close> itself. A wait that is not over leaves the process as it is. \<open>Shutdown\<close> waits for the handlers
  in flight, or fails after ten seconds and leaves them running; \<open>GracefulStop\<close> waits as long as it
  takes. When the process exits, nothing of it runs. \<open>pr_started\<close> keeps every goroutine ever started.
\<close>

fun main_step :: "proc \<Rightarrow> proc" where
  "main_step p =
     (case pr_todo p of
        [] \<Rightarrow>
          (case pr_defers p of
             [] \<Rightarrow> p\<lparr>pr_exit := Some 0, pr_running := []\<rparr>
           | h # hs \<Rightarrow>
               let (effs, r) = exec_deferred h (pr_res p)
               in p\<lparr>pr_defers := hs, pr_res := r, pr_logs := pr_logs p @ effs\<rparr>)
      | Try c msg # rest \<Rightarrow>
          (case exec_call c (pr_res p) of
             (Some err, r) \<Rightarrow>
               p\<lparr>pr_res := r, pr_logs := pr_logs p @ [Log_Error msg [(''error'', err_text err)]],
                 pr_exit := Some 1, pr_running := []\<rparr>
           | (None, r) \<Rightarrow> p\<lparr>pr_todo := rest, pr_res := r\<rparr>)
      | Notify_context # rest \<Rightarrow> p\<lparr>pr_todo := rest, pr_res := open_handle Signals (pr_res p)\<rparr>
      | New_grpc_server opts # rest \<Rightarrow>
          p\<lparr>pr_todo := rest,
            pr_res := (pr_res p)\<lparr>rs_creds := (if Creds \<in> set opts then rs_tls (pr_res p) else None)\<rparr>\<rparr>
      | Defer h # rest \<Rightarrow> p\<lparr>pr_todo := rest, pr_defers := h # pr_defers p\<rparr>
      | Go w started # rest \<Rightarrow>
          p\<lparr>pr_todo := rest, pr_started := w # pr_started p, pr_running := w # pr_running p,
            pr_logs := pr_logs p @ started\<rparr>
      | Await_ctx stopping # rest \<Rightarrow>
          if pr_ctx_done p then p\<lparr>pr_todo := rest, pr_logs := pr_logs p @ [stopping]\<rparr> else p
      | Await w # rest \<Rightarrow> if w \<in> set (pr_running p) then p else p\<lparr>pr_todo := rest\<rparr>
      | Graceful_stop # rest \<Rightarrow>
          p\<lparr>pr_todo := rest, pr_running := removeAll Grpc_server (pr_running p)\<rparr>
      | Shutdown # rest \<Rightarrow>
          (case lib_call ''srv.Shutdown'' [] (pr_res p) of
             (Some err, r) \<Rightarrow>
               p\<lparr>pr_todo := rest, pr_res := r,
                 pr_logs := pr_logs p @ [Log_Error ''graceful shutdown failed'' [(''error'', err_text err)]]\<rparr>
           | (None, r) \<Rightarrow> p\<lparr>pr_todo := rest, pr_res := r, pr_running := removeAll Http_server (pr_running p)\<rparr>))"

declare main_step.simps [simp del]

text \<open>
  A move: \<open>main\<close> goes on, a signal arrives, a goroutine returns because the context is done, or a
  server or the consumer fails, which logs and calls \<open>stop\<close>. A signal kills the process (exit \<open>-1\<close>)
  before \<open>NotifyContext\<close> and once \<open>stop\<close> has been called. A server that has failed may still have
  handlers in flight, so it counts as running until \<open>main\<close> has shut it down.
\<close>

datatype move = Main | Signal | Ends worker | Breaks worker go_error

definition broke :: "worker \<Rightarrow> string" where
  "broke w = (case w of Http_server \<Rightarrow> ''server error'' | Grpc_server \<Rightarrow> ''grpc server error''
     | _ \<Rightarrow> ''event consumer stopped with error'')"

fun do_move :: "move \<Rightarrow> proc \<Rightarrow> proc" where
  "do_move mv p =
     (if pr_exit p \<noteq> None then p
      else case mv of
        Main \<Rightarrow> main_step p
      | Signal \<Rightarrow>
          if Signals \<in> set (rs_open (pr_res p)) then p\<lparr>pr_ctx_done := True\<rparr>
          else p\<lparr>pr_exit := Some (- 1), pr_running := []\<rparr>
      | Ends w \<Rightarrow>
          if pr_ctx_done p \<and> (w = Relay \<or> w = Consumer) then p\<lparr>pr_running := removeAll w (pr_running p)\<rparr> else p
      | Breaks w err \<Rightarrow>
          if w \<in> set (pr_running p) \<and> w \<noteq> Relay then
            p\<lparr>pr_ctx_done := True, pr_res := close_handle Signals (pr_res p),
              pr_running := (if w = Consumer then removeAll w (pr_running p) else pr_running p),
              pr_logs := pr_logs p @ [Log_Error (broke w) [(''error'', err_text err)]]\<rparr>
          else p)"

declare do_move.simps [simp del]

definition run_moves :: "move list \<Rightarrow> proc \<Rightarrow> proc" where
  "run_moves mvs p = fold do_move mvs p"

definition start_process :: "step list \<Rightarrow> res \<Rightarrow> proc" where
  "start_process script r =
     \<lparr>pr_todo = script, pr_defers = [], pr_res = r, pr_started = [], pr_running = [], pr_ctx_done = False, pr_logs = [], pr_exit = None\<rparr>"

definition fresh_res :: "files \<Rightarrow> go_error option list \<Rightarrow> res" where
  "fresh_res fl outs = \<lparr>rs_outcomes = outs, rs_calls = [], rs_open = [], rs_files = fl, rs_tls = None, rs_creds = None\<rparr>"

section \<open>The mains\<close>

definition order_main :: "environ \<Rightarrow> string \<Rightarrow> step list" where
  "order_main env schemaSQL =
     (case order_Load env of
        Inl err \<Rightarrow> [Try (Load_config err) ''failed to load config'']
      | Inr cfg \<Rightarrow>
          [Notify_context, Defer Signals,
           Try (Init_tracing ''order-service'' (ocf_OTLPEndpoint cfg)) ''failed to initialize tracing'', Defer Tracing,
           Try (New_pool (ocf_DatabaseURL cfg)) ''failed to connect to database'', Defer Pool,
           Try (Apply_schema schemaSQL) ''failed to apply schema'',
           Try (New_publisher (ocf_NatsURL cfg)) ''failed to connect to nats'', Defer Nats,
           Try (Load_client_tls (ocf_TLSCertFile cfg) (ocf_TLSKeyFile cfg) (ocf_TLSCAFile cfg)) ''failed to load TLS config'',
           Try (New_client (ocf_InventoryServiceGRPCAddr cfg)) ''failed to create inventory-service client'',
           Defer Inventory_conn,
           Go Relay [],
           Go Http_server [Log_Info ''starting order-service''
             [(''port'', ocf_Port cfg), (''inventory_service_grpc_addr'', ocf_InventoryServiceGRPCAddr cfg)]],
           Await_ctx (Log_Info ''shutting down order-service'' []),
           Await Relay,
           Shutdown])"

definition inventory_main :: "environ \<Rightarrow> string \<Rightarrow> step list" where
  "inventory_main env schemaSQL =
     (case inventory_Load env of
        Inl err \<Rightarrow> [Try (Load_config err) ''failed to load config'']
      | Inr cfg \<Rightarrow>
          [Notify_context, Defer Signals,
           Try (Init_tracing ''inventory-service'' (icf_OTLPEndpoint cfg)) ''failed to initialize tracing'', Defer Tracing,
           Try (New_pool (icf_DatabaseURL cfg)) ''failed to connect to database'', Defer Pool,
           Try (Apply_schema schemaSQL) ''failed to apply schema'',
           Try (New_redis (icf_RedisAddr cfg)) ''failed to connect to redis'', Defer Redis,
           Try (Load_server_tls (icf_TLSCertFile cfg) (icf_TLSKeyFile cfg) (icf_TLSCAFile cfg)) ''failed to load TLS config'',
           New_grpc_server [Creds, Stats_handler, Unary_interceptor],
           Try (Listen ('':'' @ icf_GRPCPort cfg)) ''failed to listen for grpc'',
           Go Http_server [Log_Info ''starting inventory-service'' [(''port'', icf_Port cfg)]],
           Go Grpc_server [Log_Info ''starting inventory-service grpc server'' [(''port'', icf_GRPCPort cfg)]],
           Await_ctx (Log_Info ''shutting down inventory-service'' []),
           Graceful_stop,
           Shutdown])"

definition gateway_main :: "environ \<Rightarrow> step list" where
  "gateway_main env =
     (let cfg = gateway_Load env in
      [Notify_context, Defer Signals,
       Try (Init_tracing ''api-gateway'' (gcf_OTLPEndpoint cfg)) ''failed to initialize tracing'', Defer Tracing,
       Try (New_proxy (gcf_OrderServiceURL cfg)) ''failed to configure order-service proxy'',
       Try (New_proxy (gcf_InventoryServiceURL cfg)) ''failed to configure inventory-service proxy'',
       Try (New_proxy (gcf_AnalyticsServiceURL cfg)) ''failed to configure analytics-service proxy'',
       Try (Sub_fs ''web'') ''failed to load embedded web assets'',
       Go Http_server [Log_Info ''starting api-gateway''
         [(''port'', gcf_Port cfg), (''order_service_url'', gcf_OrderServiceURL cfg),
          (''inventory_service_url'', gcf_InventoryServiceURL cfg), (''analytics_service_url'', gcf_AnalyticsServiceURL cfg)]],
       Await_ctx (Log_Info ''shutting down api-gateway'' []),
       Shutdown])"

definition analytics_main :: "environ \<Rightarrow> step list" where
  "analytics_main env =
     (let cfg = analytics_Load env in
      [Notify_context, Defer Signals,
       Try (Init_tracing ''analytics-service'' (acf_OTLPEndpoint cfg)) ''failed to initialize tracing'', Defer Tracing,
       Try (Connect_nats (acf_NatsURL cfg)) ''failed to connect to nats'', Defer Nats,
       Go Http_server [Log_Info ''starting analytics-service'' [(''port'', acf_Port cfg)]],
       Go Consumer [Log_Info ''subscribing to order events''
         [(''subject'', SubjectCreated), (''durable'', ''analytics-service'')]],
       Await_ctx (Log_Info ''shutting down analytics-service'' []),
       Shutdown])"

definition notification_main :: "environ \<Rightarrow> step list" where
  "notification_main env =
     (let cfg = notification_Load env in
      [Notify_context, Defer Signals,
       Try (Init_tracing ''notification-service'' (ncf_OTLPEndpoint cfg)) ''failed to initialize tracing'', Defer Tracing,
       Try (Connect_nats (ncf_NatsURL cfg)) ''failed to connect to nats'', Defer Nats,
       Go Http_server [Log_Info ''starting notification-service'' [(''port'', ncf_Port cfg)]],
       Go Consumer [Log_Info ''subscribing to order events''
         [(''subject'', SubjectCreated), (''durable'', ''notification-service'')]],
       Await_ctx (Log_Info ''shutting down notification-service'' []),
       Shutdown])"

section \<open>What every script keeps\<close>

fun opens :: "call \<Rightarrow> handle option" where
  "opens (Init_tracing s e) = Some Tracing"
| "opens (New_pool u) = Some Pool"
| "opens (New_redis a) = Some Redis"
| "opens (New_publisher u) = Some Nats"
| "opens (Connect_nats u) = Some Nats"
| "opens (New_client a) = Some Inventory_conn"
| "opens c = None"

lemma exec_call_opens:
  "exec_call c r = (None, r') \<Longrightarrow> rs_open r' = (case opens c of None \<Rightarrow> rs_open r | Some h \<Rightarrow> h # rs_open r)"
  by (cases c) (auto simp: constructor_defs use_tls_def split: prod.splits option.splits sum.splits)

text \<open>A script defers the release of what it opens at once, and nothing else: \<open>owed\<close> is the handle to defer.\<close>

fun deferring :: "handle option \<Rightarrow> step list \<Rightarrow> bool" where
  "deferring (Some h) (Defer h' # rest) = (h' = h \<and> deferring None rest)"
| "deferring (Some h) steps = False"
| "deferring None (Try c msg # rest) = deferring (opens c) rest"
| "deferring None (Notify_context # rest) = deferring (Some Signals) rest"
| "deferring None (Defer h # rest) = False"
| "deferring None (s # rest) = deferring None rest"
| "deferring None [] = True"

definition owes :: "handle option \<Rightarrow> handle \<Rightarrow> nat" where
  "owes owed h = (if owed = Some h then 1 else 0)"

text \<open>What is open is what will be closed; \<open>Signals\<close> may have been closed early.\<close>

definition handles_inv :: "proc \<Rightarrow> bool" where
  "handles_inv p \<longleftrightarrow> (\<exists>owed. deferring owed (pr_todo p) \<and>
     (\<forall>h. h \<noteq> Signals \<longrightarrow> count_list (rs_open (pr_res p)) h = count_list (pr_defers p) h + owes owed h) \<and>
     count_list (rs_open (pr_res p)) Signals \<le> count_list (pr_defers p) Signals + owes owed Signals)"

lemma count_list_remove1: "count_list (remove1 h xs) k = (if k = h then count_list xs k - 1 else count_list xs k)"
  by (induction xs) auto

lemma exec_deferred_open: "rs_open (snd (exec_deferred h r)) = remove1 h (rs_open r)"
  by (cases h) (auto simp: lib_call_def close_handle_def Let_def split: prod.splits option.splits)

lemma lib_call_open [simp]: "lib_call f args r = (x, r') \<Longrightarrow> rs_open r' = rs_open r"
  by (auto simp: lib_call_def Let_def split: prod.splits)

lemma handles_inv_main:
  assumes "handles_inv p" and "pr_exit (main_step p) \<noteq> Some 1"
  shows "handles_inv (main_step p)"
proof -
  obtain owed where d: "deferring owed (pr_todo p)"
    and o: "\<And>h. h \<noteq> Signals \<Longrightarrow> count_list (rs_open (pr_res p)) h = count_list (pr_defers p) h + owes owed h"
    and s: "count_list (rs_open (pr_res p)) Signals \<le> count_list (pr_defers p) Signals + owes owed Signals"
    using assms(1) unfolding handles_inv_def by blast
  show ?thesis
  proof (cases "pr_todo p")
    case Nil
    with d have "owed = None" by (cases owed) auto
    show ?thesis
    proof (cases "pr_defers p")
      case Nil
      with \<open>pr_todo p = []\<close> \<open>owed = None\<close> d o s show ?thesis
        unfolding handles_inv_def by (intro exI [of _ None]) (simp add: main_step.simps)
    next
      case (Cons h hs)
      obtain effs r where e: "exec_deferred h (pr_res p) = (effs, r)" by force
      then have "rs_open r = remove1 h (rs_open (pr_res p))" using exec_deferred_open [of h "pr_res p"] by simp
      with Cons e \<open>pr_todo p = []\<close> \<open>owed = None\<close> d o s show ?thesis
        unfolding handles_inv_def
        by (intro exI [of _ None]) (auto simp: main_step.simps count_list_remove1 owes_def)
    qed
  next
    case (Cons st rest)
    show ?thesis
    proof (cases owed)
      case (Some h)
      with d Cons have "st = Defer h" "deferring None rest" by (cases st; simp)+
      with Some Cons o s show ?thesis
        unfolding handles_inv_def by (intro exI [of _ None]) (auto simp: main_step.simps owes_def)
    next
      case None
      show ?thesis
      proof (cases st)
        case (Try c msg)
        obtain x r where e: "exec_call c (pr_res p) = (x, r)" by force
        with Try Cons assms(2) have "x = None" by (auto simp: main_step.simps split: option.splits)
        with exec_call_opens e have op: "rs_open r = (case opens c of None \<Rightarrow> rs_open (pr_res p) | Some h \<Rightarrow> h # rs_open (pr_res p))"
          by blast
        from Try Cons None d have "deferring (opens c) rest" by simp
        with op Try Cons None o s e \<open>x = None\<close> show ?thesis
          unfolding handles_inv_def
          by (intro exI [of _ "opens c"]) (auto simp: main_step.simps owes_def split: option.splits)
      next
        case Notify_context
        with Cons None d o s show ?thesis
          unfolding handles_inv_def
          by (intro exI [of _ "Some Signals"]) (auto simp: main_step.simps owes_def open_handle_def)
      next
        case (Defer h)
        with Cons None d show ?thesis by simp
      qed (use Cons None d o s in \<open>auto simp: handles_inv_def main_step.simps owes_def intro!: exI [of _ None]
          split: prod.splits option.splits\<close>)
    qed
  qed
qed

text \<open>An invariant of \<open>main\<close> and of the other moves holds after any moves, until an exit.\<close>

lemma run_moves_inv:
  assumes "I p"
    and "\<And>q mv. I q \<Longrightarrow> pr_exit q = None \<Longrightarrow> I (do_move mv q)"
  shows "I (run_moves mvs p)"
  using assms(1) unfolding run_moves_def
proof (induction mvs arbitrary: p)
  case (Cons mv mvs)
  have "I (do_move mv p)"
    using Cons.prems assms(2) by (cases "pr_exit p = None") (auto simp: do_move.simps)
  with Cons.IH show ?case by simp
qed simp

text \<open>The moves that are not \<open>main\<close>'s touch the running goroutines, \<open>Signals\<close>, and the logs.\<close>

lemma other_moves:
  assumes "mv \<noteq> Main" and "pr_exit p = None"
  obtains (killed) "do_move mv p = p\<lparr>pr_exit := Some (- 1), pr_running := []\<rparr>"
  | (still) "do_move mv p = p"
  | (signal) "do_move mv p = p\<lparr>pr_ctx_done := True\<rparr>"
  | (ended) w where "do_move mv p = p\<lparr>pr_running := removeAll w (pr_running p)\<rparr>"
  | (broken) w err ws where "w \<in> set (pr_running p)" "set ws \<subseteq> set (pr_running p)"
      "do_move mv p = p\<lparr>pr_ctx_done := True, pr_res := close_handle Signals (pr_res p), pr_running := ws,
         pr_logs := pr_logs p @ [Log_Error (broke w) [(''error'', err_text err)]]\<rparr>"
proof (cases mv)
  case Main
  with assms show thesis by simp
next
  case Signal
  with assms killed signal show thesis
    by (cases "Signals \<in> set (rs_open (pr_res p))") (auto simp: do_move.simps)
next
  case (Ends w)
  with assms still ended [of w] show thesis
    by (cases "pr_ctx_done p \<and> (w = Relay \<or> w = Consumer)") (simp_all add: do_move.simps)
next
  case (Breaks w err)
  show thesis
  proof (cases "w \<in> set (pr_running p) \<and> w \<noteq> Relay")
    case True
    with Breaks assms(2) show thesis
      by (intro broken [of w "if w = Consumer then removeAll w (pr_running p) else pr_running p" err])
        (auto simp: do_move.simps)
  next
    case False
    with Breaks assms(2) still show thesis by (auto simp: do_move.simps)
  qed
qed

lemma handles_inv_signals:
  assumes "handles_inv p" and "pr_todo q = pr_todo p" and "pr_defers q = pr_defers p"
    and "rs_open (pr_res q) = rs_open (pr_res p) \<or> rs_open (pr_res q) = remove1 Signals (rs_open (pr_res p))"
  shows "handles_inv q"
proof -
  obtain owed where owed: "deferring owed (pr_todo p)"
    "\<forall>h. h \<noteq> Signals \<longrightarrow> count_list (rs_open (pr_res p)) h = count_list (pr_defers p) h + owes owed h"
    "count_list (rs_open (pr_res p)) Signals \<le> count_list (pr_defers p) Signals + owes owed Signals"
    using assms(1) unfolding handles_inv_def by blast
  show ?thesis
    unfolding handles_inv_def using owed assms(2-4)
    by (intro exI [of _ owed]) (auto simp: count_list_remove1)
qed

lemma handles_inv_move:
  assumes "handles_inv p" and "pr_exit p = None" and "pr_exit (do_move mv p) \<noteq> Some 1"
  shows "handles_inv (do_move mv p)"
proof (cases "mv = Main")
  case True
  with assms handles_inv_main show ?thesis by (simp add: do_move.simps)
next
  case False
  then show ?thesis
    by (rule other_moves [OF _ assms(2)]) (rule handles_inv_signals [OF assms(1)], simp_all add: close_handle_def)+
qed

section \<open>Goroutines and what they need\<close>

text \<open>
  Checked along a script: when the relay starts, the pool and the NATS connection are deferred, and
  \<open>main\<close> waits for the relay later on.
\<close>

fun relay_ok :: "handle list \<Rightarrow> step list \<Rightarrow> bool" where
  "relay_ok ds [] = True"
| "relay_ok ds (Defer h # rest) = relay_ok (h # ds) rest"
| "relay_ok ds (Go w l # rest) =
     ((w = Relay \<longrightarrow> Pool \<in> set ds \<and> Nats \<in> set ds \<and> Await Relay \<in> set rest) \<and> relay_ok ds rest)"
| "relay_ok ds (s # rest) = relay_ok ds rest"

definition relay_waits :: "proc \<Rightarrow> bool" where
  "relay_waits p \<longleftrightarrow> relay_ok (pr_defers p) (pr_todo p) \<and>
     (Relay \<in> set (pr_running p) \<longrightarrow>
        Pool \<in> set (pr_defers p) \<and> Nats \<in> set (pr_defers p) \<and> Await Relay \<in> set (pr_todo p))"

lemma relay_waits_main: "relay_waits p \<Longrightarrow> relay_waits (main_step p)"
proof (cases "pr_todo p")
  case Nil
  then show "relay_waits p \<Longrightarrow> relay_waits (main_step p)"
    by (auto simp: relay_waits_def main_step.simps split: list.splits prod.splits)
next
  case (Cons st rest)
  then show "relay_waits p \<Longrightarrow> relay_waits (main_step p)"
    by (cases st) (auto simp: relay_waits_def main_step.simps split: prod.splits option.splits)
qed

lemma relay_waits_move:
  assumes "relay_waits p" and "pr_exit p = None"
  shows "relay_waits (do_move mv p)"
proof (cases "mv = Main")
  case True
  with assms relay_waits_main show ?thesis by (simp add: do_move.simps)
next
  case False
  then show ?thesis
    by (rule other_moves [OF _ assms(2)]) (use assms(1) in \<open>auto simp: relay_waits_def\<close>)
qed

text \<open>No step that can fail comes after a goroutine has been started.\<close>

fun tries_first :: "step list \<Rightarrow> bool" where
  "tries_first [] = True"
| "tries_first (Go w l # rest) = list_all (\<lambda>s. case s of Try c msg \<Rightarrow> False | _ \<Rightarrow> True) rest"
| "tries_first (Await_ctx l # rest) = list_all (\<lambda>s. case s of Try c msg \<Rightarrow> False | _ \<Rightarrow> True) rest"
| "tries_first (Shutdown # rest) = list_all (\<lambda>s. case s of Try c msg \<Rightarrow> False | _ \<Rightarrow> True) rest"
| "tries_first (s # rest) = tries_first rest"

definition no_tries :: "step list \<Rightarrow> bool" where
  "no_tries steps \<longleftrightarrow> list_all (\<lambda>s. case s of Try c msg \<Rightarrow> False | _ \<Rightarrow> True) steps"

definition quiet_start :: "proc \<Rightarrow> bool" where
  "quiet_start p \<longleftrightarrow>
     (case pr_exit p of
        None \<Rightarrow> no_tries (pr_todo p) \<or> tries_first (pr_todo p) \<and> pr_logs p = [] \<and> pr_running p = [] \<and> pr_started p = []
      | Some n \<Rightarrow> n = 1 \<longrightarrow> pr_started p = [] \<and> (\<exists>c msg rest err r. pr_todo p = Try c msg # rest \<and>
          exec_call c r = (Some err, pr_res p) \<and> pr_logs p = [Log_Error msg [(''error'', err_text err)]]))"

lemma quiet_start_main: "pr_exit p = None \<Longrightarrow> quiet_start p \<Longrightarrow> quiet_start (main_step p)"
proof (cases "pr_todo p")
  case Nil
  then show "pr_exit p = None \<Longrightarrow> quiet_start p \<Longrightarrow> quiet_start (main_step p)"
    by (auto simp: quiet_start_def no_tries_def main_step.simps split: list.splits prod.splits)
next
  case (Cons st rest)
  then show "pr_exit p = None \<Longrightarrow> quiet_start p \<Longrightarrow> quiet_start (main_step p)"
    by (cases st) (auto simp: quiet_start_def no_tries_def main_step.simps split: prod.splits option.splits)
qed

lemma quiet_start_move:
  assumes "quiet_start p" and "pr_exit p = None"
  shows "quiet_start (do_move mv p)"
proof (cases "mv = Main")
  case True
  with assms quiet_start_main show ?thesis by (simp add: do_move.simps)
next
  case False
  then show ?thesis
    by (rule other_moves [OF _ assms(2)]) (use assms in \<open>auto simp: quiet_start_def\<close>)
qed

text \<open>
  Credentials. \<open>uses load fl cfg\<close>: the configuration is what the call \<open>load\<close> makes of the files. Checked
  along a script for a goroutine \<open>w\<close>: the only configuration loaded is that of \<open>load\<close>, a gRPC server or
  connection is made after it and with it, and before \<open>w\<close> starts.
\<close>

fun uses :: "call \<Rightarrow> files \<Rightarrow> tls_config option \<Rightarrow> bool" where
  "uses (Load_server_tls cert key ca) fl (Some cfg) \<longleftrightarrow> tls_Server fl cert key ca = Inr cfg"
| "uses (Load_client_tls cert key ca) fl (Some cfg) \<longleftrightarrow> tls_Client fl cert key ca = Inr cfg"
| "uses load fl cfg \<longleftrightarrow> False"

fun creds_ok :: "call \<Rightarrow> worker \<Rightarrow> bool \<Rightarrow> bool \<Rightarrow> step list \<Rightarrow> bool" where
  "creds_ok load w loaded made [] = True"
| "creds_ok load w loaded made (Try (Load_server_tls cert key ca) msg # rest) =
     (Load_server_tls cert key ca = load \<and> creds_ok load w True made rest)"
| "creds_ok load w loaded made (Try (Load_client_tls cert key ca) msg # rest) =
     (Load_client_tls cert key ca = load \<and> creds_ok load w True made rest)"
| "creds_ok load w loaded made (Try (New_client addr) msg # rest) = (loaded \<and> creds_ok load w loaded True rest)"
| "creds_ok load w loaded made (New_grpc_server opts # rest) =
     (loaded \<and> Creds \<in> set opts \<and> creds_ok load w loaded True rest)"
| "creds_ok load w loaded made (Go w' l # rest) = ((w' = w \<longrightarrow> made) \<and> creds_ok load w loaded made rest)"
| "creds_ok load w loaded made (s # rest) = creds_ok load w loaded made rest"

definition secured :: "call \<Rightarrow> worker \<Rightarrow> files \<Rightarrow> proc \<Rightarrow> bool" where
  "secured load w fl p \<longleftrightarrow> rs_files (pr_res p) = fl \<and>
     (if pr_exit p = None then \<exists>loaded made. creds_ok load w loaded made (pr_todo p) \<and>
        (loaded \<longrightarrow> uses load fl (rs_tls (pr_res p))) \<and> (made \<longrightarrow> uses load fl (rs_creds (pr_res p))) \<and>
        (w \<in> set (pr_running p) \<longrightarrow> made)
      else w \<notin> set (pr_running p))"

lemma securedI:
  "rs_files (pr_res p) = fl \<Longrightarrow> pr_exit p = None \<Longrightarrow> creds_ok load w loaded made (pr_todo p) \<Longrightarrow>
     (loaded \<Longrightarrow> uses load fl (rs_tls (pr_res p))) \<Longrightarrow> (made \<Longrightarrow> uses load fl (rs_creds (pr_res p))) \<Longrightarrow>
     (w \<in> set (pr_running p) \<Longrightarrow> made) \<Longrightarrow> secured load w fl p"
  unfolding secured_def by auto

lemma exec_call_tls:
  assumes "exec_call c r = (x, r')"
  shows "rs_files r' = rs_files r"
    and "x = None \<Longrightarrow> (case c of Load_server_tls cert key ca \<Rightarrow> uses c (rs_files r) (rs_tls r')
      | Load_client_tls cert key ca \<Rightarrow> uses c (rs_files r) (rs_tls r') | _ \<Rightarrow> rs_tls r' = rs_tls r)"
    and "x = None \<Longrightarrow> rs_creds r' = (case c of New_client addr \<Rightarrow> rs_tls r | _ \<Rightarrow> rs_creds r)"
  using assms by (cases c; auto simp: constructor_defs use_tls_def split: prod.splits option.splits sum.splits)+

lemma exec_deferred_tls:
  "rs_files (snd (exec_deferred h r)) = rs_files r \<and> rs_tls (snd (exec_deferred h r)) = rs_tls r \<and>
   rs_creds (snd (exec_deferred h r)) = rs_creds r"
  by (cases h) (auto simp: lib_call_def close_handle_def Let_def split: prod.splits option.splits)

lemma lib_call_tls:
  "lib_call f args r = (x, r') \<Longrightarrow> rs_files r' = rs_files r \<and> rs_tls r' = rs_tls r \<and> rs_creds r' = rs_creds r"
  by (auto simp: lib_call_def Let_def split: prod.splits)

lemma secured_try:
  assumes "secured load w fl p" and "pr_exit p = None" and "pr_todo p = Try c msg # rest"
  shows "secured load w fl (main_step p)"
proof -
  from assms(1,2) obtain loaded made where k: "rs_files (pr_res p) = fl" "creds_ok load w loaded made (Try c msg # rest)"
    "loaded \<longrightarrow> uses load fl (rs_tls (pr_res p))" "made \<longrightarrow> uses load fl (rs_creds (pr_res p))" "w \<in> set (pr_running p) \<longrightarrow> made"
    unfolding secured_def assms(3) by auto
  obtain x r where e: "exec_call c (pr_res p) = (x, r)" by force
  note t = exec_call_tls [OF e]
  show ?thesis
  proof (cases x)
    case (Some err)
    with assms(3) e t(1) k(1) show ?thesis by (simp add: secured_def main_step.simps)
  next
    case None
    then have p': "main_step p = p\<lparr>pr_todo := rest, pr_res := r\<rparr>" using assms(3) e by (simp add: main_step.simps)
    show ?thesis
    proof (cases c)
      case (Load_server_tls cert key ca)
      with k t(1) t(2,3) [OF None] assms(2) show ?thesis
        unfolding p' by (intro securedI [of _ _ _ _ True made]) auto
    next
      case (Load_client_tls cert key ca)
      with k t(1) t(2,3) [OF None] assms(2) show ?thesis
        unfolding p' by (intro securedI [of _ _ _ _ True made]) auto
    next
      case (New_client addr)
      with k t(1) t(2,3) [OF None] assms(2) show ?thesis
        unfolding p' by (intro securedI [of _ _ _ _ loaded True]) auto
    qed (use k t(1) t(2,3) [OF None] assms(2) in \<open>unfold p', intro securedI [of _ _ _ _ loaded made]; simp\<close>)+
  qed
qed

lemma secured_main:
  assumes "secured load w fl p" and "pr_exit p = None"
  shows "secured load w fl (main_step p)"
proof (cases "pr_todo p")
  case Nil
  show ?thesis
  proof (cases "pr_defers p")
    case (Cons h hs)
    obtain effs r where e: "exec_deferred h (pr_res p) = (effs, r)" by force
    with Cons \<open>pr_todo p = []\<close> assms exec_deferred_tls [of h "pr_res p"] show ?thesis
      by (auto simp: secured_def main_step.simps)
  qed (use \<open>pr_todo p = []\<close> assms in \<open>auto simp: secured_def main_step.simps\<close>)
next
  case (Cons st rest)
  show ?thesis
  proof (cases st)
    case (Try c msg)
    with secured_try [OF assms] Cons show ?thesis by simp
  next
    case Shutdown
    obtain x r where l: "lib_call ''srv.Shutdown'' [] (pr_res p) = (x, r)" by force
    from Shutdown Cons assms lib_call_tls [OF l] l show ?thesis
      by (cases x) (auto simp: secured_def main_step.simps)
  next
    case (New_grpc_server opts)
    with Cons assms show ?thesis
      by (auto simp: secured_def main_step.simps)
  qed (use Cons assms in \<open>auto simp: secured_def main_step.simps open_handle_def\<close>)
qed

lemma secured_move:
  assumes "secured load w fl p" and "pr_exit p = None"
  shows "secured load w fl (do_move mv p)"
proof (cases "mv = Main")
  case True
  with assms secured_main show ?thesis by (simp add: do_move.simps)
next
  case False
  then show ?thesis
    by (rule other_moves [OF _ assms(2)]) (use assms in \<open>auto simp: secured_def close_handle_def\<close>)
qed

section \<open>Properties\<close>

lemmas mains = order_main_def inventory_main_def gateway_main_def analytics_main_def notification_main_def

lemma mains_deferring:
  "list_all (deferring None) [order_main env sql, inventory_main env sql, gateway_main env, analytics_main env, notification_main env]"
  by (simp add: mains Let_def split: sum.splits)

lemma mains_tries_first:
  "list_all tries_first [order_main env sql, inventory_main env sql, gateway_main env, analytics_main env, notification_main env]"
  by (simp add: mains Let_def split: sum.splits)

lemma exits_stop:
  assumes "pr_exit q = None" and "pr_exit (do_move mv q) \<noteq> None"
  shows "pr_running (do_move mv q) = [] \<and>
    (pr_exit (do_move mv q) = Some 0 \<longrightarrow> pr_defers (do_move mv q) = [] \<and> pr_todo (do_move mv q) = [])"
proof (cases "mv = Main")
  case True
  with assms show ?thesis
    by (auto simp: do_move.simps main_step.simps split: list.splits step.splits prod.splits option.splits if_splits)
next
  case False
  then show ?thesis by (rule other_moves [OF _ assms(1)]) (use assms in auto)
qed

definition process_inv :: "proc \<Rightarrow> bool" where
  "process_inv p \<longleftrightarrow> (pr_exit p = None \<or> pr_exit p = Some 0 \<longrightarrow> handles_inv p) \<and>
     (pr_exit p \<noteq> None \<longrightarrow> pr_running p = []) \<and> (pr_exit p = Some 0 \<longrightarrow> pr_defers p = [] \<and> pr_todo p = [])"

text \<open>A run of a script on a fresh process.\<close>

abbreviation process :: "step list \<Rightarrow> files \<Rightarrow> go_error option list \<Rightarrow> move list \<Rightarrow> proc" where
  "process script fl outs mvs \<equiv> run_moves mvs (start_process script (fresh_res fl outs))"

lemma process_inv:
  assumes "deferring None script"
  shows "process_inv (process script fl outs mvs)"
proof (rule run_moves_inv)
  from assms show "process_inv (start_process script (fresh_res fl outs))"
    by (auto simp: process_inv_def handles_inv_def start_process_def fresh_res_def owes_def intro!: exI [of _ None])
next
  fix q mv assume q: "process_inv q" "pr_exit q = None"
  with exits_stop [of q mv] handles_inv_move [of q mv] show "process_inv (do_move mv q)"
    by (auto simp: process_inv_def)
qed

lemma process_relay:
  assumes "relay_ok [] script"
  shows "relay_waits (process script fl outs mvs)"
proof (rule run_moves_inv [where I = relay_waits])
  from assms show "relay_waits (start_process script (fresh_res fl outs))"
    by (simp add: relay_waits_def start_process_def)
qed (rule relay_waits_move)

text \<open>
  C35. Whichever main runs, however its library calls turn out, and however signals, failures of the
  servers and the ends of the goroutines fall: when it exits with code 0, every resource it opened has
  been released, the tracer, the pool, Redis, NATS and the gRPC connection alike.
\<close>

theorem clean_exit_leaves_nothing_open:
  assumes "script \<in> {order_main env sql, inventory_main env sql, gateway_main env, analytics_main env, notification_main env}"
    and "pr_exit (process script fl outs mvs) = Some 0"
  shows "rs_open (pr_res (process script fl outs mvs)) = []"
proof -
  let ?p = "process script fl outs mvs"
  have "deferring None script" using assms(1) mains_deferring [of env sql] by auto
  from process_inv [OF this, where fl = fl and outs = outs and mvs = mvs] assms(2)
  have "handles_inv ?p" and e: "pr_defers ?p = []" "pr_todo ?p = []" by (simp_all add: process_inv_def)
  then obtain owed where o: "deferring owed []"
    "\<forall>h. h \<noteq> Signals \<longrightarrow> count_list (rs_open (pr_res ?p)) h = owes owed h"
    "count_list (rs_open (pr_res ?p)) Signals \<le> owes owed Signals"
    unfolding handles_inv_def by auto
  then have "owed = None" by (cases owed) simp_all
  with o have "count_list (rs_open (pr_res ?p)) h = 0" for h by (cases "h = Signals") (simp_all add: owes_def)
  then show ?thesis by (metis count_list_0_iff list.set_intros(1) neq_Nil_conv)
qed

definition sample_files :: files where
  "sample_files = \<lparr>fl_LoadX509KeyPair = (\<lambda>c k. Inr c), fl_ReadFile = (\<lambda>f. Inr f), fl_PEM = (\<lambda>t. [t]), fl_q = (\<lambda>x. x)\<rparr>"

lemmas run_process = run_moves_def start_process_def fresh_res_def do_move.simps main_step.simps constructor_defs
  mains use_tls_def sample_files_def eval_nat_numeral

lemma sample_gateway_exit:
  "pr_exit (process (gateway_main env) sample_files [] (replicate 9 Main @ [Signal] @ replicate 5 Main)) = Some 0"
  by (simp add: run_process)

theorem clean_exit_leaves_nothing_open_witness:
  "rs_open (pr_res (process (gateway_main (\<lambda>k. [])) sample_files [] (replicate 9 Main @ [Signal] @ replicate 5 Main))) = []"
  by (rule clean_exit_leaves_nothing_open [where env = "\<lambda>k. []" and sql = "[]", OF _ sample_gateway_exit]) simp

text \<open>
  C36. While order-service's relay runs, the database pool and the NATS connection it works on are
  open: \<open>main\<close> waits for the relay before its deferred calls close them, whatever else happens.
\<close>

theorem relay_has_its_connections:
  assumes "Relay \<in> set (pr_running (process (order_main env sql) fl outs mvs))"
  shows "{Pool, Nats} \<subseteq> set (rs_open (pr_res (process (order_main env sql) fl outs mvs)))"
proof -
  let ?p = "process (order_main env sql) fl outs mvs"
  have "deferring None (order_main env sql)" using mains_deferring [of env sql] by simp
  from process_inv [OF this, where fl = fl and outs = outs and mvs = mvs] assms
  have "handles_inv ?p" by (auto simp: process_inv_def)
  then have c: "count_list (pr_defers ?p) h \<le> count_list (rs_open (pr_res ?p)) h" if "h \<noteq> Signals" for h
    using that by (auto simp: handles_inv_def)
  have "relay_ok [] (order_main env sql)" by (simp add: mains split: sum.splits)
  from process_relay [OF this, where fl = fl and outs = outs and mvs = mvs] assms
  have "Pool \<in> set (pr_defers ?p)" "Nats \<in> set (pr_defers ?p)" by (simp_all add: relay_waits_def)
  moreover have "h \<in> set (rs_open (pr_res ?p))" if "h \<in> set (pr_defers ?p)" "h \<noteq> Signals" for h
    using c [OF that(2)] that(1) by (metis count_list_0_iff le_zero_eq)
  ultimately show ?thesis by simp
qed

theorem relay_has_its_connections_witness:
  "{Pool, Nats} \<subseteq> set (rs_open (pr_res (process (order_main (\<lambda>k. ''u'') []) sample_files []
     (replicate 13 Main @ [Signal, Main, Main]))))"
proof (rule relay_has_its_connections)
  show "Relay \<in> set (pr_running (process (order_main (\<lambda>k. ''u'') []) sample_files [] (replicate 13 Main @ [Signal, Main, Main])))"
    by (simp add: run_process order_Load_def getEnv_def tls_Client_def loadCA_def)
qed

lemma process_quiet:
  assumes "script \<in> {order_main env sql, inventory_main env sql, gateway_main env, analytics_main env, notification_main env}"
  shows "quiet_start (process script fl outs mvs)"
proof (rule run_moves_inv [where I = quiet_start])
  have "tries_first script" using assms mains_tries_first [of env sql] by auto
  then show "quiet_start (start_process script (fresh_res fl outs))"
    by (simp add: quiet_start_def start_process_def)
qed (rule quiet_start_move)

lemma process_secured:
  "creds_ok load w False False script \<Longrightarrow> secured load w fl (process script fl outs mvs)"
  by (rule run_moves_inv [where I = "secured load w fl"])
    (simp_all add: secured_move, rule securedI [of _ _ _ _ False False], simp_all add: start_process_def fresh_res_def)

text \<open>
  C38. A main that fails while it starts: whenever its next step is a configuration or a constructor that
  fails, its next move exits with code 1, having logged exactly that step's message with that error and
  nothing before it, having started no server and no goroutine ever, and without running a deferred call;
  and it exits with code 1 in no other way.
\<close>

theorem failed_start_only_logs:
  fixes fl :: files and outs :: "go_error option list" and mvs :: "move list"
  assumes "script \<in> {order_main env sql, inventory_main env sql, gateway_main env, analytics_main env, notification_main env}"
  defines "p \<equiv> process script fl outs mvs" and "q \<equiv> process script fl outs (mvs @ [Main])"
  shows "(pr_exit p = None \<and> pr_todo p = Try c msg # rest \<and> exec_call c (pr_res p) = (Some err, r) \<longrightarrow>
      pr_exit q = Some 1 \<and> pr_logs q = [Log_Error msg [(''error'', err_text err)]] \<and>
      pr_started q = [] \<and> pr_running q = [] \<and> pr_defers q = pr_defers p) \<and>
    (pr_exit p = Some 1 \<longrightarrow> pr_started p = [] \<and> (\<exists>c msg rest err r. pr_todo p = Try c msg # rest \<and>
      exec_call c r = (Some err, pr_res p) \<and> pr_logs p = [Log_Error msg [(''error'', err_text err)]]))"
proof -
  have quiet: "quiet_start p" unfolding p_def by (rule process_quiet [OF assms(1)])
  have q: "q = do_move Main p" by (simp add: p_def q_def run_moves_def)
  show ?thesis
  proof (intro conjI impI)
    assume failing: "pr_exit p = None \<and> pr_todo p = Try c msg # rest \<and> exec_call c (pr_res p) = (Some err, r)"
    with quiet have "pr_logs p = []" "pr_started p = []" by (auto simp: quiet_start_def no_tries_def)
    with failing show "pr_exit q = Some 1" "pr_logs q = [Log_Error msg [(''error'', err_text err)]]"
      "pr_started q = []" "pr_running q = []" "pr_defers q = pr_defers p"
      by (simp_all add: q do_move.simps main_step.simps)
  qed (use quiet in \<open>simp_all add: quiet_start_def\<close>)
qed

theorem failed_start_only_logs_witness:
  "pr_logs (process (order_main (\<lambda>k. []) []) sample_files [] ([] @ [Main])) =
     [Log_Error ''failed to load config'' [(''error'', ''DATABASE_URL is required'')]]"
proof -
  let ?s = "order_main (\<lambda>k. []) []"
  have s: "?s = [Try (Load_config no_database_url) ''failed to load config'']" by (simp add: order_main_def order_Load_def)
  have "pr_exit (process ?s sample_files [] []) = None \<and>
      pr_todo (process ?s sample_files [] []) = [Try (Load_config no_database_url) ''failed to load config''] \<and>
      exec_call (Load_config no_database_url) (pr_res (process ?s sample_files [] [])) =
        (Some no_database_url, pr_res (process ?s sample_files [] []))"
    unfolding s by (simp add: run_moves_def start_process_def)
  with failed_start_only_logs [where script = ?s and env = "\<lambda>k. []" and sql = "[]" and fl = sample_files and outs = "[]" and mvs = "[]"] show ?thesis by force
qed

text \<open>
  C37. gRPC between the two services is mutual TLS. Whenever inventory-service's gRPC server runs, the
  credentials it was made with are those \<open>tlsconfig.Server\<close> loads from the configured certificate, key
  and CA files: they require and verify a client certificate, against at least one authority. Whenever
  order-service's HTTP server runs, the connection its reservations use was made with what
  \<open>tlsconfig.Client\<close> loads from the configured files: it presents a certificate and verifies the
  server's, against at least one authority.
\<close>

theorem grpc_is_mutual_tls:
  fixes fl :: files and outs :: "go_error option list" and mvs :: "move list" and env :: environ and sql :: string
  defines "ip \<equiv> process (inventory_main env sql) fl outs mvs" and "op \<equiv> process (order_main env sql) fl outs mvs"
  shows "(Grpc_server \<in> set (pr_running ip) \<longrightarrow> (\<exists>cfg tls. inventory_Load env = Inr cfg \<and>
      rs_creds (pr_res ip) = Some tls \<and>
      tls_Server fl (icf_TLSCertFile cfg) (icf_TLSKeyFile cfg) (icf_TLSCAFile cfg) = Inr tls \<and>
      tls_ClientAuth tls = RequireAndVerifyClientCert \<and> tls_ClientCAs tls \<noteq> [])) \<and>
    (Http_server \<in> set (pr_running op) \<longrightarrow> (\<exists>cfg tls. order_Load env = Inr cfg \<and>
      rs_creds (pr_res op) = Some tls \<and>
      tls_Client fl (ocf_TLSCertFile cfg) (ocf_TLSKeyFile cfg) (ocf_TLSCAFile cfg) = Inr tls \<and>
      tls_Certificates tls \<noteq> [] \<and> tls_RootCAs tls \<noteq> []))"
proof (intro conjI impI)
  assume run: "Grpc_server \<in> set (pr_running ip)"
  show "\<exists>cfg tls. inventory_Load env = Inr cfg \<and> rs_creds (pr_res ip) = Some tls \<and>
      tls_Server fl (icf_TLSCertFile cfg) (icf_TLSKeyFile cfg) (icf_TLSCAFile cfg) = Inr tls \<and>
      tls_ClientAuth tls = RequireAndVerifyClientCert \<and> tls_ClientCAs tls \<noteq> []"
  proof (cases "inventory_Load env")
    case (Inl err)
    have "secured (Load_config err) Grpc_server fl ip"
      unfolding ip_def by (rule process_secured) (simp add: inventory_main_def Inl)
    with run show ?thesis by (auto simp: secured_def split: if_splits)
  next
    case (Inr cfg)
    let ?load = "Load_server_tls (icf_TLSCertFile cfg) (icf_TLSKeyFile cfg) (icf_TLSCAFile cfg)"
    have "secured ?load Grpc_server fl ip"
      unfolding ip_def by (rule process_secured) (simp add: inventory_main_def Inr)
    with run have "uses ?load fl (rs_creds (pr_res ip))" by (auto simp: secured_def split: if_splits)
    with Inr show ?thesis
      by (cases "rs_creds (pr_res ip)") (auto simp: tls_Server_def loadCA_def Let_def split: sum.splits if_splits)
  qed
next
  assume run: "Http_server \<in> set (pr_running op)"
  show "\<exists>cfg tls. order_Load env = Inr cfg \<and> rs_creds (pr_res op) = Some tls \<and>
      tls_Client fl (ocf_TLSCertFile cfg) (ocf_TLSKeyFile cfg) (ocf_TLSCAFile cfg) = Inr tls \<and>
      tls_Certificates tls \<noteq> [] \<and> tls_RootCAs tls \<noteq> []"
  proof (cases "order_Load env")
    case (Inl err)
    have "secured (Load_config err) Http_server fl op"
      unfolding op_def by (rule process_secured) (simp add: order_main_def Inl)
    with run show ?thesis by (auto simp: secured_def split: if_splits)
  next
    case (Inr cfg)
    let ?load = "Load_client_tls (ocf_TLSCertFile cfg) (ocf_TLSKeyFile cfg) (ocf_TLSCAFile cfg)"
    have "secured ?load Http_server fl op"
      unfolding op_def by (rule process_secured) (simp add: order_main_def Inr)
    with run have "uses ?load fl (rs_creds (pr_res op))" by (auto simp: secured_def split: if_splits)
    with Inr show ?thesis
      by (cases "rs_creds (pr_res op)") (auto simp: tls_Client_def loadCA_def Let_def split: sum.splits if_splits)
  qed
qed

theorem grpc_is_mutual_tls_witness:
  "\<exists>tls. rs_creds (pr_res (process (inventory_main (\<lambda>k. ''u'') []) sample_files [] (replicate 14 Main))) = Some tls \<and>
     tls_ClientAuth tls = RequireAndVerifyClientCert \<and> tls_ClientCAs tls \<noteq> []"
proof -
  have "Grpc_server \<in> set (pr_running (process (inventory_main (\<lambda>k. ''u'') []) sample_files [] (replicate 14 Main)))"
    by (simp add: run_process inventory_Load_def getEnv_def tls_Server_def loadCA_def)
  with grpc_is_mutual_tls [THEN conjunct1] show ?thesis by blast
qed

text \<open>
  A server that cannot serve does not fail its process: when the gateway's port is taken,
  \<open>ListenAndServe\<close> fails, the error is logged, and \<open>main\<close> shuts down and exits with code 0.
\<close>

theorem server_error_exits_zero:
  "let p = process (gateway_main env) fl [] (replicate 9 Main @ [Breaks Http_server (Driver_Error ''address in use'')] @ replicate 6 Main)
   in pr_exit p = Some 0 \<and> Log_Error ''server error'' [(''error'', ''address in use'')] \<in> set (pr_logs p)"
  by (simp add: run_process broke_def)

end
