(* ===== verification/Copies.thy ===== *)
theory Copies
  imports Metrics Lifecycle
begin

text \<open>
  Packages that every service carries a copy of: \<open>httpx\<close> (\<open>json.go\<close>, \<open>middleware.go\<close>), \<open>metrics/http.go\<close>,
  \<open>tracing\<close>, and for the consumers and the services with a database \<open>events\<close>, \<open>db\<close>, \<open>tlsconfig\<close> and
  \<open>health.go\<close>. The other theories use one translation of each; here every further copy is translated on
  its own. The locale \<open>http_package\<close> is what a service expects of its \<open>httpx\<close> and \<open>metrics\<close>; it is
  interpreted on all five. Shown: every service reports what it sent, and the copies have not drifted
  from the translation the other theorems are about.
\<close>

section \<open>The HTTP packages\<close>

text \<open>\<open>inventory-service\<close>: \<open>httpx/json.go\<close>, \<open>httpx/middleware.go\<close>, \<open>metrics/http.go\<close>; both packages have a recorder of their own.\<close>

definition inventory_WriteJSON :: "int \<Rightarrow> json option \<Rightarrow> rw_call list" where
  "inventory_WriteJSON status v =
     [SetHeader ''Content-Type'' ''application/json'', WriteHeader status] @
     (case v of None \<Rightarrow> [] | Some j \<Rightarrow> [Write (render j @ [CHR 0x0A])])"

definition inventory_WriteError :: "int \<Rightarrow> string \<Rightarrow> rw_call list" where
  "inventory_WriteError status message = inventory_WriteJSON status (Some (JObj [(''error'', JStr message)]))"

fun inventory_httpx_recorder :: "rw_call \<Rightarrow> statusRecorder \<Rightarrow> statusRecorder" where
  "inventory_httpx_recorder (WriteHeader n) r = r\<lparr>rec_status := n, rec_calls := rec_calls r @ [WriteHeader n]\<rparr>"
| "inventory_httpx_recorder c r = r\<lparr>rec_calls := rec_calls r @ [c]\<rparr>"

definition inventory_LoggingMiddleware :: "req_env \<Rightarrow> 's server \<Rightarrow> 's server" where
  "inventory_LoggingMiddleware env next r s =
     (let (r', calls, effs, s') = next r s;
          rec = fold inventory_httpx_recorder calls \<lparr>rec_status = 200, rec_calls = []\<rparr>;
          attrs = [(''method'', req_Method r'), (''path'', req_Path r'),
                   (''status'', Itoa (rec_status rec)), (''duration_ms'', Itoa (env_ms env))];
          attrs' = (case env_trace env of
                      Some tid \<Rightarrow> attrs @ [(''trace_id'', tid)]
                    | None \<Rightarrow> attrs)
      in (r', rec_calls rec, effs @ [Log_Info ''request handled'' attrs'], s'))"

definition inventory_http_metrics :: "metric list" where
  "inventory_http_metrics =
     [NewCounterVec ''http_requests_total'' [''method'', ''path'', ''status''],
      NewHistogramVec ''http_request_duration_seconds'' [''method'', ''path'', ''status'']]"

fun inventory_metrics_recorder :: "rw_call \<Rightarrow> statusRecorder \<Rightarrow> statusRecorder" where
  "inventory_metrics_recorder (WriteHeader n) r = r\<lparr>rec_status := n, rec_calls := rec_calls r @ [WriteHeader n]\<rparr>"
| "inventory_metrics_recorder c r = r\<lparr>rec_calls := rec_calls r @ [c]\<rparr>"

definition inventory_HTTPMiddleware :: "'s server \<Rightarrow> 's server" where
  "inventory_HTTPMiddleware next r s =
     (let (r', calls, effs, s') = next r s;
          rec = fold inventory_metrics_recorder calls \<lparr>rec_status = 200, rec_calls = []\<rparr>;
          path = (if req_Pattern r' = [] then ''unmatched'' else req_Pattern r');
          status = Itoa (rec_status rec);
          labels = [req_Method r', path, status]
      in (r', rec_calls rec,
          effs @ [Counter_Inc ''http_requests_total'' labels,
                  Observe ''http_request_duration_seconds'' labels], s'))"

text \<open>\<open>analytics-service\<close>: \<open>httpx/json.go\<close>, \<open>httpx/middleware.go\<close>, \<open>metrics/http.go\<close>; both packages have a recorder of their own.\<close>

definition analytics_WriteJSON :: "int \<Rightarrow> json option \<Rightarrow> rw_call list" where
  "analytics_WriteJSON status v =
     [SetHeader ''Content-Type'' ''application/json'', WriteHeader status] @
     (case v of None \<Rightarrow> [] | Some j \<Rightarrow> [Write (render j @ [CHR 0x0A])])"

definition analytics_WriteError :: "int \<Rightarrow> string \<Rightarrow> rw_call list" where
  "analytics_WriteError status message = analytics_WriteJSON status (Some (JObj [(''error'', JStr message)]))"

fun analytics_httpx_recorder :: "rw_call \<Rightarrow> statusRecorder \<Rightarrow> statusRecorder" where
  "analytics_httpx_recorder (WriteHeader n) r = r\<lparr>rec_status := n, rec_calls := rec_calls r @ [WriteHeader n]\<rparr>"
| "analytics_httpx_recorder c r = r\<lparr>rec_calls := rec_calls r @ [c]\<rparr>"

definition analytics_LoggingMiddleware :: "req_env \<Rightarrow> 's server \<Rightarrow> 's server" where
  "analytics_LoggingMiddleware env next r s =
     (let (r', calls, effs, s') = next r s;
          rec = fold analytics_httpx_recorder calls \<lparr>rec_status = 200, rec_calls = []\<rparr>;
          attrs = [(''method'', req_Method r'), (''path'', req_Path r'),
                   (''status'', Itoa (rec_status rec)), (''duration_ms'', Itoa (env_ms env))];
          attrs' = (case env_trace env of
                      Some tid \<Rightarrow> attrs @ [(''trace_id'', tid)]
                    | None \<Rightarrow> attrs)
      in (r', rec_calls rec, effs @ [Log_Info ''request handled'' attrs'], s'))"

definition analytics_http_metrics :: "metric list" where
  "analytics_http_metrics =
     [NewCounterVec ''http_requests_total'' [''method'', ''path'', ''status''],
      NewHistogramVec ''http_request_duration_seconds'' [''method'', ''path'', ''status'']]"

fun analytics_metrics_recorder :: "rw_call \<Rightarrow> statusRecorder \<Rightarrow> statusRecorder" where
  "analytics_metrics_recorder (WriteHeader n) r = r\<lparr>rec_status := n, rec_calls := rec_calls r @ [WriteHeader n]\<rparr>"
| "analytics_metrics_recorder c r = r\<lparr>rec_calls := rec_calls r @ [c]\<rparr>"

definition analytics_HTTPMiddleware :: "'s server \<Rightarrow> 's server" where
  "analytics_HTTPMiddleware next r s =
     (let (r', calls, effs, s') = next r s;
          rec = fold analytics_metrics_recorder calls \<lparr>rec_status = 200, rec_calls = []\<rparr>;
          path = (if req_Pattern r' = [] then ''unmatched'' else req_Pattern r');
          status = Itoa (rec_status rec);
          labels = [req_Method r', path, status]
      in (r', rec_calls rec,
          effs @ [Counter_Inc ''http_requests_total'' labels,
                  Observe ''http_request_duration_seconds'' labels], s'))"

text \<open>\<open>notification-service\<close>: \<open>httpx/json.go\<close>, \<open>httpx/middleware.go\<close>, \<open>metrics/http.go\<close>; both packages have a recorder of their own.\<close>

definition notification_WriteJSON :: "int \<Rightarrow> json option \<Rightarrow> rw_call list" where
  "notification_WriteJSON status v =
     [SetHeader ''Content-Type'' ''application/json'', WriteHeader status] @
     (case v of None \<Rightarrow> [] | Some j \<Rightarrow> [Write (render j @ [CHR 0x0A])])"

definition notification_WriteError :: "int \<Rightarrow> string \<Rightarrow> rw_call list" where
  "notification_WriteError status message = notification_WriteJSON status (Some (JObj [(''error'', JStr message)]))"

fun notification_httpx_recorder :: "rw_call \<Rightarrow> statusRecorder \<Rightarrow> statusRecorder" where
  "notification_httpx_recorder (WriteHeader n) r = r\<lparr>rec_status := n, rec_calls := rec_calls r @ [WriteHeader n]\<rparr>"
| "notification_httpx_recorder c r = r\<lparr>rec_calls := rec_calls r @ [c]\<rparr>"

definition notification_LoggingMiddleware :: "req_env \<Rightarrow> 's server \<Rightarrow> 's server" where
  "notification_LoggingMiddleware env next r s =
     (let (r', calls, effs, s') = next r s;
          rec = fold notification_httpx_recorder calls \<lparr>rec_status = 200, rec_calls = []\<rparr>;
          attrs = [(''method'', req_Method r'), (''path'', req_Path r'),
                   (''status'', Itoa (rec_status rec)), (''duration_ms'', Itoa (env_ms env))];
          attrs' = (case env_trace env of
                      Some tid \<Rightarrow> attrs @ [(''trace_id'', tid)]
                    | None \<Rightarrow> attrs)
      in (r', rec_calls rec, effs @ [Log_Info ''request handled'' attrs'], s'))"

definition notification_http_metrics :: "metric list" where
  "notification_http_metrics =
     [NewCounterVec ''http_requests_total'' [''method'', ''path'', ''status''],
      NewHistogramVec ''http_request_duration_seconds'' [''method'', ''path'', ''status'']]"

fun notification_metrics_recorder :: "rw_call \<Rightarrow> statusRecorder \<Rightarrow> statusRecorder" where
  "notification_metrics_recorder (WriteHeader n) r = r\<lparr>rec_status := n, rec_calls := rec_calls r @ [WriteHeader n]\<rparr>"
| "notification_metrics_recorder c r = r\<lparr>rec_calls := rec_calls r @ [c]\<rparr>"

definition notification_HTTPMiddleware :: "'s server \<Rightarrow> 's server" where
  "notification_HTTPMiddleware next r s =
     (let (r', calls, effs, s') = next r s;
          rec = fold notification_metrics_recorder calls \<lparr>rec_status = 200, rec_calls = []\<rparr>;
          path = (if req_Pattern r' = [] then ''unmatched'' else req_Pattern r');
          status = Itoa (rec_status rec);
          labels = [req_Method r', path, status]
      in (r', rec_calls rec,
          effs @ [Counter_Inc ''http_requests_total'' labels,
                  Observe ''http_request_duration_seconds'' labels], s'))"

text \<open>\<open>api-gateway\<close>: \<open>httpx/json.go\<close>, \<open>httpx/middleware.go\<close>, \<open>metrics/http.go\<close>; both packages have a recorder of their own.\<close>

definition gateway_WriteJSON :: "int \<Rightarrow> json option \<Rightarrow> rw_call list" where
  "gateway_WriteJSON status v =
     [SetHeader ''Content-Type'' ''application/json'', WriteHeader status] @
     (case v of None \<Rightarrow> [] | Some j \<Rightarrow> [Write (render j @ [CHR 0x0A])])"

definition gateway_WriteError :: "int \<Rightarrow> string \<Rightarrow> rw_call list" where
  "gateway_WriteError status message = gateway_WriteJSON status (Some (JObj [(''error'', JStr message)]))"

fun gateway_httpx_recorder :: "rw_call \<Rightarrow> statusRecorder \<Rightarrow> statusRecorder" where
  "gateway_httpx_recorder (WriteHeader n) r = r\<lparr>rec_status := n, rec_calls := rec_calls r @ [WriteHeader n]\<rparr>"
| "gateway_httpx_recorder c r = r\<lparr>rec_calls := rec_calls r @ [c]\<rparr>"

definition gateway_LoggingMiddleware :: "req_env \<Rightarrow> 's server \<Rightarrow> 's server" where
  "gateway_LoggingMiddleware env next r s =
     (let (r', calls, effs, s') = next r s;
          rec = fold gateway_httpx_recorder calls \<lparr>rec_status = 200, rec_calls = []\<rparr>;
          attrs = [(''method'', req_Method r'), (''path'', req_Path r'),
                   (''status'', Itoa (rec_status rec)), (''duration_ms'', Itoa (env_ms env))];
          attrs' = (case env_trace env of
                      Some tid \<Rightarrow> attrs @ [(''trace_id'', tid)]
                    | None \<Rightarrow> attrs)
      in (r', rec_calls rec, effs @ [Log_Info ''request handled'' attrs'], s'))"

definition gateway_http_metrics :: "metric list" where
  "gateway_http_metrics =
     [NewCounterVec ''http_requests_total'' [''method'', ''path'', ''status''],
      NewHistogramVec ''http_request_duration_seconds'' [''method'', ''path'', ''status'']]"

fun gateway_metrics_recorder :: "rw_call \<Rightarrow> statusRecorder \<Rightarrow> statusRecorder" where
  "gateway_metrics_recorder (WriteHeader n) r = r\<lparr>rec_status := n, rec_calls := rec_calls r @ [WriteHeader n]\<rparr>"
| "gateway_metrics_recorder c r = r\<lparr>rec_calls := rec_calls r @ [c]\<rparr>"

definition gateway_HTTPMiddleware :: "'s server \<Rightarrow> 's server" where
  "gateway_HTTPMiddleware next r s =
     (let (r', calls, effs, s') = next r s;
          rec = fold gateway_metrics_recorder calls \<lparr>rec_status = 200, rec_calls = []\<rparr>;
          path = (if req_Pattern r' = [] then ''unmatched'' else req_Pattern r');
          status = Itoa (rec_status rec);
          labels = [req_Method r', path, status]
      in (r', rec_calls rec,
          effs @ [Counter_Inc ''http_requests_total'' labels,
                  Observe ''http_request_duration_seconds'' labels], s'))"

section \<open>What a service expects of them\<close>

text \<open>The log line and the metrics of a request answered with status \<open>n\<close>.\<close>

definition request_log :: "req_env \<Rightarrow> request \<Rightarrow> int \<Rightarrow> effect" where
  "request_log env r n =
     Log_Info ''request handled''
       ([(''method'', req_Method r), (''path'', req_Path r), (''status'', Itoa n), (''duration_ms'', Itoa (env_ms env))] @
        (case env_trace env of Some tid \<Rightarrow> [(''trace_id'', tid)] | None \<Rightarrow> []))"

definition request_counts :: "request \<Rightarrow> int \<Rightarrow> effect list" where
  "request_counts r n =
     [Counter_Inc ''http_requests_total'' [req_Method r, path_label r, Itoa n],
      Observe ''http_request_duration_seconds'' [req_Method r, path_label r, Itoa n]]"

locale http_package =
  fixes write_error :: "int \<Rightarrow> string \<Rightarrow> rw_call list"
    and logging :: "req_env \<Rightarrow> 's server \<Rightarrow> 's server"
    and counting :: "'s server \<Rightarrow> 's server"
  assumes error_status: "200 \<le> n \<Longrightarrow> one_status (write_error n m) \<and> sent_status (write_error n m) = n"
    and error_body: "valid_utf8 m \<Longrightarrow> parse_first (sent_body (write_error n m)) = Some (JObj [(''error'', JStr m)])"
    and logs: "next r s = (r', calls, effs, s') \<Longrightarrow> one_status calls \<Longrightarrow>
      logging env next r s = (r', calls, effs @ [request_log env r' (sent_status calls)], s')"
    and counts: "next r s = (r', calls, effs, s') \<Longrightarrow> one_status calls \<Longrightarrow>
      counting next r s = (r', calls, effs @ request_counts r' (sent_status calls), s')"
begin

text \<open>Through both, whatever order they are put in.\<close>

lemma reported:
  assumes "next r s = (r', calls, effs, s')" and "one_status calls"
  shows "logging env (counting next) r s =
    (r', calls, effs @ request_counts r' (sent_status calls) @ [request_log env r' (sent_status calls)], s')"
  using logs [of "counting next" r s, OF counts [of "next" r s, OF assms] assms(2)] by simp

lemma error_reported:
  assumes "next r s = (r', write_error n m, effs, s')" and "200 \<le> n" and "valid_utf8 m"
  shows "\<exists>calls. logging env (counting next) r s = (r', calls, effs @ request_counts r' n @ [request_log env r' n], s') \<and>
    sent_status calls = n \<and> parse_first (sent_body calls) = Some (JObj [(''error'', JStr m)])"
  using reported [of "next" r s, OF assms(1)] error_status [OF assms(2)] error_body [OF assms(3)] by simp

end

lemma reports_what_was_sent:
  assumes "next r s = (r', calls, effs, s')" and "one_status calls"
  shows "LoggingMiddleware env next r s = (r', calls, effs @ [request_log env r' (sent_status calls)], s')"
    and "HTTPMiddleware next r s = (r', calls, effs @ request_counts r' (sent_status calls), s')"
  using assms recorder_sees_sent_status [OF assms(2)]
  by (auto simp: LoggingMiddleware_def HTTPMiddleware_def request_log_def request_counts_def path_label_def Let_def
      split: option.splits)

interpretation order_http: http_package WriteError LoggingMiddleware HTTPMiddleware
  by unfold_locales (simp_all add: WriteError_body reports_what_was_sent)

text \<open>The copies have not drifted.\<close>

lemma inventory_same [simp]:
  "inventory_WriteJSON = WriteJSON" "inventory_WriteError = WriteError" "inventory_LoggingMiddleware = LoggingMiddleware"
  "inventory_HTTPMiddleware = HTTPMiddleware" "inventory_http_metrics = http_metrics"
proof -
  have [simp]: "inventory_httpx_recorder = recorder_call"
  proof (intro ext)
    show "inventory_httpx_recorder c r = recorder_call c r" for c r by (cases c) simp_all
  qed
  have [simp]: "inventory_metrics_recorder = recorder_call"
  proof (intro ext)
    show "inventory_metrics_recorder c r = recorder_call c r" for c r by (cases c) simp_all
  qed
  show "inventory_WriteJSON = WriteJSON" "inventory_WriteError = WriteError" "inventory_LoggingMiddleware = LoggingMiddleware"
    "inventory_HTTPMiddleware = HTTPMiddleware" "inventory_http_metrics = http_metrics"
    by (intro ext, simp add: inventory_WriteJSON_def WriteJSON_def inventory_WriteError_def WriteError_def
      inventory_LoggingMiddleware_def LoggingMiddleware_def inventory_HTTPMiddleware_def HTTPMiddleware_def
      record_calls_def new_recorder_def)+ (simp add: inventory_http_metrics_def http_metrics_def)
qed

interpretation inventory_http: http_package inventory_WriteError inventory_LoggingMiddleware inventory_HTTPMiddleware
  by (simp only: inventory_same) (rule order_http.http_package_axioms)

lemma analytics_same [simp]:
  "analytics_WriteJSON = WriteJSON" "analytics_WriteError = WriteError" "analytics_LoggingMiddleware = LoggingMiddleware"
  "analytics_HTTPMiddleware = HTTPMiddleware" "analytics_http_metrics = http_metrics"
proof -
  have [simp]: "analytics_httpx_recorder = recorder_call"
  proof (intro ext)
    show "analytics_httpx_recorder c r = recorder_call c r" for c r by (cases c) simp_all
  qed
  have [simp]: "analytics_metrics_recorder = recorder_call"
  proof (intro ext)
    show "analytics_metrics_recorder c r = recorder_call c r" for c r by (cases c) simp_all
  qed
  show "analytics_WriteJSON = WriteJSON" "analytics_WriteError = WriteError" "analytics_LoggingMiddleware = LoggingMiddleware"
    "analytics_HTTPMiddleware = HTTPMiddleware" "analytics_http_metrics = http_metrics"
    by (intro ext, simp add: analytics_WriteJSON_def WriteJSON_def analytics_WriteError_def WriteError_def
      analytics_LoggingMiddleware_def LoggingMiddleware_def analytics_HTTPMiddleware_def HTTPMiddleware_def
      record_calls_def new_recorder_def)+ (simp add: analytics_http_metrics_def http_metrics_def)
qed

interpretation analytics_http: http_package analytics_WriteError analytics_LoggingMiddleware analytics_HTTPMiddleware
  by (simp only: analytics_same) (rule order_http.http_package_axioms)

lemma notification_same [simp]:
  "notification_WriteJSON = WriteJSON" "notification_WriteError = WriteError" "notification_LoggingMiddleware = LoggingMiddleware"
  "notification_HTTPMiddleware = HTTPMiddleware" "notification_http_metrics = http_metrics"
proof -
  have [simp]: "notification_httpx_recorder = recorder_call"
  proof (intro ext)
    show "notification_httpx_recorder c r = recorder_call c r" for c r by (cases c) simp_all
  qed
  have [simp]: "notification_metrics_recorder = recorder_call"
  proof (intro ext)
    show "notification_metrics_recorder c r = recorder_call c r" for c r by (cases c) simp_all
  qed
  show "notification_WriteJSON = WriteJSON" "notification_WriteError = WriteError" "notification_LoggingMiddleware = LoggingMiddleware"
    "notification_HTTPMiddleware = HTTPMiddleware" "notification_http_metrics = http_metrics"
    by (intro ext, simp add: notification_WriteJSON_def WriteJSON_def notification_WriteError_def WriteError_def
      notification_LoggingMiddleware_def LoggingMiddleware_def notification_HTTPMiddleware_def HTTPMiddleware_def
      record_calls_def new_recorder_def)+ (simp add: notification_http_metrics_def http_metrics_def)
qed

interpretation notification_http: http_package notification_WriteError notification_LoggingMiddleware notification_HTTPMiddleware
  by (simp only: notification_same) (rule order_http.http_package_axioms)

lemma gateway_same [simp]:
  "gateway_WriteJSON = WriteJSON" "gateway_WriteError = WriteError" "gateway_LoggingMiddleware = LoggingMiddleware"
  "gateway_HTTPMiddleware = HTTPMiddleware" "gateway_http_metrics = http_metrics"
proof -
  have [simp]: "gateway_httpx_recorder = recorder_call"
  proof (intro ext)
    show "gateway_httpx_recorder c r = recorder_call c r" for c r by (cases c) simp_all
  qed
  have [simp]: "gateway_metrics_recorder = recorder_call"
  proof (intro ext)
    show "gateway_metrics_recorder c r = recorder_call c r" for c r by (cases c) simp_all
  qed
  show "gateway_WriteJSON = WriteJSON" "gateway_WriteError = WriteError" "gateway_LoggingMiddleware = LoggingMiddleware"
    "gateway_HTTPMiddleware = HTTPMiddleware" "gateway_http_metrics = http_metrics"
    by (intro ext, simp add: gateway_WriteJSON_def WriteJSON_def gateway_WriteError_def WriteError_def
      gateway_LoggingMiddleware_def LoggingMiddleware_def gateway_HTTPMiddleware_def HTTPMiddleware_def
      record_calls_def new_recorder_def)+ (simp add: gateway_http_metrics_def http_metrics_def)
qed

interpretation gateway_http: http_package gateway_WriteError gateway_LoggingMiddleware gateway_HTTPMiddleware
  by (simp only: gateway_same) (rule order_http.http_package_axioms)

text \<open>Each service with its own \<open>WriteError\<close> and middlewares: order, inventory, analytics, notification, gateway.\<close>

definition http_packages ::
  "((int \<Rightarrow> string \<Rightarrow> rw_call list) \<times> (req_env \<Rightarrow> 's server \<Rightarrow> 's server) \<times> ('s server \<Rightarrow> 's server)) list" where
  "http_packages =
     [(WriteError, LoggingMiddleware, HTTPMiddleware),
      (inventory_WriteError, inventory_LoggingMiddleware, inventory_HTTPMiddleware),
      (analytics_WriteError, analytics_LoggingMiddleware, analytics_HTTPMiddleware),
      (notification_WriteError, notification_LoggingMiddleware, notification_HTTPMiddleware),
      (gateway_WriteError, gateway_LoggingMiddleware, gateway_HTTPMiddleware)]"

text \<open>
  C31. Every service reports the errors it answers: whatever handler answers with its service's \<open>WriteError\<close>,
  that service's own copies of the middlewares pass the answer on, with the status and a JSON body from which
  the client reads the message, and add to the handler's log and metrics one line and one count of each
  metric with that status.
\<close>

theorem every_service_reports_its_errors:
  assumes "(write_error, logging, counting) \<in> set http_packages"
    and "next r s = (r', write_error n m, effs, s')" and "200 \<le> n" and "valid_utf8 m"
  shows "\<exists>calls. logging env (counting next) r s = (r', calls, effs @ request_counts r' n @ [request_log env r' n], s') \<and>
    sent_status calls = n \<and> parse_first (sent_body calls) = Some (JObj [(''error'', JStr m)])"
proof -
  have "http_package write_error logging counting"
    using assms(1) order_http.http_package_axioms by (auto simp only: http_packages_def set_simps insert_iff empty_iff prod.inject
      inventory_same analytics_same notification_same gateway_same)
  from http_package.error_reported [OF this, of "next" r s, OF assms(2-4)] show ?thesis .
qed

abbreviation sample_bare_request :: request where
  "sample_bare_request \<equiv> \<lparr>req_Method = ''GET'', req_Path = ''/orders'', req_Pattern = [], req_PathValues = [], req_Body = []\<rparr>"

theorem every_service_reports_its_errors_witness:
  "\<exists>calls. gateway_LoggingMiddleware \<lparr>env_ms = 5, env_trace = None\<rparr>
       (gateway_HTTPMiddleware (\<lambda>r s. (r, gateway_WriteError 502 ''bad gateway'', [], s)))
       sample_bare_request (7 :: nat) =
     (sample_bare_request, calls,
      [Counter_Inc ''http_requests_total'' [''GET'', ''unmatched'', ''502''],
       Observe ''http_request_duration_seconds'' [''GET'', ''unmatched'', ''502''],
       Log_Info ''request handled'' [(''method'', ''GET''), (''path'', ''/orders''), (''status'', ''502''), (''duration_ms'', ''5'')]], 7) \<and>
     sent_status calls = 502 \<and> parse_first (sent_body calls) = Some (JObj [(''error'', JStr ''bad gateway'')])"
proof -
  have "(gateway_WriteError, gateway_LoggingMiddleware, gateway_HTTPMiddleware) \<in> set (http_packages :: (_ \<times> _ \<times> (nat server \<Rightarrow> _)) list)"
    by (simp add: http_packages_def)
  moreover have "valid_utf8 ''bad gateway''" by code_simp
  moreover have "Itoa 502 = ''502''" "Itoa 5 = ''5''" by code_simp+
  ultimately show ?thesis
    using every_service_reports_its_errors [of gateway_WriteError gateway_LoggingMiddleware gateway_HTTPMiddleware
        "\<lambda>r s. (r, gateway_WriteError 502 ''bad gateway'', [], s)" sample_bare_request "7 :: nat" sample_bare_request 502 "''bad gateway''" "[]" 7
        "\<lparr>env_ms = 5, env_trace = None\<rparr>"]
    by (simp add: request_counts_def request_log_def path_label_def)
qed

section \<open>The packages of the consumers\<close>

text \<open>The headers as \<open>carrier.go\<close> of each consumer adapts them.\<close>

definition analytics_carrier_Get :: "header \<Rightarrow> string \<Rightarrow> string" where
  "analytics_carrier_Get h key =
     (let values = (case map_of h key of None \<Rightarrow> [] | Some vs \<Rightarrow> vs)
      in if length values = 0 then [] else values ! 0)"

definition analytics_carrier_Set :: "string \<Rightarrow> string \<Rightarrow> header \<Rightarrow> header" where
  "analytics_carrier_Set key v h = AList.update key [v] h"

definition analytics_carrier_Keys :: "header \<Rightarrow> string list" where
  "analytics_carrier_Keys h = map fst h"

definition notification_carrier_Get :: "header \<Rightarrow> string \<Rightarrow> string" where
  "notification_carrier_Get h key =
     (let values = (case map_of h key of None \<Rightarrow> [] | Some vs \<Rightarrow> vs)
      in if length values = 0 then [] else values ! 0)"

definition notification_carrier_Set :: "string \<Rightarrow> string \<Rightarrow> header \<Rightarrow> header" where
  "notification_carrier_Set key v h = AList.update key [v] h"

definition notification_carrier_Keys :: "header \<Rightarrow> string list" where
  "notification_carrier_Keys h = map fst h"

text \<open>\<open>subscriber.go\<close> of notification-service: its names, its shape of the event, its connection and its callback.\<close>

definition notification_StreamName :: string where
  "notification_StreamName = ''ORDERS''"

definition notification_SubjectCreated :: string where
  "notification_SubjectCreated = ''orders.created''"

definition notification_put_order_created :: "string \<Rightarrow> json \<Rightarrow> order_created \<Rightarrow> order_created option" where
  "notification_put_order_created f v e =
     (if f = ''order_id'' then map_option (\<lambda>x. e\<lparr>oc_OrderID := x\<rparr>) (put_string v (oc_OrderID e))
      else if f = ''sku'' then map_option (\<lambda>x. e\<lparr>oc_SKU := x\<rparr>) (put_string v (oc_SKU e))
      else if f = ''quantity'' then map_option (\<lambda>x. e\<lparr>oc_Quantity := x\<rparr>) (put_int v (oc_Quantity e))
      else if f = ''status'' then map_option (\<lambda>x. e\<lparr>oc_Status := x\<rparr>) (put_string v (oc_Status e))
      else map_option (\<lambda>x. e\<lparr>oc_CreatedAt := x\<rparr>) (put_time v (oc_CreatedAt e)))"

definition notification_unmarshal :: "string \<Rightarrow> go_error + order_created" where
  "notification_unmarshal =
     json_Unmarshal [''order_id'', ''sku'', ''quantity'', ''status'', ''created_at'']
       notification_put_order_created zero_order_created"

definition notification_Connect :: "string \<Rightarrow> res \<Rightarrow> go_error option \<times> res" where
  "notification_Connect natsURL r =
     (case lib_call ''nats.Connect'' [natsURL] r of
        (Some err, r) \<Rightarrow> (Some (Wrapped ''connect to nats'' err), r)
      | (None, r) \<Rightarrow> (None, open_handle Nats r))"

definition notification_on_message ::
  "'c otel \<Rightarrow> 'c \<Rightarrow> ('c, 's) event_handler \<Rightarrow> nats_msg \<Rightarrow> 's \<Rightarrow> reply option \<times> effect list \<times> 's" where
  "notification_on_message otel ctx handle msg s =
     (let msgCtx = ot_Extract otel ctx (notification_carrier_Get (msg_Header msg));
          msgCtx = ot_Start otel msgCtx (''process '' @ notification_SubjectCreated)
      in case notification_unmarshal (msg_Data msg) of
           Inl err \<Rightarrow>
             (Some Nak, [Log_Error ''failed to decode order created event'' [(''error'', err_text err)]], s)
         | Inr evt \<Rightarrow>
             (case handle msgCtx evt s of
                (None, effs, s') \<Rightarrow> (None, effs, s')
              | (Some (Some err), effs, s') \<Rightarrow>
                  (Some Nak,
                   effs @ [Log_Error ''failed to handle order created event''
                             [(''order_id'', oc_OrderID evt), (''error'', err_text err)]], s')
              | (Some None, effs, s') \<Rightarrow> (Some Ack, effs, s')))"

text \<open>The deliveries of its durable consumer, each handed to its callback.\<close>

fun notification_deliveries ::
  "'c otel \<Rightarrow> 'c \<Rightarrow> ('c, 's) event_handler \<Rightarrow> nats_msg list \<Rightarrow> delivery list \<Rightarrow> 's consumer \<Rightarrow> effect list \<times> 's consumer" where
  "notification_deliveries otel ctx handle msgs [] c = ([], c)"
| "notification_deliveries otel ctx handle msgs ((i, arrives) # ds) c =
     (let (effs, c') =
        (if cn_up c \<and> i < length msgs \<and> i \<notin> set (cn_acked c) then
           (case notification_on_message otel ctx handle (msgs ! i) (cn_app c) of
              (None, effs, s') \<Rightarrow> (effs, c\<lparr>cn_app := s', cn_up := False\<rparr>)
            | (Some Ack, effs, s') \<Rightarrow>
                (effs, c\<lparr>cn_app := s', cn_acked := (if arrives then i # cn_acked c else cn_acked c)\<rparr>)
            | (Some Nak, effs, s') \<Rightarrow> (effs, c\<lparr>cn_app := s'\<rparr>))
         else ([], c));
        (effs', c'') = notification_deliveries otel ctx handle msgs ds c'
      in (effs @ effs', c''))"

definition notification_Consume ::
  "'n jetstream \<Rightarrow> 'c otel \<Rightarrow> 'c \<Rightarrow> string \<Rightarrow> ('c, 's) event_handler \<Rightarrow> nats_msg list \<Rightarrow> delivery list \<Rightarrow>
   'n \<Rightarrow> 's consumer \<Rightarrow> go_error option \<times> effect list \<times> 'n \<times> 's consumer" where
  "notification_Consume js otel ctx durableName handle msgs ds n c =
     (case js_New js n of
        (Some err, n) \<Rightarrow> (Some (Wrapped ''create jetstream context'' err), [], n, c)
      | (None, n) \<Rightarrow>
          (case js_CreateOrUpdateStream js notification_StreamName [notification_SubjectCreated] n of
             (Some err, n) \<Rightarrow> (Some (Wrapped ''ensure stream'' err), [], n, c)
           | (None, n) \<Rightarrow>
               (case js_CreateOrUpdateConsumer js durableName notification_SubjectCreated n of
                  (Some err, n) \<Rightarrow> (Some (Wrapped ''create consumer'' err), [], n, c)
                | (None, n) \<Rightarrow>
                    (case js_Consume js n of
                       (Some err, n) \<Rightarrow> (Some (Wrapped ''start consuming'' err), [], n, c)
                     | (None, n) \<Rightarrow>
                         let (effs, c') = notification_deliveries otel ctx handle msgs ds c
                         in (None, effs, js_Stop js n, c')))))"

lemma notification_names [simp]: "notification_StreamName = StreamName" "notification_SubjectCreated = SubjectCreated"
  by (simp_all add: notification_StreamName_def notification_SubjectCreated_def StreamName_def SubjectCreated_def)

lemma notification_unmarshal_same: "notification_unmarshal = unmarshal_order_created"
proof -
  have "notification_put_order_created = put_order_created"
    by (intro ext) (simp add: notification_put_order_created_def put_order_created_def)
  then show ?thesis by (simp add: notification_unmarshal_def unmarshal_order_created_def)
qed

lemma consumer_carriers_same:
  "analytics_carrier_Get = carrier_Get" "analytics_carrier_Set = carrier_Set" "analytics_carrier_Keys = carrier_Keys"
  "notification_carrier_Get = carrier_Get" "notification_carrier_Set = carrier_Set" "notification_carrier_Keys = carrier_Keys"
  by (intro ext, simp add: analytics_carrier_Get_def analytics_carrier_Set_def analytics_carrier_Keys_def
      notification_carrier_Get_def notification_carrier_Set_def notification_carrier_Keys_def
      carrier_Get_def carrier_Set_def carrier_Keys_def)+

lemma notification_on_message_same: "notification_on_message = on_message"
  by (intro ext) (simp add: notification_on_message_def on_message_def notification_unmarshal_same consumer_carriers_same)

lemma notification_deliveries_same: "notification_deliveries otel ctx handle msgs ds c = run_deliveries otel ctx handle msgs ds c"
proof (induction ds arbitrary: c)
  case (Cons d ds)
  obtain i arrives where "d = (i, arrives)" by force
  then show ?case
    by (simp only:) (unfold notification_deliveries.simps run_deliveries.simps deliver_def notification_on_message_same
      Cons.IH Let_def prod.case, rule refl)
qed simp

text \<open>
  What notification-service's own \<open>Consume\<close> does is what the theorems about deliveries speak of.
\<close>

theorem notification_Consume_same:
  "notification_Consume = (Consume :: 'n jetstream \<Rightarrow> 'c otel \<Rightarrow> 'c \<Rightarrow> string \<Rightarrow> ('c, 's) event_handler \<Rightarrow> _)"
  "notification_Connect = subscriber_Connect"
proof -
  show "notification_Consume = (Consume :: 'n jetstream \<Rightarrow> 'c otel \<Rightarrow> 'c \<Rightarrow> string \<Rightarrow> ('c, 's) event_handler \<Rightarrow> _)"
    by (intro ext) (unfold notification_Consume_def Consume_def notification_deliveries_same notification_names, rule refl)
  show "notification_Connect = subscriber_Connect"
    by (intro ext) (simp add: notification_Connect_def subscriber_Connect_def)
qed

section \<open>Tracing, databases, TLS, health\<close>

definition inventory_tracing_Init :: "string \<Rightarrow> string \<Rightarrow> res \<Rightarrow> go_error option \<times> res" where
  "inventory_tracing_Init serviceName otlpEndpoint r =
     (case lib_call ''otlptracegrpc.New'' [otlpEndpoint] r of
        (Some err, r) \<Rightarrow> (Some (Wrapped ''create otlp exporter'' err), r)
      | (None, r) \<Rightarrow>
          (case lib_call ''resource.Merge'' [serviceName] (open_handle Tracing r) of
             (Some err, r) \<Rightarrow> (Some (Wrapped ''merge resource'' err), r)
           | (None, r) \<Rightarrow> (None, r)))"

definition analytics_tracing_Init :: "string \<Rightarrow> string \<Rightarrow> res \<Rightarrow> go_error option \<times> res" where
  "analytics_tracing_Init serviceName otlpEndpoint r =
     (case lib_call ''otlptracegrpc.New'' [otlpEndpoint] r of
        (Some err, r) \<Rightarrow> (Some (Wrapped ''create otlp exporter'' err), r)
      | (None, r) \<Rightarrow>
          (case lib_call ''resource.Merge'' [serviceName] (open_handle Tracing r) of
             (Some err, r) \<Rightarrow> (Some (Wrapped ''merge resource'' err), r)
           | (None, r) \<Rightarrow> (None, r)))"

definition notification_tracing_Init :: "string \<Rightarrow> string \<Rightarrow> res \<Rightarrow> go_error option \<times> res" where
  "notification_tracing_Init serviceName otlpEndpoint r =
     (case lib_call ''otlptracegrpc.New'' [otlpEndpoint] r of
        (Some err, r) \<Rightarrow> (Some (Wrapped ''create otlp exporter'' err), r)
      | (None, r) \<Rightarrow>
          (case lib_call ''resource.Merge'' [serviceName] (open_handle Tracing r) of
             (Some err, r) \<Rightarrow> (Some (Wrapped ''merge resource'' err), r)
           | (None, r) \<Rightarrow> (None, r)))"

definition gateway_tracing_Init :: "string \<Rightarrow> string \<Rightarrow> res \<Rightarrow> go_error option \<times> res" where
  "gateway_tracing_Init serviceName otlpEndpoint r =
     (case lib_call ''otlptracegrpc.New'' [otlpEndpoint] r of
        (Some err, r) \<Rightarrow> (Some (Wrapped ''create otlp exporter'' err), r)
      | (None, r) \<Rightarrow>
          (case lib_call ''resource.Merge'' [serviceName] (open_handle Tracing r) of
             (Some err, r) \<Rightarrow> (Some (Wrapped ''merge resource'' err), r)
           | (None, r) \<Rightarrow> (None, r)))"

text \<open>order-service's \<open>db.go\<close>, \<open>health.go\<close> and the CA of its \<open>tlsconfig.go\<close>; notification-service's \<open>health.go\<close>.\<close>

definition order_NewPool :: "string \<Rightarrow> res \<Rightarrow> go_error option \<times> res" where
  "order_NewPool databaseURL r =
     (case lib_call ''pgxpool.New'' [databaseURL] r of
        (Some err, r) \<Rightarrow> (Some (Wrapped ''create pool'' err), r)
      | (None, r) \<Rightarrow>
          (case lib_call ''pool.Ping'' [] (open_handle Pool r) of
             (Some err, r) \<Rightarrow> (Some (Wrapped ''ping database'' err), close_handle Pool r)
           | (None, r) \<Rightarrow> (None, r)))"

definition order_ApplySchema :: "string \<Rightarrow> res \<Rightarrow> go_error option \<times> res" where
  "order_ApplySchema schemaSQL r =
     (case lib_call ''pool.Exec'' [schemaSQL] r of
        (Some err, r) \<Rightarrow> (Some (Wrapped ''apply schema'' err), r)
      | (None, r) \<Rightarrow> (None, r))"

definition order_loadCA :: "files \<Rightarrow> string \<Rightarrow> go_error + string list" where
  "order_loadCA fl caFile =
     (case fl_ReadFile fl caFile of
        Inl err \<Rightarrow> Inl (Wrapped ''read ca cert'' err)
      | Inr pem \<Rightarrow>
          (let pool = fl_PEM fl pem
           in if pool = []
              then Inl (Driver_Error (''parse ca cert '' @ fl_q fl caFile @ '': no valid certificates found''))
              else Inr pool))"

definition order_HealthHandler :: "('s \<Rightarrow> go_error option \<times> 's) \<Rightarrow> 's endpoint" where
  "order_HealthHandler ping r s =
     (case ping s of
        (Some e, s') \<Rightarrow> (WriteJSON 503 (Some (JObj [(''status'', JStr ''unavailable'')])), [], s')
      | (None, s') \<Rightarrow> (WriteJSON 200 (Some (JObj [(''status'', JStr ''ok'')])), [], s'))"

definition notification_HealthHandler :: "('s \<Rightarrow> bool) \<Rightarrow> 's endpoint" where
  "notification_HealthHandler connected r s =
     (if \<not> connected s
      then (notification_WriteJSON 503 (Some (JObj [(''status'', JStr ''unavailable'')])), [], s)
      else (notification_WriteJSON 200 (Some (JObj [(''status'', JStr ''ok'')])), [], s))"

lemma constructors_same:
  "inventory_tracing_Init = tracing_Init" "analytics_tracing_Init = tracing_Init"
  "notification_tracing_Init = tracing_Init" "gateway_tracing_Init = tracing_Init"
  "order_NewPool = NewPool" "order_ApplySchema = ApplySchema" "order_loadCA = loadCA"
  by (intro ext, simp add: inventory_tracing_Init_def analytics_tracing_Init_def notification_tracing_Init_def
      gateway_tracing_Init_def tracing_Init_def order_NewPool_def NewPool_def order_ApplySchema_def ApplySchema_def
      order_loadCA_def loadCA_def)+

lemma health_handlers_same:
  "order_HealthHandler = (HealthHandler :: ('s \<Rightarrow> _) \<Rightarrow> _)" "notification_HealthHandler = (nats_HealthHandler :: ('s \<Rightarrow> _) \<Rightarrow> _)"
  by (intro ext, simp add: order_HealthHandler_def HealthHandler_def)
    (intro ext, simp add: notification_HealthHandler_def nats_HealthHandler_def)

end
