(* ===== verification/EndToEnd.thy ===== *)
theory EndToEnd
  imports SideBySide Copies
begin

text \<open>
  The consumers beside everything else: analytics-service and notification-service take messages from the
  stream while requests, relays and restocks run (\<open>concurrent\<close>), acknowledgements get lost, and
  analytics-service restarts with its totals at zero. Shown, at every moment: what was confirmed is
  stored, nothing is confirmed twice while acknowledgements arrive, and \<open>/stats\<close> shows the number and
  the quantities of some of the stored orders.
\<close>

section \<open>What only grows\<close>

lemma stream_store_grows: "\<exists>new. stream (stream_store m b) = stream b @ new"
  by (simp add: stream_store_def)

lemma Publish_grows:
  assumes "Publish otel ctx s p i b = (r, b')"
  shows "\<exists>new. stream b' = stream b @ new"
proof -
  obtain m where "b' = snd (js_PublishMsg m b)" using Publish_eq [of otel ctx s p i b] assms by auto
  then show ?thesis
    by (auto simp: js_PublishMsg_def stream_store_def Let_def split: list.splits prod.splits io.splits)
qed

lemma relay_step_grows:
  assumes "relay_step otel jsonb p (d, b) = (p', d', b')"
  shows "\<exists>new. stream b' = stream b @ new"
proof (cases "(otel, jsonb, p, d, b)" rule: relay_step.cases)
  case (3 otel1 jsonb1 ctx evt evts log d1 b1)
  obtain r b2 where p: "publishOne otel (Publish otel) ctx evt b = (r, b2)" by force
  then have "b' = b2" using 3 assms by (auto split: option.splits)
  with p Publish_grows show ?thesis unfolding publishOne_def by (auto simp: Let_def split: if_splits)
qed (use assms in \<open>auto split: sum.splits prod.splits option.splits\<close>)

text \<open>The tables a request leaves: only its commit adds an order, under an id that was free.\<close>

lemma request_step_orders:
  assumes "request_step srv otel p (n, d) = (p', n', d')" and "uncommitted (tables d) (Request p)"
  shows "orders (tables d) \<subseteq>\<^sub>m orders (tables d')"
proof (cases p)
  case (Reserved env req effs)
  with assms(1) have "tables d' = tables d"
    by (auto simp: Let_def split: option.splits prod.splits sum.splits dest: tx_begin_Inr tx_begin_Inl)
  then show ?thesis by simp
next
  case (Begun ord evt effs)
  obtain r tx d1 where x: "shared_exec (insert_order ord) (note_order ord) no_writes d = ((r, tx), d1)" by (metis prod.collapse)
  with assms(1) Begun have "d' = d1" by (auto split: option.splits)
  with shared_exec_order(1) [OF x] show ?thesis by simp
next
  case (Order_in ord evt tx effs)
  let ?tp = "if evt_TraceParent evt \<noteq> [] then Some (evt_TraceParent evt) else None"
  obtain r tx' d1 where x: "shared_exec (insert_event (evt_Subject evt) (evt_Payload evt) ?tp) note_row tx d = ((r, tx'), d1)"
    by (metis prod.collapse)
  with assms(1) Order_in have "d' = d1" by (auto simp: Let_def split: option.splits)
  with shared_exec_event(1) [OF x] show ?thesis by (simp add: nothing_new_def)
next
  case (Event_in ord evt tx effs)
  obtain r d1 where x: "shared_commit tx d = (r, d1)" by force
  with assms(1) Event_in have "d' = d1" by (auto split: option.splits)
  moreover from x have "tables d1 = tables d \<or> tables d1 = tx_view tx (tables d)"
    by (auto simp: shared_commit_def split: prod.splits)
  moreover from assms(2) Event_in have "orders (tables d) \<subseteq>\<^sub>m orders (tx_view tx (tables d))"
    by (auto simp: tx_view_def uncommitted_def keys_def map_le_def split: option.splits)
  ultimately show ?thesis by auto
qed (use assms(1) in \<open>auto simp: Let_def split: sum.splits prod.splits if_splits\<close>)

lemma process_step_grows:
  assumes "process_step S p w = (p', left, w')" and "uncommitted (sh_db w) p"
    and "side_by_side (sg_jsonb S) ps (sh_db w) (broker_sent (snd w))" and "i < length ps" and "ps ! i = p"
    and "setting_ok S" and "set (recent (snd w)) \<subseteq> msg_id ` set (stream (snd w))"
  shows "orders (sh_db w) \<subseteq>\<^sub>m orders (sh_db w') \<and> (\<exists>new. stream (snd w') = stream (snd w) @ new)"
proof -
  obtain n d b where w: "w = ((n, d), b)" by (metis prod.collapse)
  show ?thesis
  proof (cases p)
    case (Request q)
    show ?thesis
    proof (cases "\<exists>env req a calls retries. q = Reserving env req a calls retries")
      case True
      with assms(1) w Request show ?thesis by (auto split: prod.splits)
    next
      case False
      with assms(1) w Request obtain q' n' d' where
        r: "request_step (inventory_service_grpc (sg_redis S)) (sg_otel S) q (n, d) = (q', n', d')"
        and "w' = ((n', d'), b)" by (cases q) (auto split: prod.splits)
      with request_step_orders [OF r] assms(2) w Request show ?thesis by simp
    qed
  next
    case (Relaying q)
    with assms(1) w obtain q' d' b' where r: "relay_step (sg_otel S) (sg_jsonb S) q (d, b) = (q', d', b')"
      and "w' = ((n, d'), b')" by (auto split: prod.splits)
    with relay_moves [OF r _ assms(4)] relay_step_grows [OF r] assms(3,5-7) Relaying w show ?thesis
      by (simp add: setting_ok_def)
  next
    case (Calling env req a calls retries q)
    with assms(1) w show ?thesis by (cases q) (auto split: prod.splits)
  next
    case (Serving q)
    with assms(1) w show ?thesis by (auto split: prod.splits)
  qed
qed

lemma concurrent_grows:
  assumes "concurrent S (ps, w) (ps', w')" and "setting_ok S" and "concurrent_inv S ps w"
  shows "orders (sh_db w) \<subseteq>\<^sub>m orders (sh_db w') \<and> (\<exists>new. stream (snd w') = stream (snd w) @ new)"
  using assms(1)
proof (cases rule: concurrent.cases)
  case (moves i p left)
  from assms(3) have I: "side_by_side (sg_jsonb S) ps (sh_db w) (broker_sent (snd w))"
    "set (recent (snd w)) \<subseteq> msg_id ` set (stream (snd w))" by (simp_all add: concurrent_inv_def)
  then have "uncommitted (sh_db w) (ps ! i)" using moves by (simp add: side_by_side_def list_all_length)
  with process_step_grows [OF _ this I(1) _ refl assms(2) I(2)] moves show ?thesis by blast
next
  case (stops i)
  then show ?thesis by simp
qed

section \<open>Deliveries side by side\<close>

record ('c, 'r) whole =
  wh_processes :: "'c process list"
  wh_shared :: "'r shared"
  wh_analytics :: "stats consumer"
  wh_notification :: "unit consumer"
  wh_sent :: "effect list"

abbreviation wh_stream :: "('c, 'r) whole \<Rightarrow> nats_msg list" where
  "wh_stream x \<equiv> stream (snd (wh_shared x))"

abbreviation wh_orders :: "('c, 'r) whole \<Rightarrow> string \<rightharpoonup> order" where
  "wh_orders x \<equiv> orders (sh_db (wh_shared x))"

text \<open>
  A step: one of \<open>concurrent\<close>; a delivery of any message of the stream to one of the consumers, whose
  acknowledgement may be lost unless \<open>reliable\<close>; analytics-service going down and starting again.
\<close>

inductive goes_on :: "('c, 'r) setting \<Rightarrow> bool \<Rightarrow> ('c, 'r) whole \<Rightarrow> ('c, 'r) whole \<Rightarrow> bool" for S reliable where
  works: "concurrent S (wh_processes x, wh_shared x) (ps, w) \<Longrightarrow>
    goes_on S reliable x (x\<lparr>wh_processes := ps, wh_shared := w\<rparr>)"
| counts: "(reliable \<longrightarrow> snd dl) \<Longrightarrow>
    deliver (sg_otel S) ctx (analytics_handleOrderCreated (sg_otel S)) (wh_stream x) dl (wh_analytics x) = (effs, c) \<Longrightarrow>
    goes_on S reliable x (x\<lparr>wh_analytics := c\<rparr>)"
| confirms: "(reliable \<longrightarrow> snd dl) \<Longrightarrow>
    notification_deliveries (sg_otel S) ctx (notification_handleOrderCreated (sg_otel S)) (wh_stream x) [dl] (wh_notification x) = (effs, c) \<Longrightarrow>
    goes_on S reliable x (x\<lparr>wh_notification := c, wh_sent := wh_sent x @ effs\<rparr>)"
| restarts: "goes_on S reliable x (x\<lparr>wh_analytics := (wh_analytics x)\<lparr>cn_app := zero_stats, cn_up := True\<rparr>\<rparr>)"

inductive_cases goes_onE: "goes_on S reliable x x'"

definition begins :: "('c, 'r) whole \<Rightarrow> bool" where
  "begins x \<longleftrightarrow> list_all fresh_process (wh_processes x) \<and> quiet (wh_shared x) \<and>
     wh_analytics x = fresh zero_stats \<and> wh_notification x = fresh () \<and> wh_sent x = []"

section \<open>The stream holds each order once\<close>

lemma told_rows_inj:
  assumes "told jsonb t evs" and "r1 \<in> set (outbox_events t)" and "r2 \<in> set (outbox_events t)"
    and "row_event jsonb r1 = Inr e1" and "row_event jsonb r2 = Inr e2" and "oc_OrderID e1 = oc_OrderID e2"
  shows "r1 = r2"
proof -
  let ?rows = "outbox_events t"
  from assms(1) have M: "map (row_event jsonb) ?rows = map Inr evs" and D: "distinct (map oc_OrderID evs)" by (simp_all add: told_def)
  then have len: "length ?rows = length evs" by (metis length_map)
  have at: "row_event jsonb (?rows ! k) = Inr (evs ! k)" if "k < length ?rows" for k using M len that by (metis nth_map)
  from assms(2,3) obtain i j where ij: "i < length ?rows" "?rows ! i = r1" "j < length ?rows" "?rows ! j = r2"
    by (auto simp: in_set_conv_nth)
  with at assms(4,5) have "evs ! i = e1" "evs ! j = e2" by force+
  with D ij len assms(6) have "i = j" by (simp add: distinct_conv_nth) metis
  with ij show ?thesis by simp
qed

lemma stream_ids_distinct:
  assumes "relay_inv jsonb t (broker_sent b)" and "once (broker_sent b)" and "told jsonb t evs"
  shows "distinct (map (\<lambda>m. oc_OrderID (decoded (msg_Data m))) (stream b))"
proof -
  have row: "\<exists>r \<in> set (outbox_events t). m = msg_of jsonb r \<and> row_event jsonb r = Inr (decoded (fst (snd m)))"
    if m: "m \<in> set (broker_sent b)" for m
  proof -
    from assms(1) m obtain r where r: "r \<in> set (outbox_events t)" "m = msg_of jsonb r" by (auto simp: relay_inv_def)
    from r(1) assms(3) have "row_event jsonb r \<in> set (map Inr evs)" unfolding told_def by (metis imageI list.set_map)
    then show ?thesis using r by (auto simp: decoded_def row_event_def msg_of_def)
  qed
  have "m1 = m2" if "m1 \<in> set (broker_sent b)" "m2 \<in> set (broker_sent b)"
    "oc_OrderID (decoded (fst (snd m1))) = oc_OrderID (decoded (fst (snd m2)))" for m1 m2
    using row [OF that(1)] row [OF that(2)] told_rows_inj [OF assms(3)] that(3) by blast
  then have "inj_on (\<lambda>m. oc_OrderID (decoded (fst (snd m)))) (set (broker_sent b))" by (intro inj_onI)
  moreover have "distinct (broker_sent b)" using assms(2) by (auto simp: once_def distinct_map)
  ultimately have "distinct (map (\<lambda>m. oc_OrderID (decoded (fst (snd m)))) (broker_sent b))" by (simp add: distinct_map)
  then show ?thesis by (simp add: broker_sent_def comp_def)
qed

section \<open>What the consumers have done\<close>

text \<open>
  With every acknowledgement arriving, a position is handled once: the confirmations are those of the
  positions acknowledged, the totals those of the positions \<open>ks\<close> handled since the last start.
\<close>

abbreviation event_at :: "nats_msg list \<Rightarrow> nat \<Rightarrow> order_created" where
  "event_at msgs i \<equiv> decoded (msg_Data (msgs ! i))"

definition confirmed_once :: "nats_msg list \<Rightarrow> unit consumer \<Rightarrow> effect list \<Rightarrow> bool" where
  "confirmed_once msgs c sent \<longleftrightarrow> distinct (cn_acked c) \<and> set (cn_acked c) \<subseteq> {..<length msgs} \<and>
     notified sent = map (\<lambda>i. oc_OrderID (event_at msgs i)) (rev (cn_acked c))"

definition counted_once :: "nats_msg list \<Rightarrow> stats consumer \<Rightarrow> bool" where
  "counted_once msgs c \<longleftrightarrow> set (cn_acked c) \<subseteq> {..<length msgs} \<and>
     (\<exists>ks. distinct ks \<and> set ks \<subseteq> set (cn_acked c) \<and> cn_app c = fold note_stats (map (event_at msgs) ks) zero_stats)"

lemma map_event_at_append:
  "set ks \<subseteq> {..<length msgs} \<Longrightarrow> map (\<lambda>i. f (event_at (msgs @ new) i)) ks = map (\<lambda>i. f (event_at msgs i)) ks"
  by (intro map_cong) (auto simp: nth_append)

lemma confirmed_once_append: "confirmed_once msgs c sent \<Longrightarrow> confirmed_once (msgs @ new) c sent"
  using map_event_at_append [of "rev (cn_acked c)" msgs oc_OrderID new] by (auto simp: confirmed_once_def)

lemma counted_once_append:
  assumes "counted_once msgs c"
  shows "counted_once (msgs @ new) c"
proof -
  from assms obtain ks where ks: "distinct ks" "set ks \<subseteq> set (cn_acked c)" "set (cn_acked c) \<subseteq> {..<length msgs}"
    "cn_app c = fold note_stats (map (event_at msgs) ks) zero_stats" by (auto simp: counted_once_def)
  from ks(2,3) have "map (event_at (msgs @ new)) ks = map (event_at msgs) ks"
    using map_event_at_append [of ks msgs "\<lambda>e. e" new] by auto
  with ks(4) have "cn_app c = fold note_stats (map (event_at (msgs @ new)) ks) zero_stats" by (simp only:)
  with ks(1-3) show ?thesis unfolding counted_once_def by (intro conjI exI [of _ ks]) auto
qed

definition whole_inv :: "('c, 'r) setting \<Rightarrow> bool \<Rightarrow> ('c, 'r) whole \<Rightarrow> bool" where
  "whole_inv S reliable x \<longleftrightarrow> concurrent_inv S (wh_processes x) (wh_shared x) \<and>
     cn_up (wh_analytics x) \<and> cn_up (wh_notification x) \<and> set (notified (wh_sent x)) \<subseteq> dom (wh_orders x) \<and>
     (reliable \<longrightarrow> confirmed_once (wh_stream x) (wh_notification x) (wh_sent x) \<and>
        counted_once (wh_stream x) (wh_analytics x))"

context event_consumer
begin

text \<open>A delivery to a consumer that is up, of a message that decodes to an event it takes.\<close>

lemma deliver_takes:
  assumes "deliver otel ctx handle msgs (i, arrives) c = (effs, c')" and "cn_up c" and "acceptable accepts msgs"
    and "\<And>m. m \<in> set msgs \<Longrightarrow> unmarshal_order_created (msg_Data m) = Inr (dec (msg_Data m))"
  shows "cn_up c' \<and> (if i < length msgs \<and> i \<notin> set (cn_acked c)
    then cn_app c' = note_event (dec (msg_Data (msgs ! i))) (cn_app c) \<and>
      cn_acked c' = (if arrives then i # cn_acked c else cn_acked c)
    else c' = c)"
proof (cases "i < length msgs \<and> i \<notin> set (cn_acked c)")
  case True
  then have dec: "unmarshal_order_created (msg_Data (msgs ! i)) = Inr (dec (msg_Data (msgs ! i)))" using assms(4) by simp
  from acceptable_nth [OF assms(3) _ this] True have "accepts (dec (msg_Data (msgs ! i)))" by blast
  from deliver_decoded [OF assms(1) dec this assms(2)] True assms(2) show ?thesis by auto
next
  case False
  with deliver_skips [of c i msgs otel ctx handle arrives] assms(1,2) show ?thesis by auto
qed

end

lemma counted_once_deliver:
  assumes "deliver otel ctx (analytics_handleOrderCreated otel) msgs (i, True) c = (effs, c')" and "cn_up c"
    and "acceptable (\<lambda>e. 0 \<le> oc_Quantity e) msgs"
    and "\<And>m. m \<in> set msgs \<Longrightarrow> unmarshal_order_created (msg_Data m) = Inr (decoded (msg_Data m))"
    and "counted_once msgs c"
  shows "counted_once msgs c'"
proof (cases "i < length msgs \<and> i \<notin> set (cn_acked c)")
  case True
  with analytics.deliver_takes [OF assms(1-4)] have c': "cn_app c' = note_stats (event_at msgs i) (cn_app c)" "cn_acked c' = i # cn_acked c"
    by simp_all
  from assms(5) obtain ks where ks: "distinct ks" "set ks \<subseteq> set (cn_acked c)" "set (cn_acked c) \<subseteq> {..<length msgs}"
    "cn_app c = fold note_stats (map (event_at msgs) ks) zero_stats" by (auto simp: counted_once_def)
  with True c' show ?thesis unfolding counted_once_def by (intro conjI exI [of _ "ks @ [i]"]) auto
next
  case False
  with analytics.deliver_takes [OF assms(1-4)] assms(5) show ?thesis by auto
qed

lemma notified_append: "notified (a @ b) = notified a @ notified b"
  by (simp add: notified_def)

lemma confirmed_once_deliver:
  assumes "deliver otel ctx (notification_handleOrderCreated otel) msgs (i, True) c = (effs, c')" and "cn_up c"
    and "\<And>m. m \<in> set msgs \<Longrightarrow> unmarshal_order_created (msg_Data m) = Inr (decoded (msg_Data m))"
    and "confirmed_once msgs c sent"
  shows "confirmed_once msgs c' (sent @ effs)"
proof -
  have acc: "acceptable (\<lambda>e. True) msgs" by (simp add: acceptable_def)
  note took = notification.deliver_takes [OF assms(1,2) acc assms(3)]
  have N: "notified effs = map oc_OrderID (handled msgs [(i, True)] (cn_acked c))"
    using notified_deliver [OF assms(1,2), of "[]"] by simp
  show ?thesis
  proof (cases "i < length msgs \<and> i \<notin> set (cn_acked c)")
    case True
    with assms(3) have "unmarshal_order_created (msg_Data (msgs ! i)) = Inr (event_at msgs i)" by simp
    with N True have "notified effs = [oc_OrderID (event_at msgs i)]" by simp
    with took True assms(4) show ?thesis by (simp add: confirmed_once_def notified_append)
  next
    case False
    with N took have "notified effs = []" "c' = c" by auto
    with assms(4) show ?thesis by (simp add: confirmed_once_def notified_append)
  qed
qed

section \<open>Every step keeps it\<close>

lemma notification_delivers:
  "notification_deliveries otel ctx handle msgs [dl] c = (effs, c') \<Longrightarrow> deliver otel ctx handle msgs dl c = (effs, c')"
  by (simp add: notification_deliveries_same split: prod.splits)

lemma whole_messages:
  assumes "concurrent_inv S ps w"
  shows "acceptable (\<lambda>e. 0 \<le> oc_Quantity e) (stream (snd w))"
    and "m \<in> set (stream (snd w)) \<Longrightarrow> unmarshal_order_created (msg_Data m) = Inr (decoded (msg_Data m)) \<and>
      oc_OrderID (decoded (msg_Data m)) \<in> dom (orders (sh_db w))"
proof -
  from assms obtain evs where t: "told (sg_jsonb S) (sh_db w) evs"
    and r: "relay_inv (sg_jsonb S) (sh_db w) (broker_sent (snd w))" by (auto simp: concurrent_inv_def side_by_side_def)
  show "acceptable (\<lambda>e. 0 \<le> oc_Quantity e) (stream (snd w))" by (rule told_accepted [OF r t])
  assume "m \<in> set (stream (snd w))"
  from stream_tells [OF r t this] obtain e where "e \<in> set evs" "unmarshal_order_created (msg_Data m) = Inr e" by blast
  moreover from this(1) t have "oc_OrderID e \<in> dom (orders (sh_db w))" by (auto simp: told_def)
  ultimately show "unmarshal_order_created (msg_Data m) = Inr (decoded (msg_Data m)) \<and>
      oc_OrderID (decoded (msg_Data m)) \<in> dom (orders (sh_db w))" by (simp add: decoded_def)
qed

lemma goes_on_inv:
  assumes "goes_on S reliable x x'" and "setting_ok S" and "whole_inv S reliable x"
  shows "whole_inv S reliable x' \<and> (dedup_inv (snd (wh_shared x)) \<longrightarrow> dedup_inv (snd (wh_shared x')))"
  using assms(1)
proof (cases rule: goes_on.cases)
  case (works ps w)
  from assms(3) have I: "concurrent_inv S (wh_processes x) (wh_shared x)" by (simp add: whole_inv_def)
  from concurrent_grows [OF works(2) assms(2) I] obtain new where
    g: "wh_orders x \<subseteq>\<^sub>m orders (sh_db w)" "stream (snd w) = wh_stream x @ new" by blast
  from map_le_implies_dom_le [OF g(1)] assms(3) have "set (notified (wh_sent x)) \<subseteq> dom (orders (sh_db w))"
    by (simp only: whole_inv_def) (elim conjE, rule subset_trans)
  with concurrent_step_inv [OF works(2) assms(2) I] g(2) assms(3) works(1) show ?thesis
    by (simp add: whole_inv_def confirmed_once_append counted_once_append)
next
  case (counts dl ctx effs c)
  obtain i arrives where dl: "dl = (i, arrives)" by force
  from assms(3) have I: "concurrent_inv S (wh_processes x) (wh_shared x)" and up: "cn_up (wh_analytics x)" by (simp_all add: whole_inv_def)
  note M = whole_messages(1) [OF I] whole_messages(2) [OF I, THEN conjunct1]
  from analytics.deliver_takes [OF counts(3) [unfolded dl] up M] have "cn_up c" by blast
  moreover have "counted_once (wh_stream x) c" if reliable
    using counted_once_deliver [OF _ up M] counts(2,3) dl that assms(3) by (auto simp: whole_inv_def)
  ultimately show ?thesis using assms(3) counts(1) by (simp add: whole_inv_def)
next
  case (confirms dl ctx effs c)
  obtain i arrives where dl: "dl = (i, arrives)" by force
  from assms(3) have I: "concurrent_inv S (wh_processes x) (wh_shared x)" and up: "cn_up (wh_notification x)" by (simp_all add: whole_inv_def)
  note M = whole_messages(2) [OF I, THEN conjunct1]
  from confirms(3) have one: "deliver (sg_otel S) ctx (notification_handleOrderCreated (sg_otel S)) (wh_stream x) dl (wh_notification x) = (effs, c)"
    by (rule notification_delivers)
  have N: "notified effs = map oc_OrderID (handled (wh_stream x) [dl] (cn_acked (wh_notification x)))" and "cn_up c"
    using notified_deliver [OF one up, of "[]"] by simp_all
  have "set (notified effs) \<subseteq> dom (wh_orders x)"
  proof
    fix k assume "k \<in> set (notified effs)"
    then obtain e where e: "e \<in> set (handled (wh_stream x) [dl] (cn_acked (wh_notification x)))" "k = oc_OrderID e" unfolding N by auto
    from handled_decodes [OF e(1)] obtain m where "m \<in> set (wh_stream x)" "unmarshal_order_created (msg_Data m) = Inr e" by blast
    with whole_messages(2) [OF I, of m] e(2) show "k \<in> dom (wh_orders x)" by auto
  qed
  moreover have "confirmed_once (wh_stream x) c (wh_sent x @ effs)" if reliable
    using confirmed_once_deliver [OF _ up M] confirms(2) one dl that assms(3) by (auto simp: whole_inv_def)
  ultimately show ?thesis using assms(3) confirms(1) \<open>cn_up c\<close> by (simp add: whole_inv_def notified_append)
next
  case restarts
  from assms(3) show ?thesis by (auto simp: restarts whole_inv_def counted_once_def intro: exI [of _ "[]"])
qed

lemma begins_inv:
  assumes "begins x"
  shows "whole_inv S reliable x" and "window_holds (snd (wh_shared x)) \<Longrightarrow> dedup_inv (snd (wh_shared x))"
proof -
  from assms have q: "list_all fresh_process (wh_processes x)" "quiet (wh_shared x)" by (simp_all add: begins_def)
  from quiet_inv(1) [OF q] assms show "whole_inv S reliable x"
    by (auto simp: whole_inv_def begins_def confirmed_once_def counted_once_def notified_def intro: exI [of _ "[]"])
  show "window_holds (snd (wh_shared x)) \<Longrightarrow> dedup_inv (snd (wh_shared x))" by (rule quiet_inv(3) [OF q])
qed

lemma whole_run_inv:
  assumes "(goes_on S reliable)\<^sup>*\<^sup>* x x'" and "setting_ok S" and "begins x"
  shows "whole_inv S reliable x' \<and> (window_holds (snd (wh_shared x)) \<longrightarrow> dedup_inv (snd (wh_shared x')))"
  using assms(1)
proof (induction rule: rtranclp_induct)
  case base
  with begins_inv [OF assms(3)] show ?case by blast
next
  case (step y z)
  with goes_on_inv [OF step.hyps(2) assms(2)] show ?case by blast
qed

section \<open>Properties at every moment\<close>

text \<open>A sample: the order of \<open>sample_concurrent\<close>, published by the relay, and both consumers waiting.\<close>

lemma Publish_first:
  "weather b = [] \<Longrightarrow> recent b = [] \<Longrightarrow> \<exists>m. Publish otel ctx s p i b = (None, b\<lparr>stream := stream b @ [m], recent := [msg_id m]\<rparr>)"
  by (auto simp: Publish_def js_PublishMsg_def stream_store_def Let_def)

lemma FetchUnpublished_calm:
  "script d = [] \<Longrightarrow> \<exists>d'. FetchUnpublished jsonb k d = (Inr (map (scan_event jsonb) (take k (unpublished (tables d)))), d')"
  by (auto simp: FetchUnpublished_def pg_query_def select_unpublished_def unpublished_def Let_def)

definition sample_whole :: "(string, string \<rightharpoonup> string) whole" where
  "sample_whole = \<lparr>wh_processes = sample_processes, wh_shared = sample_shared,
     wh_analytics = fresh zero_stats, wh_notification = fresh (), wh_sent = []\<rparr>"

lemma sample_begins: "begins sample_whole"
  by (simp add: sample_whole_def begins_def sample_fresh sample_quiet)

lemma sample_published:
  obtains ps n d b where "runs sample_setting (sample_processes, sample_shared) (ps, ((n, d), b))"
    and "stream b \<noteq> []" and "dom (orders (tables d)) = {''u1''}"
proof -
  obtain effs left n d where run: "runs sample_setting (sample_processes, sample_shared)
       (Request (Answered (WriteJSON 201 (order_json sample_order)) effs) # Relaying (Polling ''t'' []) # left, ((n, d), snd sample_shared))"
    and d: "script d = []" "length (outbox_events (tables d)) = 1" "dom (orders (tables d)) = {''u1''}"
    by (rule sample_concurrent)
  let ?b = "snd sample_shared" and ?A = "Request (Answered (WriteJSON 201 (order_json sample_order)) effs)"
  have b: "weather ?b = []" "recent ?b = []" "stream ?b = []" by (simp_all add: sample_shared_def)
  from started_inv [OF run sample_setting_ok sample_fresh sample_quiet] have
    "relay_inv (sg_jsonb sample_setting) (tables d) (broker_sent ?b)" by (simp add: concurrent_inv_def side_by_side_def)
  then have "\<forall>r \<in> set (outbox_events (tables d)). \<not> ob_published r" by (simp add: relay_inv_def broker_sent_def b(3))
  then have "unpublished (tables d) \<noteq> []" using d(2) by (cases "outbox_events (tables d)") (auto simp: unpublished_Nil)
  then obtain row rows where un: "unpublished (tables d) = row # rows" by (cases "unpublished (tables d)") auto
  obtain d1 where f: "FetchUnpublished (sg_jsonb sample_setting) batchSize d =
      (Inr (map (scan_event (sg_jsonb sample_setting)) (take batchSize (unpublished (tables d)))), d1)"
    using FetchUnpublished_calm [OF d(1)] by blast
  obtain evt evts where evts: "map (scan_event (sg_jsonb sample_setting)) (take batchSize (unpublished (tables d))) = evt # evts"
    unfolding un by (simp add: batchSize_def)
  have "tables d1 = tables d" by (rule FetchUnpublished_cases(1) [OF f])
  let ?ps1 = "?A # Relaying (Publishing ''t'' (evt # evts) []) # left"
  have s1: "process_step sample_setting ((?A # Relaying (Polling ''t'' []) # left) ! 1) ((n, d), ?b) =
      (Relaying (Publishing ''t'' (evt # evts) []), [], ((n, d1), ?b))" using f evts by simp
  from moves_once [OF s1] have r1: "runs sample_setting (?A # Relaying (Polling ''t'' []) # left, ((n, d), ?b)) (?ps1, ((n, d1), ?b))"
    by simp
  obtain m where m: "publishOne (sg_otel sample_setting) (Publish (sg_otel sample_setting)) ''t'' evt ?b =
      (None, ?b\<lparr>stream := stream ?b @ [m], recent := [msg_id m]\<rparr>)"
    by (rule exE [OF Publish_first [OF b(1,2)]]) (simp add: publishOne_def Let_def)
  let ?b1 = "?b\<lparr>stream := stream ?b @ [m], recent := [msg_id m]\<rparr>"
  have s2: "process_step sample_setting (?ps1 ! 1) ((n, d1), ?b) = (Relaying (Marking ''t'' evt evts []), [], ((n, d1), ?b1))"
    using m by simp
  from moves_once [OF s2] have r2: "runs sample_setting (?ps1, ((n, d1), ?b)) (?A # Relaying (Marking ''t'' evt evts []) # left, ((n, d1), ?b1))"
    by simp
  from rtranclp_trans [OF rtranclp_trans [OF run r1] r2] show thesis
    by (rule that) (simp_all add: d(3) \<open>tables d1 = tables d\<close>)
qed

lemma runs_go_on:
  assumes "runs S (wh_processes x, wh_shared x) (ps, w)"
  shows "(goes_on S reliable)\<^sup>*\<^sup>* x (x\<lparr>wh_processes := ps, wh_shared := w\<rparr>)"
  using assms
proof (induction "(ps, w)" arbitrary: ps w rule: rtranclp_induct)
  case base
  then show ?case by simp
next
  case (step y)
  obtain ps1 w1 where y: "y = (ps1, w1)" by (rule prod.exhaust)
  let ?x = "x\<lparr>wh_processes := ps1, wh_shared := w1\<rparr>"
  from step.hyps(2) have "goes_on S reliable ?x (?x\<lparr>wh_processes := ps, wh_shared := w\<rparr>)" unfolding y by (intro works) simp
  then have "goes_on S reliable ?x (x\<lparr>wh_processes := ps, wh_shared := w\<rparr>)" by simp
  with step.hyps(3) [OF y] show ?case by (rule rtranclp.rtrancl_into_rtrancl)
qed

lemma whole_ids_distinct:
  assumes "whole_inv S reliable x" and "dedup_inv (snd (wh_shared x))"
  shows "distinct (map (\<lambda>m. oc_OrderID (decoded (msg_Data m))) (wh_stream x))"
proof -
  from assms(1) obtain evs where "told (sg_jsonb S) (sh_db (wh_shared x)) evs"
    "relay_inv (sg_jsonb S) (sh_db (wh_shared x)) (broker_sent (snd (wh_shared x)))"
    by (auto simp: whole_inv_def concurrent_inv_def side_by_side_def)
  with assms(2) show ?thesis by (intro stream_ids_distinct) (auto simp: dedup_inv_def)
qed

lemma event_ids_inj:
  "distinct (map (\<lambda>m. oc_OrderID (decoded (msg_Data m))) msgs) \<Longrightarrow> inj_on (\<lambda>i. oc_OrderID (event_at msgs i)) {..<length msgs}"
  by (auto simp: inj_on_def distinct_conv_nth)

lemma whole_message_tells:
  assumes "whole_inv S reliable x" and "m \<in> set (wh_stream x)"
  shows "oc_OrderID (decoded (msg_Data m)) \<in> dom (wh_orders x) \<and>
    oc_Quantity (decoded (msg_Data m)) = o_Quantity (the (wh_orders x (oc_OrderID (decoded (msg_Data m)))))"
proof -
  from assms(1) obtain evs where t: "told (sg_jsonb S) (sh_db (wh_shared x)) evs"
    and r: "relay_inv (sg_jsonb S) (sh_db (wh_shared x)) (broker_sent (snd (wh_shared x)))"
    by (auto simp: whole_inv_def concurrent_inv_def side_by_side_def)
  from stream_tells [OF r t assms(2)] obtain e where e: "e \<in> set evs" "unmarshal_order_created (msg_Data m) = Inr e" by blast
  from e(1) t obtain ord where "wh_orders x (oc_OrderID e) = Some ord" "tells e ord" by (auto simp: told_def)
  with e(2) show ?thesis by (auto simp: decoded_def tells_def)
qed

lemma sample_consumed:
  obtains x' where "(goes_on sample_setting True)\<^sup>*\<^sup>* sample_whole x'" and "notified (wh_sent x') \<noteq> []"
    and "cn_acked (wh_analytics x') \<noteq> []" and "dom (wh_orders x') = {''u1''}"
proof -
  let ?otel = "sg_otel sample_setting"
  obtain ps n d b where r: "runs sample_setting (sample_processes, sample_shared) (ps, ((n, d), b))"
    and b: "stream b \<noteq> []" and o: "dom (orders (tables d)) = {''u1''}" by (rule sample_published)
  let ?x1 = "sample_whole\<lparr>wh_processes := ps, wh_shared := ((n, d), b)\<rparr>"
  have r1: "(goes_on sample_setting True)\<^sup>*\<^sup>* sample_whole ?x1" using r by (intro runs_go_on) (simp add: sample_whole_def)
  from whole_run_inv [OF r1 sample_setting_ok sample_begins] have I: "concurrent_inv sample_setting ps ((n, d), b)"
    by (simp add: whole_inv_def)
  note M = whole_messages(1) [OF I, simplified] whole_messages(2) [OF I, THEN conjunct1, simplified]
  obtain e1 c1 where d1: "deliver ?otel ''t'' (analytics_handleOrderCreated ?otel) (stream b) (0, True) (fresh zero_stats) = (e1, c1)" by force
  obtain e2 c2 where d2: "deliver ?otel ''t'' (notification_handleOrderCreated ?otel) (stream b) (0, True) (fresh ()) = (e2, c2)" by force
  let ?x2 = "?x1\<lparr>wh_analytics := c1\<rparr>"
  let ?x3 = "?x2\<lparr>wh_notification := c2, wh_sent := wh_sent ?x2 @ e2\<rparr>"
  have "goes_on sample_setting True ?x1 ?x2" using d1 by (intro counts [of _ "(0, True)"]) (simp_all add: sample_whole_def)
  moreover have "goes_on sample_setting True ?x2 ?x3"
    using d2 by (intro confirms [of _ "(0, True)"]) (simp_all add: sample_whole_def notification_deliveries_same)
  ultimately have run: "(goes_on sample_setting True)\<^sup>*\<^sup>* sample_whole ?x3" using r1 by (meson rtranclp.rtrancl_into_rtrancl)
  from analytics.deliver_takes [OF d1 _ M] b have "cn_acked c1 = [0]" by simp
  moreover from M(2) b have "unmarshal_order_created (msg_Data (stream b ! 0)) = Inr (event_at (stream b) 0)" by simp
  then have "notified e2 = [oc_OrderID (event_at (stream b) 0)]" using notified_deliver [OF d2, of "[]"] b by simp
  ultimately show thesis using o by (intro that [OF run]) (simp_all add: sample_whole_def)
qed

text \<open>
  C8. Nothing is confirmed that is not stored: at every moment, while requests, relays and restocks run
  and die and messages are delivered in any order and again, every confirmation notification-service has
  sent is for an order that is in order-service's database. Where acknowledgements arrive and the broker
  deduplicates, no order is confirmed twice.
\<close>

theorem confirmed_orders_are_stored:
  assumes "(goes_on S reliable)\<^sup>*\<^sup>* x x'" and "setting_ok S" and "begins x"
  shows "set (notified (wh_sent x')) \<subseteq> dom (wh_orders x') \<and>
    (reliable \<and> window_holds (snd (wh_shared x)) \<longrightarrow> distinct (notified (wh_sent x')))"
proof -
  from whole_run_inv [OF assms] have I: "whole_inv S reliable x'"
    and D: "window_holds (snd (wh_shared x)) \<longrightarrow> dedup_inv (snd (wh_shared x'))" by blast+
  have "distinct (notified (wh_sent x'))" if "reliable" "window_holds (snd (wh_shared x))"
  proof -
    from I that(1) have c: "confirmed_once (wh_stream x') (wh_notification x') (wh_sent x')" by (simp add: whole_inv_def)
    from whole_ids_distinct [OF I] D that(2) have ids: "distinct (map (\<lambda>m. oc_OrderID (decoded (msg_Data m))) (wh_stream x'))" by blast
    from c have N: "notified (wh_sent x') = map (\<lambda>i. oc_OrderID (event_at (wh_stream x') i)) (rev (cn_acked (wh_notification x')))"
      and A: "distinct (cn_acked (wh_notification x'))" "set (cn_acked (wh_notification x')) \<subseteq> {..<length (wh_stream x')}"
      by (simp_all add: confirmed_once_def)
    show ?thesis unfolding N using A inj_on_subset [OF event_ids_inj [OF ids] A(2)] by (simp add: distinct_map)
  qed
  with I show ?thesis by (simp add: whole_inv_def)
qed

theorem confirmed_orders_are_stored_witness:
  "\<exists>x'. (goes_on sample_setting True)\<^sup>*\<^sup>* sample_whole x' \<and> set (notified (wh_sent x')) \<subseteq> dom (wh_orders x') \<and>
     notified (wh_sent x') = [''u1'']"
proof -
  obtain x' where run: "(goes_on sample_setting True)\<^sup>*\<^sup>* sample_whole x'" and n: "notified (wh_sent x') \<noteq> []"
    and o: "dom (wh_orders x') = {''u1''}" by (rule sample_consumed)
  have "window_holds (snd (wh_shared sample_whole))" by (simp add: sample_whole_def sample_shared_def window_holds_def)
  with confirmed_orders_are_stored [OF run sample_setting_ok sample_begins] have
    c: "set (notified (wh_sent x')) \<subseteq> {''u1''}" "distinct (notified (wh_sent x'))" by (simp_all add: o)
  with n have "notified (wh_sent x') = [''u1'']" by (cases "notified (wh_sent x')") (auto simp: subset_singleton_iff)
  with run c(1) [folded o] show ?thesis by blast
qed

text \<open>
  C9. \<open>/stats\<close> never runs ahead: where acknowledgements arrive and the broker deduplicates, the totals at
  every moment, also after restarts of analytics-service, are the number and the sum of the quantities
  of some of the stored orders, each counted once.
\<close>

theorem stats_show_stored_orders:
  assumes "(goes_on S True)\<^sup>*\<^sup>* x x'" and "setting_ok S" and "begins x" and "window_holds (snd (wh_shared x))"
  shows "\<exists>I \<subseteq> dom (wh_orders x'). Stats_Snapshot (cn_app (wh_analytics x')) =
    \<lparr>sn_OrdersCount = to_int64 (int (card I)),
     sn_TotalQuantityReserved = to_int64 (\<Sum>i \<in> I. o_Quantity (the (wh_orders x' i)))\<rparr>"
proof -
  from whole_run_inv [OF assms(1-3)] assms(4) have I: "whole_inv S True x'" and D: "dedup_inv (snd (wh_shared x'))" by blast+
  let ?msgs = "wh_stream x'"
  from I obtain ks where ks: "distinct ks" "set ks \<subseteq> {..<length ?msgs}"
    "cn_app (wh_analytics x') = fold note_stats (map (event_at ?msgs) ks) zero_stats"
    by (auto simp: whole_inv_def counted_once_def)
  let ?ids = "map (\<lambda>i. oc_OrderID (event_at ?msgs i)) ks"
  have d: "distinct ?ids" using ks inj_on_subset [OF event_ids_inj [OF whole_ids_distinct [OF I D]] ks(2)]
    by (simp add: distinct_map)
  have e: "oc_OrderID (event_at ?msgs i) \<in> dom (wh_orders x') \<and>
      oc_Quantity (event_at ?msgs i) = o_Quantity (the (wh_orders x' (oc_OrderID (event_at ?msgs i))))" if "i \<in> set ks" for i
    using whole_message_tells [OF I, of "?msgs ! i"] that ks(2) by (auto intro: nth_mem)
  have "sum_list (map oc_Quantity (map (event_at ?msgs) ks)) = sum_list (map (\<lambda>i. o_Quantity (the (wh_orders x' i))) ?ids)"
    using e by (simp add: comp_def cong: map_cong)
  also have "\<dots> = (\<Sum>i \<in> set ?ids. o_Quantity (the (wh_orders x' i)))" by (rule sum_list_distinct_conv_sum_set [OF d])
  finally have q: "sum_list (map oc_Quantity (map (event_at ?msgs) ks)) = (\<Sum>i \<in> set ?ids. o_Quantity (the (wh_orders x' i)))" .
  have n: "length ks = card (set ?ids)" using distinct_card [OF d] by simp
  from e have "set ?ids \<subseteq> dom (wh_orders x')" by auto
  moreover have "Stats_Snapshot (cn_app (wh_analytics x')) = \<lparr>sn_OrdersCount = to_int64 (int (card (set ?ids))),
      sn_TotalQuantityReserved = to_int64 (\<Sum>i \<in> set ?ids. o_Quantity (the (wh_orders x' i)))\<rparr>"
    unfolding ks(3) fold_note_zero Stats_Snapshot_def by (simp only: q n length_map stats.simps)
  ultimately show ?thesis by blast
qed

theorem stats_show_stored_orders_witness:
  "\<exists>x' I. (goes_on sample_setting True)\<^sup>*\<^sup>* sample_whole x' \<and> cn_acked (wh_analytics x') \<noteq> [] \<and> I \<subseteq> {''u1''} \<and>
     sn_OrdersCount (Stats_Snapshot (cn_app (wh_analytics x'))) = to_int64 (int (card I))"
proof -
  obtain x' where run: "(goes_on sample_setting True)\<^sup>*\<^sup>* sample_whole x'" and a: "cn_acked (wh_analytics x') \<noteq> []"
    and o: "dom (wh_orders x') = {''u1''}" by (rule sample_consumed)
  have w: "window_holds (snd (wh_shared sample_whole))" by (simp add: sample_whole_def sample_shared_def window_holds_def)
  obtain I where I: "I \<subseteq> dom (wh_orders x')" "Stats_Snapshot (cn_app (wh_analytics x')) =
      \<lparr>sn_OrdersCount = to_int64 (int (card I)),
       sn_TotalQuantityReserved = to_int64 (\<Sum>i \<in> I. o_Quantity (the (wh_orders x' i)))\<rparr>"
    using stats_show_stored_orders [OF run sample_setting_ok sample_begins w] by blast
  from arg_cong [OF I(2), of sn_OrdersCount] have
    "sn_OrdersCount (Stats_Snapshot (cn_app (wh_analytics x'))) = to_int64 (int (card I))" by (simp only: snapshot.simps)
  with run a I(1) [unfolded o] show ?thesis by blast
qed

end
