(* ===== verification/StatsLock.thy ===== *)
theory StatsLock
  imports Consumers
begin

text \<open>
  The mutex of \<open>analytics-service/internal/analytics/stats.go\<close>. The consumer's callback records while HTTP
  requests read \<open>/stats\<close> and Prometheus scrapes the counters, each in a goroutine of its own; here their
  calls are cut at every access to memory. Shown: under the lock the interleavings are those of the
  atomic \<open>Stats_Record\<close> and \<open>Stats_Snapshot\<close> of \<open>Consumers\<close>, a snapshot is never torn, no call waits for
  ever, and a scrape, which takes no lock, may see half a call.
\<close>

section \<open>Calls cut at their accesses\<close>

text \<open>
  Where a goroutine is. \<open>s.ordersCount++\<close> and \<open>s.totalQuantity += quantity\<close> load and store. A panic of
  \<open>Add\<close> runs the deferred \<open>Unlock\<close> and then ends the process. A scrape reads the counters one by one.
\<close>

datatype stats_pc =
    Rec_Lock int
  | Rec_LoadCount int
  | Rec_StoreCount int int
  | Rec_LoadQuantity int
  | Rec_StoreQuantity int int
  | Rec_Inc int
  | Rec_Add int
  | Rec_Unlock
  | Rec_Returned
  | Rec_Unwind
  | Rec_Panicking
  | Rec_Panicked
  | Snap_Lock
  | Snap_LoadCount
  | Snap_LoadQuantity int
  | Snap_Unlock snapshot
  | Snap_Returned snapshot
  | Scraping "string list" "(string \<times> int) list"

record stats_shared =
  sh_locked :: bool
  sh_stats :: stats
  sh_metrics :: "effect list"
  sh_up :: bool

text \<open>One step of a goroutine; \<open>None\<close> when it has returned or waits for the lock.\<close>

fun stats_step :: "stats_pc \<Rightarrow> stats_shared \<Rightarrow> (stats_pc \<times> stats_shared) option" where
  "stats_step (Rec_Lock q) s =
     (if sh_locked s then None else Some (Rec_LoadCount q, s\<lparr>sh_locked := True\<rparr>))"
| "stats_step (Rec_LoadCount q) s = Some (Rec_StoreCount q (st_ordersCount (sh_stats s)), s)"
| "stats_step (Rec_StoreCount q n) s =
     Some (Rec_LoadQuantity q, s\<lparr>sh_stats := (sh_stats s)\<lparr>st_ordersCount := to_int64 (n + 1)\<rparr>\<rparr>)"
| "stats_step (Rec_LoadQuantity q) s = Some (Rec_StoreQuantity q (st_totalQuantity (sh_stats s)), s)"
| "stats_step (Rec_StoreQuantity q n) s =
     Some (Rec_Inc q, s\<lparr>sh_stats := (sh_stats s)\<lparr>st_totalQuantity := to_int64 (n + q)\<rparr>\<rparr>)"
| "stats_step (Rec_Inc q) s =
     Some (Rec_Add q, s\<lparr>sh_metrics := sh_metrics s @ [Counter_Inc ''analytics_orders_recorded_total'' []]\<rparr>)"
| "stats_step (Rec_Add q) s =
     (case prom_Add ''analytics_quantity_reserved_total'' q of
        None \<Rightarrow> Some (Rec_Unwind, s)
      | Some added \<Rightarrow> Some (Rec_Unlock, s\<lparr>sh_metrics := sh_metrics s @ added\<rparr>))"
| "stats_step Rec_Unlock s = Some (Rec_Returned, s\<lparr>sh_locked := False\<rparr>)"
| "stats_step Rec_Unwind s = Some (Rec_Panicking, s\<lparr>sh_locked := False\<rparr>)"
| "stats_step Rec_Panicking s = Some (Rec_Panicked, s\<lparr>sh_up := False\<rparr>)"
| "stats_step Snap_Lock s =
     (if sh_locked s then None else Some (Snap_LoadCount, s\<lparr>sh_locked := True\<rparr>))"
| "stats_step Snap_LoadCount s = Some (Snap_LoadQuantity (st_ordersCount (sh_stats s)), s)"
| "stats_step (Snap_LoadQuantity n) s =
     Some (Snap_Unlock \<lparr>sn_OrdersCount = n, sn_TotalQuantityReserved = st_totalQuantity (sh_stats s)\<rparr>, s)"
| "stats_step (Snap_Unlock sn) s = Some (Snap_Returned sn, s\<lparr>sh_locked := False\<rparr>)"
| "stats_step (Scraping (name # names) seen) s =
     Some (Scraping names (seen @ [(name, counter_value name (sh_metrics s))]), s)"
| "stats_step _ s = None"

text \<open>Any number of goroutines, while the process is up.\<close>

inductive stats_moves :: "stats_pc list \<times> stats_shared \<Rightarrow> stats_pc list \<times> stats_shared \<Rightarrow> bool" where
  moves: "sh_up s \<Longrightarrow> i < length ps \<Longrightarrow> stats_step (ps ! i) s = Some (p', s') \<Longrightarrow>
    stats_moves (ps, s) (ps[i := p'], s')"

inductive_cases stats_movesE: "stats_moves (ps, s) st"

definition new_Stats :: stats_shared where
  "new_Stats = \<lparr>sh_locked = False, sh_stats = zero_stats, sh_metrics = [], sh_up = True\<rparr>"

fun not_begun :: "stats_pc \<Rightarrow> bool" where
  "not_begun (Rec_Lock q) = True"
| "not_begun Snap_Lock = True"
| "not_begun (Scraping names seen) = (seen = [])"
| "not_begun _ = False"

section \<open>The atomic object\<close>

text \<open>What the calls are to those who make them, and one step: a whole call.\<close>

datatype stats_op = Recording int | Recorded | Panicked | Reading | Read snapshot | Other

inductive atomic_stats ::
  "stats_op list \<times> effect list \<times> stats \<Rightarrow> stats_op list \<times> effect list \<times> stats \<Rightarrow> bool" where
  records: "i < length ops \<Longrightarrow> ops ! i = Recording q \<Longrightarrow> Stats_Record q a = (r, effs, a') \<Longrightarrow>
    atomic_stats (ops, log, a) (ops[i := if r = None then Panicked else Recorded], log @ effs, a')"
| reads: "i < length ops \<Longrightarrow> ops ! i = Reading \<Longrightarrow>
    atomic_stats (ops, log, a) (ops[i := Read (Stats_Snapshot a)], log, a)"

text \<open>The calls take effect at their last access under the lock.\<close>

fun op_of :: "stats_pc \<Rightarrow> stats_op" where
  "op_of (Rec_Lock q) = Recording q"
| "op_of (Rec_LoadCount q) = Recording q"
| "op_of (Rec_StoreCount q n) = Recording q"
| "op_of (Rec_LoadQuantity q) = Recording q"
| "op_of (Rec_StoreQuantity q n) = Recording q"
| "op_of (Rec_Inc q) = Recording q"
| "op_of (Rec_Add q) = Recording q"
| "op_of Rec_Unlock = Recorded"
| "op_of Rec_Returned = Recorded"
| "op_of Rec_Unwind = Panicked"
| "op_of Rec_Panicking = Panicked"
| "op_of Rec_Panicked = Panicked"
| "op_of Snap_Lock = Reading"
| "op_of Snap_LoadCount = Reading"
| "op_of (Snap_LoadQuantity n) = Reading"
| "op_of (Snap_Unlock sn) = Read sn"
| "op_of (Snap_Returned sn) = Read sn"
| "op_of (Scraping names seen) = Other"

text \<open>
  The part of a call between \<open>Lock\<close> and \<open>Unlock\<close>, and how far it has changed what it found: \<open>midway p\<close>
  relates the counters and totals before the call to those now.
\<close>

fun critical :: "stats_pc \<Rightarrow> bool" where
  "critical (Rec_Lock q) = False"
| "critical Rec_Returned = False"
| "critical Rec_Panicking = False"
| "critical Rec_Panicked = False"
| "critical Snap_Lock = False"
| "critical (Snap_Returned sn) = False"
| "critical (Scraping names seen) = False"
| "critical _ = True"

fun midway :: "stats_pc \<Rightarrow> effect list \<times> stats \<Rightarrow> effect list \<times> stats \<Rightarrow> bool" where
  "midway (Rec_StoreCount q n) (l, a) now \<longleftrightarrow> now = (l, a) \<and> n = st_ordersCount a"
| "midway (Rec_LoadQuantity q) (l, a) now \<longleftrightarrow> now = (l, a\<lparr>st_ordersCount := to_int64 (st_ordersCount a + 1)\<rparr>)"
| "midway (Rec_StoreQuantity q n) (l, a) now \<longleftrightarrow>
     now = (l, a\<lparr>st_ordersCount := to_int64 (st_ordersCount a + 1)\<rparr>) \<and> n = st_totalQuantity a"
| "midway (Rec_Inc q) (l, a) now \<longleftrightarrow> now = (l, snd (snd (Stats_Record q a)))"
| "midway (Rec_Add q) (l, a) now \<longleftrightarrow>
     now = (l @ [Counter_Inc ''analytics_orders_recorded_total'' []], snd (snd (Stats_Record q a)))"
| "midway (Snap_LoadQuantity n) (l, a) now \<longleftrightarrow> now = (l, a) \<and> n = st_ordersCount a"
| "midway p before now \<longleftrightarrow> now = before"

text \<open>The simulation: at most one call is under the lock, and it alone has changed anything yet.\<close>

definition inside_only :: "nat \<Rightarrow> stats_pc list \<Rightarrow> bool" where
  "inside_only i ps \<longleftrightarrow> i < length ps \<and> critical (ps ! i) \<and> (\<forall>j < length ps. critical (ps ! j) \<longrightarrow> j = i)"

definition simulates :: "stats_pc list \<Rightarrow> stats_shared \<Rightarrow> effect list \<times> stats \<Rightarrow> bool" where
  "simulates ps s before \<longleftrightarrow>
     (if sh_locked s then \<exists>i. inside_only i ps \<and> midway (ps ! i) before (sh_metrics s, sh_stats s)
      else (\<forall>p \<in> set ps. \<not> critical p) \<and> (sh_metrics s, sh_stats s) = before)"

section \<open>One step\<close>

lemma inside_only_unique: "inside_only i ps \<Longrightarrow> j < length ps \<Longrightarrow> critical (ps ! j) \<Longrightarrow> j = i"
  by (simp add: inside_only_def)

lemma inside_only_stays: "inside_only i ps \<Longrightarrow> critical p' \<Longrightarrow> inside_only i (ps[i := p'])"
  unfolding inside_only_def by (metis length_list_update nth_list_update_eq nth_list_update_neq)

lemma inside_only_other: "inside_only i ps \<Longrightarrow> j \<noteq> i \<Longrightarrow> \<not> critical p' \<Longrightarrow> inside_only i (ps[j := p'])"
  unfolding inside_only_def by (metis length_list_update nth_list_update_eq nth_list_update_neq)

lemma inside_only_leaves: "inside_only i ps \<Longrightarrow> \<not> critical p' \<Longrightarrow> \<forall>p \<in> set (ps[i := p']). \<not> critical p"
  unfolding inside_only_def by (metis in_set_conv_nth length_list_update nth_list_update_eq nth_list_update_neq)

lemma inside_only_enters: "\<forall>p \<in> set ps. \<not> critical p \<Longrightarrow> i < length ps \<Longrightarrow> critical p' \<Longrightarrow> inside_only i (ps[i := p'])"
  unfolding inside_only_def by (metis length_list_update nth_list_update_eq nth_list_update_neq nth_mem)

lemma simulates_critical:
  assumes "simulates ps s before" and "i < length ps" and "critical (ps ! i)"
  shows "sh_locked s" and "midway (ps ! i) before (sh_metrics s, sh_stats s)" and "inside_only i ps"
proof -
  show locked: "sh_locked s" using assms nth_mem [OF assms(2)] unfolding simulates_def by metis
  then obtain k where k: "inside_only k ps" "midway (ps ! k) before (sh_metrics s, sh_stats s)"
    using assms(1) unfolding simulates_def by metis
  from inside_only_unique [OF k(1) assms(2,3)] have "i = k" .
  with k show "midway (ps ! i) before (sh_metrics s, sh_stats s)" "inside_only i ps" by simp_all
qed

lemma simulates_inside:
  assumes "simulates ps s before" and "i < length ps" and "critical (ps ! i)"
    and "critical p'" and "sh_locked s'" and "midway p' after (sh_metrics s', sh_stats s')"
  shows "simulates (ps[i := p']) s' after"
  unfolding simulates_def using assms(2,5,6) inside_only_stays [OF simulates_critical(3) [OF assms(1-3)] assms(4)]
  by (simp only: if_True) (metis nth_list_update_eq)

lemma simulates_leaves:
  assumes "simulates ps s before" and "i < length ps" and "critical (ps ! i)"
    and "\<not> critical p'" and "\<not> sh_locked s'" and "(sh_metrics s', sh_stats s') = after"
  shows "simulates (ps[i := p']) s' after"
  unfolding simulates_def using assms(5,6) inside_only_leaves [OF simulates_critical(3) [OF assms(1-3)] assms(4)]
  by (simp only: if_False)

lemma simulates_enters:
  assumes "simulates ps s before" and "i < length ps" and "\<not> sh_locked s"
    and "critical p'" and "sh_locked s'" and "midway p' before (sh_metrics s, sh_stats s)"
    and "sh_metrics s' = sh_metrics s" and "sh_stats s' = sh_stats s"
  shows "simulates (ps[i := p']) s' before"
proof -
  from assms(1,3) have "\<forall>p \<in> set ps. \<not> critical p" by (simp add: simulates_def)
  from inside_only_enters [OF this assms(2,4)] assms(2,5-8) show ?thesis
    unfolding simulates_def by (simp only: if_True) (metis nth_list_update_eq)
qed

lemma simulates_outside:
  assumes "simulates ps s before" and "i < length ps" and "\<not> critical (ps ! i)"
    and "\<not> critical p'" and "sh_locked s' = sh_locked s" and "sh_metrics s' = sh_metrics s" and "sh_stats s' = sh_stats s"
  shows "simulates (ps[i := p']) s' before"
proof (cases "sh_locked s")
  case True
  with assms(1) obtain k where k: "inside_only k ps" "midway (ps ! k) before (sh_metrics s, sh_stats s)"
    unfolding simulates_def by metis
  then have "i \<noteq> k" using assms(3) by (auto simp only: inside_only_def)
  from inside_only_other [OF k(1) this assms(4)] k(2) True assms(5-7) \<open>i \<noteq> k\<close> show ?thesis
    unfolding simulates_def by (simp only: if_True) (metis nth_list_update_neq)
next
  case False
  have "\<forall>p \<in> set (ps[i := p']). \<not> critical p"
    using set_update_subset_insert [of ps i p'] assms(1,4) False unfolding simulates_def by (metis insertE subsetD)
  with False assms(1,5-7) show ?thesis by (simp only: simulates_def if_False)
qed

lemma atomic_records:
  assumes "i < length ps" and "op_of (ps ! i) = Recording q" and "Stats_Record q a = (r, effs, a')"
    and "op_of p' = (if r = None then Panicked else Recorded)"
  shows "atomic_stats (map op_of ps, log, a) (map op_of (ps[i := p']), log @ effs, a')"
  using atomic_stats.records [of i "map op_of ps" q a r effs a' log] assms by (simp add: map_update)

lemma atomic_reads:
  assumes "i < length ps" and "op_of (ps ! i) = Reading" and "op_of p' = Read (Stats_Snapshot a)"
  shows "atomic_stats (map op_of ps, log, a) (map op_of (ps[i := p']), log, a)"
  using atomic_stats.reads [of i "map op_of ps" log a] assms by (simp add: map_update)

lemma same_ops: "i < length ps \<Longrightarrow> op_of p' = op_of (ps ! i) \<Longrightarrow> map op_of (ps[i := p']) = map op_of ps"
  by (simp add: map_update list_update_same_conv)

text \<open>What a step must lead to: nothing has changed for the callers, or one of them has been served.\<close>

definition served :: "stats_pc list \<Rightarrow> effect list \<times> stats \<Rightarrow> stats_pc list \<Rightarrow> stats_shared \<Rightarrow> bool" where
  "served ps before ps' s' \<longleftrightarrow>
     (\<exists>after. simulates ps' s' after \<and>
        (atomic_stats (map op_of ps, before) (map op_of ps', after) \<or> map op_of ps' = map op_of ps \<and> after = before))"

lemma served_silent:
  "simulates (ps[i := p']) s' before \<Longrightarrow> i < length ps \<Longrightarrow> op_of p' = op_of (ps ! i) \<Longrightarrow> served ps before (ps[i := p']) s'"
  unfolding served_def using same_ops by blast

lemma served_whole:
  "simulates ps' s' after \<Longrightarrow> atomic_stats (map op_of ps, before) (map op_of ps', after) \<Longrightarrow> served ps before ps' s'"
  unfolding served_def by blast

lemma Rec_Add_served:
  assumes "simulates ps s before" and "i < length ps" and "ps ! i = Rec_Add q"
    and "stats_step (Rec_Add q) s = Some (p', s')"
  shows "served ps before (ps[i := p']) s'"
proof -
  obtain l a where b: "before = (l, a)" by force
  obtain r effs a' where R: "Stats_Record q a = (r, effs, a')" by (rule prod_cases3)
  have effs: "effs = [Counter_Inc ''analytics_orders_recorded_total'' []] @
      (if q < 0 then [] else [Counter_Add ''analytics_quantity_reserved_total'' [] q])" and r: "r = None \<longleftrightarrow> q < 0"
    using R by (auto simp: Stats_Record_def prom_Add_def Let_def split: if_splits)
  from simulates_critical(1,2) [OF assms(1,2)] assms(3) b R have
    s: "sh_locked s" "sh_metrics s = l @ [Counter_Inc ''analytics_orders_recorded_total'' []]" "sh_stats s = a'" by auto
  from assms(4) have p': "p' = (if q < 0 then Rec_Unwind else Rec_Unlock)" "sh_locked s' = sh_locked s"
    "sh_metrics s' = sh_metrics s @ (if q < 0 then [] else [Counter_Add ''analytics_quantity_reserved_total'' [] q])"
    "sh_stats s' = sh_stats s" by (auto simp: prom_Add_def split: if_splits)
  have "simulates (ps[i := p']) s' (l @ effs, a')"
    by (intro simulates_inside [OF assms(1,2)]) (use assms(3) p' s effs in simp_all)
  moreover have "atomic_stats (map op_of ps, before) (map op_of (ps[i := p']), l @ effs, a')"
    unfolding b by (intro atomic_records [OF assms(2) _ R]) (use assms(3) p' r in simp_all)
  ultimately show ?thesis by (rule served_whole)
qed

lemma Snap_LoadQuantity_served:
  assumes "simulates ps s before" and "i < length ps" and "ps ! i = Snap_LoadQuantity n"
    and "stats_step (Snap_LoadQuantity n) s = Some (p', s')"
  shows "served ps before (ps[i := p']) s'"
proof -
  obtain l a where b: "before = (l, a)" by force
  note mid = simulates_critical(1,2) [OF assms(1,2)]
  with b assms(3,4) have p': "p' = Snap_Unlock (Stats_Snapshot a)" "s' = s" by (auto simp: Stats_Snapshot_def)
  have "simulates (ps[i := p']) s' before"
    by (intro simulates_inside [OF assms(1,2)]) (use mid b assms(3) p' in simp_all)
  moreover have "atomic_stats (map op_of ps, before) (map op_of (ps[i := p']), before)"
    unfolding b by (intro atomic_reads [OF assms(2)]) (use assms(3) p' in simp_all)
  ultimately show ?thesis by (rule served_whole)
qed

text \<open>Every step but the last access of a call changes nothing for the callers; that one is the whole call.\<close>

lemma stats_step_served:
  assumes "simulates ps s before" and "i < length ps" and "stats_step (ps ! i) s = Some (p', s')"
  shows "served ps before (ps[i := p']) s'"
proof -
  obtain l a where b: "before = (l, a)" by force
  note inside = served_silent [OF simulates_inside [OF assms(1,2)] assms(2)]
    and leaves = served_silent [OF simulates_leaves [OF assms(1,2)] assms(2)]
    and enters = served_silent [OF simulates_enters [OF assms(1,2)] assms(2)]
    and outside = served_silent [OF simulates_outside [OF assms(1,2)] assms(2)]
  note mid = simulates_critical(1,2) [OF assms(1,2)]
  show ?thesis
  proof (cases "ps ! i")
    case (Rec_Lock q)
    with assms(3) have "\<not> sh_locked s" "p' = Rec_LoadCount q" "s' = s\<lparr>sh_locked := True\<rparr>" by (simp_all split: if_splits)
    with Rec_Lock assms(1) show ?thesis by (intro enters) (simp_all add: simulates_def)
  next
    case Snap_Lock
    with assms(3) have "\<not> sh_locked s" "p' = Snap_LoadCount" "s' = s\<lparr>sh_locked := True\<rparr>" by (simp_all split: if_splits)
    with Snap_Lock assms(1) show ?thesis by (intro enters) (simp_all add: simulates_def)
  next
    case (Rec_Add q)
    with Rec_Add_served [OF assms(1,2)] assms(3) show ?thesis by metis
  next
    case (Snap_LoadQuantity n)
    with Snap_LoadQuantity_served [OF assms(1,2)] assms(3) show ?thesis by metis
  next
    case Rec_Unlock
    with assms(3) mid b show ?thesis by (intro leaves) auto
  next
    case Rec_Unwind
    with assms(3) mid b show ?thesis by (intro leaves) auto
  next
    case (Snap_Unlock sn)
    with assms(3) mid b show ?thesis by (intro leaves) auto
  next
    case Rec_Panicking
    with assms(3) show ?thesis by (intro outside) auto
  next
    case (Scraping names seen)
    with assms(3) show ?thesis by (cases names) (auto intro!: outside)
  next
    case (Rec_LoadCount q)
    with assms(3) mid b show ?thesis by (intro inside) auto
  next
    case (Rec_StoreCount q n)
    with assms(3) mid b show ?thesis by (intro inside) auto
  next
    case (Rec_LoadQuantity q)
    with assms(3) mid b show ?thesis by (intro inside) auto
  next
    case (Rec_StoreQuantity q n)
    with assms(3) mid b show ?thesis by (intro inside) (auto simp: Stats_Record_def Let_def split: option.splits)
  next
    case (Rec_Inc q)
    with assms(3) mid b show ?thesis by (intro inside) auto
  next
    case Snap_LoadCount
    with assms(3) mid b show ?thesis by (intro inside) auto
  qed (use assms(3) in auto)
qed

section \<open>Runs\<close>

text \<open>The run a schedule gives; a goroutine that cannot move is passed over.\<close>

fun stats_run :: "nat list \<Rightarrow> stats_pc list \<times> stats_shared \<Rightarrow> stats_pc list \<times> stats_shared" where
  "stats_run [] c = c"
| "stats_run (i # is) (ps, s) =
     stats_run is
       (if sh_up s \<and> i < length ps then
          (case stats_step (ps ! i) s of None \<Rightarrow> (ps, s) | Some (p', s') \<Rightarrow> (ps[i := p'], s'))
        else (ps, s))"

lemma stats_run_moves: "stats_moves\<^sup>*\<^sup>* c (stats_run is c)"
proof (induction "is" c rule: stats_run.induct)
  case (2 i "is" ps s)
  let ?c = "if sh_up s \<and> i < length ps then
      (case stats_step (ps ! i) s of None \<Rightarrow> (ps, s) | Some (p', s') \<Rightarrow> (ps[i := p'], s')) else (ps, s)"
  have "stats_moves\<^sup>*\<^sup>* (ps, s) ?c" by (auto split: option.splits intro: stats_moves.moves)
  with "2.IH" show ?case by simp
qed simp

text \<open>Two records, a read and a scrape side by side; the scrape comes between \<open>Inc\<close> and \<open>Add\<close>.\<close>

abbreviation sample_goroutines :: "stats_pc list" where
  "sample_goroutines \<equiv> [Rec_Lock 3, Rec_Lock 4, Snap_Lock,
     Scraping [''analytics_orders_recorded_total'', ''analytics_quantity_reserved_total''] []]"

lemma sample_stats_run:
  "stats_run [0, 1, 2, 0, 0, 0, 0, 0, 3, 3, 0, 2, 0, 2, 1, 2, 2, 2] (sample_goroutines, new_Stats) =
     ([Rec_Returned, Rec_Lock 4, Snap_Returned \<lparr>sn_OrdersCount = 1, sn_TotalQuantityReserved = 3\<rparr>,
       Scraping [] [(''analytics_orders_recorded_total'', 1), (''analytics_quantity_reserved_total'', 0)]],
      \<lparr>sh_locked = False, sh_stats = \<lparr>st_ordersCount = 1, st_totalQuantity = 3\<rparr>,
       sh_metrics = [Counter_Inc ''analytics_orders_recorded_total'' [], Counter_Add ''analytics_quantity_reserved_total'' [] 3],
       sh_up = True\<rparr>)"
  by (simp add: new_Stats_def zero_stats_def prom_Add_def in_int64_def)

lemma sample_stats_moves:
  obtains ps' s' where "stats_moves\<^sup>*\<^sup>* (sample_goroutines, new_Stats) (ps', s')"
    and "ps' = [Rec_Returned, Rec_Lock 4, Snap_Returned \<lparr>sn_OrdersCount = 1, sn_TotalQuantityReserved = 3\<rparr>,
       Scraping [] [(''analytics_orders_recorded_total'', 1), (''analytics_quantity_reserved_total'', 0)]]"
    and "\<not> sh_locked s'" and "Stats_Snapshot (sh_stats s') = \<lparr>sn_OrdersCount = 1, sn_TotalQuantityReserved = 3\<rparr>"
  using stats_run_moves [of "(sample_goroutines, new_Stats)" "[0, 1, 2, 0, 0, 0, 0, 0, 3, 3, 0, 2, 0, 2, 1, 2, 2, 2]",
      unfolded sample_stats_run]
  by (rule that) (simp_all add: Stats_Snapshot_def)

lemma simulates_start:
  assumes "list_all not_begun ps"
  shows "simulates ps new_Stats ([], zero_stats)"
proof -
  have "\<not> critical p" if "not_begun p" for p using that by (cases p) simp_all
  with assms show ?thesis by (auto simp: simulates_def new_Stats_def list_all_iff)
qed

lemma run_served:
  assumes "stats_moves\<^sup>*\<^sup>* (ps, s) (ps', s')" and "simulates ps s before"
  shows "\<exists>after. simulates ps' s' after \<and> atomic_stats\<^sup>*\<^sup>* (map op_of ps, before) (map op_of ps', after)"
  using assms(1)
proof (induction "(ps', s')" arbitrary: ps' s' rule: rtranclp_induct)
  case base
  with assms(2) show ?case by blast
next
  case (step st)
  obtain ps1 s1 where st: "st = (ps1, s1)" by force
  from step.hyps(3) [OF st] obtain mid where mid: "simulates ps1 s1 mid"
    "atomic_stats\<^sup>*\<^sup>* (map op_of ps, before) (map op_of ps1, mid)" by blast
  from step.hyps(2) [unfolded st] obtain i p' where i: "i < length ps1" "stats_step (ps1 ! i) s1 = Some (p', s')"
    "ps' = ps1[i := p']" by (auto elim: stats_movesE)
  from stats_step_served [OF mid(1) i(1,2)] obtain after where after: "simulates ps' s' after"
    "atomic_stats (map op_of ps1, mid) (map op_of ps', after) \<or> map op_of ps' = map op_of ps1 \<and> after = mid"
    unfolding served_def i(3) by blast
  from after(2) mid(2) have "atomic_stats\<^sup>*\<^sup>* (map op_of ps, before) (map op_of ps', after)"
    by (metis rtranclp.rtrancl_into_rtrancl)
  with after(1) show ?case by blast
qed

lemma simulates_exclusive: "simulates ps s before \<Longrightarrow> length (filter critical ps) \<le> 1"
proof (cases "sh_locked s")
  case True
  assume "simulates ps s before"
  with True obtain i where i: "inside_only i ps" unfolding simulates_def by metis
  have "{j. j < length ps \<and> critical (ps ! j)} \<subseteq> {i}" using inside_only_unique [OF i] by blast
  then have "card {j. j < length ps \<and> critical (ps ! j)} \<le> card {i}" by (intro card_mono) simp_all
  then show ?thesis by (simp add: length_filter_conv_card)
qed (simp add: simulates_def filter_empty_conv [THEN iffD2])

text \<open>
  The same object as a function: the whole call of goroutine \<open>i\<close>, and the calls it may still have to serve.
  \<open>returned\<close> are the goroutines whose call is over.
\<close>

fun whole_call :: "nat \<Rightarrow> stats_op list \<times> effect list \<times> stats \<Rightarrow> stats_op list \<times> effect list \<times> stats" where
  "whole_call i (ops, log, a) =
     (case ops ! i of
        Recording q \<Rightarrow>
          (let (r, effs, a') = Stats_Record q a in (ops[i := if r = None then Panicked else Recorded], log @ effs, a'))
      | Reading \<Rightarrow> (ops[i := Read (Stats_Snapshot a)], log, a)
      | _ \<Rightarrow> (ops, log, a))"

fun over :: "stats_op \<Rightarrow> bool" where
  "over Recorded = True"
| "over Panicked = True"
| "over (Read sn) = True"
| "over op = False"

fun returned :: "stats_pc \<Rightarrow> bool" where
  "returned Rec_Returned = True"
| "returned Rec_Panicked = True"
| "returned (Snap_Returned sn) = True"
| "returned p = False"

definition comes_before :: "'a \<Rightarrow> 'a \<Rightarrow> 'a list \<Rightarrow> bool" where
  "comes_before x y xs \<longleftrightarrow> (\<exists>k. x \<in> set (take k xs) \<and> y \<notin> set (take k xs))"

lemma returned_over: "returned p \<Longrightarrow> over (op_of p)"
  by (cases p) simp_all

lemma not_begun_not_over: "not_begun p \<Longrightarrow> \<not> over (op_of p)"
  by (cases p) simp_all

text \<open>A step of the atomic object that leaves all but \<open>i\<close> alone is the whole call of \<open>i\<close>.\<close>

lemma atomic_is_whole_call:
  assumes "atomic_stats (ops, st) (ops', st')" and "\<And>j. j \<noteq> i \<Longrightarrow> ops' ! j = ops ! j"
  shows "i < length ops \<and> \<not> over (ops ! i) \<and> over (ops' ! i) \<and> whole_call i (ops, st) = (ops', st')"
  using assms(1)
proof cases
  case (records k q a r effs a' log)
  then have "ops' ! k \<noteq> ops ! k" by simp
  with assms(2) [of k] have "k = i" by blast
  with records show ?thesis by auto
next
  case (reads k log a)
  then have "ops' ! k \<noteq> ops ! k" by simp
  with assms(2) [of k] have "k = i" by blast
  with reads show ?thesis by auto
qed

text \<open>
  A run \<open>c\<close> up to the moment \<open>t\<close>: the calls that are over, in the order in which they took effect; those over
  at an earlier moment come first.
\<close>

definition over_at :: "stats_pc list \<Rightarrow> nat set" where
  "over_at ps = {i. i < length ps \<and> over (op_of (ps ! i))}"

definition linearized :: "stats_pc list \<Rightarrow> (nat \<Rightarrow> stats_pc list \<times> stats_shared) \<Rightarrow> nat \<Rightarrow> nat list \<Rightarrow> bool" where
  "linearized ps c t order \<longleftrightarrow> distinct order \<and> set order = over_at (fst (c t)) \<and>
     (\<exists>st. simulates (fst (c t)) (snd (c t)) st \<and>
       fold whole_call order (map op_of ps, [], zero_stats) = (map op_of (fst (c t)), st)) \<and>
     (\<forall>u \<le> t. \<exists>k. set (take k order) = over_at (fst (c u)))"

lemma linearized_start:
  assumes "c 0 = (ps, new_Stats)" and "list_all not_begun ps"
  shows "linearized ps c 0 []"
proof -
  have "over_at ps = {}" using assms(2) not_begun_not_over by (auto simp: over_at_def list_all_length)
  with assms(1) simulates_start [OF assms(2)] show ?thesis by (auto simp: linearized_def)
qed

lemma linearized_step:
  assumes "linearized ps c t order" and "stats_moves (c t) (c (Suc t))"
  shows "\<exists>order'. linearized ps c (Suc t) order'"
proof -
  obtain ps1 s1 where now: "c t = (ps1, s1)" by force
  from assms(1) now obtain st where lin: "distinct order" "set order = over_at ps1" "simulates ps1 s1 st"
    "fold whole_call order (map op_of ps, [], zero_stats) = (map op_of ps1, st)"
    and past: "\<forall>u \<le> t. \<exists>k. set (take k order) = over_at (fst (c u))"
    unfolding linearized_def by auto
  from assms(2) [unfolded now] obtain i p' s' where i: "i < length ps1" "stats_step (ps1 ! i) s1 = Some (p', s')"
    and "c (Suc t) = (ps1[i := p'], s')" by (metis stats_movesE surj_pair)
  then have then': "c (Suc t) = (ps1[i := p'], s')" by simp
  from stats_step_served [OF lin(3) i] obtain after where after: "simulates (ps1[i := p']) s' after"
    "atomic_stats (map op_of ps1, st) (map op_of (ps1[i := p']), after) \<or> map op_of (ps1[i := p']) = map op_of ps1 \<and> after = st"
    unfolding served_def by blast
  from after(2) show ?thesis
  proof
    assume "atomic_stats (map op_of ps1, st) (map op_of (ps1[i := p']), after)"
    from atomic_is_whole_call [OF this, of i] have w: "\<not> over (op_of (ps1 ! i))" "over (op_of p')"
      "whole_call i (map op_of ps1, st) = (map op_of (ps1[i := p']), after)" using i(1) by (auto simp: map_update)
    then have new: "i \<notin> set order" and at: "over_at (ps1[i := p']) = insert i (over_at ps1)"
      using i(1) lin(2) by (auto simp: over_at_def nth_list_update)
    have "\<exists>k. set (take k (order @ [i])) = over_at (fst (c u))" if "u \<le> Suc t" for u
    proof (cases "u = Suc t")
      case True
      then show ?thesis using then' at lin(2) by (intro exI [of _ "Suc (length order)"]) simp
    next
      case False
      with past that obtain k where "set (take k order) = over_at (fst (c u))" by (meson le_Suc_eq)
      then have "set (take (min k (length order)) (order @ [i])) = over_at (fst (c u))"
        by (cases "k \<le> length order") (simp_all add: min_def)
      then show ?thesis by blast
    qed
    with lin(1,2,4) w(3) new at after(1) then' have "linearized ps c (Suc t) (order @ [i])"
      by (auto simp: linearized_def simp del: split_paired_Ex)
    then show ?thesis by blast
  next
    assume same: "map op_of (ps1[i := p']) = map op_of ps1 \<and> after = st"
    then have "over_at (ps1[i := p']) = over_at ps1"
      unfolding over_at_def by (metis (no_types, lifting) length_list_update nth_map)
    moreover from lin(2) have "set (take (length order) order) = over_at ps1" by simp
    ultimately have "\<forall>u \<le> Suc t. \<exists>k. set (take k order) = over_at (fst (c u))"
      using past then' by (metis fst_conv le_Suc_eq)
    with lin same after(1) then' \<open>over_at (ps1[i := p']) = over_at ps1\<close> have "linearized ps c (Suc t) order"
      by (auto simp: linearized_def simp del: split_paired_Ex)
    then show ?thesis by blast
  qed
qed

lemma linearized_run:
  assumes "c 0 = (ps, new_Stats)" and "list_all not_begun ps" and "\<forall>t < n. stats_moves (c t) (c (Suc t))"
  shows "\<exists>order. linearized ps c n order"
  using assms(3)
proof (induction n)
  case 0
  with linearized_start [of c ps, OF assms(1,2)] show ?case by blast
next
  case (Suc n)
  with linearized_step show ?case by (meson less_Suc_eq)
qed

text \<open>
  C16. The mutex makes the calls atomic. However goroutines that record and read interleave at their
  accesses to memory, at most one is under the lock, and there is one order of the calls such that whole
  calls of \<open>Record\<close> and \<open>Snapshot\<close>, one after the other in that order, return what the calls returned and
  leave behind the totals and counters they left behind. Every call that has returned is in the order,
  and the order keeps every call between its start and its return: where, at any moment of the run, one
  call had returned and another had not yet taken the lock, the first comes before the second.
\<close>

theorem stats_calls_are_atomic:
  assumes "c 0 = (ps, new_Stats)" and "list_all not_begun ps" and "\<forall>t < n. stats_moves (c t) (c (Suc t))"
  shows "length (filter critical (fst (c n))) \<le> 1 \<and>
    (\<exists>order log a. distinct order \<and> set order \<subseteq> {..<length ps} \<and>
      fold whole_call order (map op_of ps, [], zero_stats) = (map op_of (fst (c n)), log, a) \<and>
      (sh_locked (snd (c n)) \<or> sh_metrics (snd (c n)) = log \<and> sh_stats (snd (c n)) = a) \<and>
      (\<forall>i < length ps. returned (fst (c n) ! i) \<longrightarrow> i \<in> set order) \<and>
      (\<forall>t \<le> n. \<forall>i < length ps. \<forall>j \<in> set order.
        returned (fst (c t) ! i) \<and> not_begun (fst (c t) ! j) \<longrightarrow> comes_before i j order))"
proof -
  from linearized_run [OF assms] obtain order where l: "linearized ps c n order" by blast
  then obtain log a where sim: "simulates (fst (c n)) (snd (c n)) (log, a)"
    and run: "fold whole_call order (map op_of ps, [], zero_stats) = (map op_of (fst (c n)), log, a)"
    unfolding linearized_def by auto
  have len: "length (fst (c t)) = length ps" if "t \<le> n" for t
    using that
  proof (induction t)
    case (Suc t)
    obtain ps1 s1 where now: "c t = (ps1, s1)" by force
    from Suc.prems assms(3) have "stats_moves (ps1, s1) (c (Suc t))" by (simp flip: now)
    then have "length (fst (c (Suc t))) = length ps1" by (elim stats_movesE) simp
    with Suc now show ?case by simp
  qed (simp add: assms(1))
  have o: "distinct order" "set order = over_at (fst (c n))" "\<forall>t \<le> n. \<exists>k. set (take k order) = over_at (fst (c t))"
    using l by (simp_all add: linearized_def)
  have "comes_before i j order"
    if "t \<le> n" "i < length ps" "returned (fst (c t) ! i)" "not_begun (fst (c t) ! j)" for t i j
  proof -
    from o(3) that(1) obtain k where "set (take k order) = over_at (fst (c t))" by blast
    moreover have "i \<in> over_at (fst (c t))" "j \<notin> over_at (fst (c t))"
      using that len [OF that(1)] returned_over not_begun_not_over by (simp_all add: over_at_def)
    ultimately show ?thesis unfolding comes_before_def by metis
  qed
  moreover have "sh_locked (snd (c n)) \<or> sh_metrics (snd (c n)) = log \<and> sh_stats (snd (c n)) = a"
    using sim by (auto simp: simulates_def)
  moreover have "i \<in> set order" if "i < length ps" "returned (fst (c n) ! i)" for i
    using that o(2) len [of n] returned_over by (simp add: over_at_def)
  moreover have "set order \<subseteq> {..<length ps}" using o(2) len [of n] by (auto simp: over_at_def)
  ultimately show ?thesis using simulates_exclusive [OF sim] o(1) run
    by (intro exI [of _ order] exI [of _ log] exI [of _ a] conjI) simp_all
qed

text \<open>A schedule none of whose goroutines has to wait is a run.\<close>

fun stats_goes :: "nat list \<Rightarrow> stats_pc list \<times> stats_shared \<Rightarrow> bool" where
  "stats_goes [] st = True"
| "stats_goes (i # is) (ps, s) =
     (sh_up s \<and> i < length ps \<and> stats_step (ps ! i) s \<noteq> None \<and> stats_goes is (stats_run [i] (ps, s)))"

lemma stats_goes_moves:
  "stats_goes is st \<Longrightarrow> t < length is \<Longrightarrow>
    stats_moves (stats_run (take t is) st) (stats_run (take (Suc t) is) st)"
proof (induction "is" st arbitrary: t rule: stats_goes.induct)
  case (2 i "is" ps s)
  from 2(2) obtain p' s' where go: "stats_step (ps ! i) s = Some (p', s')" "sh_up s" "i < length ps"
    "stats_goes is (ps[i := p'], s')" by auto
  then have "stats_run [i] (ps, s) = (ps[i := p'], s')" by simp
  with 2 go show ?case by (cases t) (simp_all add: stats_moves.moves)
qed simp

text \<open>The record returns before the read takes the lock, so the read sees it.\<close>

theorem stats_calls_are_atomic_witness:
  "\<exists>c order. c 0 = ([Rec_Lock 3, Snap_Lock], new_Stats) \<and> (\<forall>t < 12. stats_moves (c t) (c (Suc t))) \<and>
     fst (c (12 :: nat)) = [Rec_Returned, Snap_Returned \<lparr>sn_OrdersCount = 1, sn_TotalQuantityReserved = 3\<rparr>] \<and>
     fst (fold whole_call order ([Recording 3, Reading], [], zero_stats)) =
       [Recorded, Read \<lparr>sn_OrdersCount = 1, sn_TotalQuantityReserved = 3\<rparr>] \<and>
     comes_before 0 1 order"
proof -
  let ?is = "[0, 0, 0, 0, 0, 0, 0, 0, 1, 1, 1, 1]" and ?ps = "[Rec_Lock 3, Snap_Lock]"
  define c where "c t = stats_run (take t ?is) (?ps, new_Stats)" for t
  have start: "c 0 = (?ps, new_Stats)" "list_all not_begun ?ps" by (simp_all add: c_def)
  have eight: "c 8 = ([Rec_Returned, Snap_Lock], \<lparr>sh_locked = False, sh_stats = \<lparr>st_ordersCount = 1, st_totalQuantity = 3\<rparr>,
      sh_metrics = [Counter_Inc ''analytics_orders_recorded_total'' [], Counter_Add ''analytics_quantity_reserved_total'' [] 3],
      sh_up = True\<rparr>)"
    by (simp add: c_def new_Stats_def zero_stats_def prom_Add_def in_int64_def)
  have twelve: "fst (c 12) = [Rec_Returned, Snap_Returned \<lparr>sn_OrdersCount = 1, sn_TotalQuantityReserved = 3\<rparr>]"
    by (simp add: c_def new_Stats_def zero_stats_def prom_Add_def in_int64_def)
  have moves: "\<forall>t < 12. stats_moves (c t) (c (Suc t))"
  proof -
    have goes: "stats_goes ?is (?ps, new_Stats)" by (simp add: new_Stats_def zero_stats_def prom_Add_def in_int64_def)
    show ?thesis unfolding c_def by (intro allI impI stats_goes_moves [OF goes]) simp
  qed
  obtain order log a where whole: "fold whole_call order (map op_of ?ps, [], zero_stats) = (map op_of (fst (c 12)), log, a)"
    and o: "\<forall>i < length ?ps. returned (fst (c 12) ! i) \<longrightarrow> i \<in> set order"
    "\<forall>t \<le> 12. \<forall>i < length ?ps. \<forall>j \<in> set order. returned (fst (c t) ! i) \<and> not_begun (fst (c t) ! j) \<longrightarrow> comes_before i j order"
    using stats_calls_are_atomic [OF start moves] by (elim conjE exE)
  from o(1) twelve have "1 \<in> set order" by simp
  with o(2) [rule_format, of 8 0 1] eight have "comes_before 0 1 order" by simp
  with start(1) moves twelve whole show ?thesis by (intro exI [of _ c], intro exI [of _ order]) simp
qed

section \<open>What snapshots show\<close>

definition totals :: "int list \<Rightarrow> snapshot" where
  "totals qs = \<lparr>sn_OrdersCount = to_int64 (int (length qs)), sn_TotalQuantityReserved = to_int64 (sum_list qs)\<rparr>"

fun quantity_of :: "stats_op \<Rightarrow> int" where
  "quantity_of (Recording q) = q"
| "quantity_of _ = 0"

text \<open>The quantities of the calls of \<open>Record\<close> at the positions \<open>order\<close>, and when they account for a state.\<close>

definition quantities :: "stats_op list \<Rightarrow> nat list \<Rightarrow> int list" where
  "quantities ops order = map (\<lambda>i. quantity_of (ops ! i)) order"

lemma quantities_append: "quantities ops (xs @ ys) = quantities ops xs @ quantities ops ys"
  by (simp add: quantities_def)

definition accounts :: "int list \<Rightarrow> effect list \<Rightarrow> stats \<Rightarrow> bool" where
  "accounts qs log a \<longleftrightarrow> Stats_Snapshot a = totals qs \<and>
     counter_value ''analytics_orders_recorded_total'' log = int (length qs) \<and>
     counter_value ''analytics_quantity_reserved_total'' log = sum_list (filter (\<lambda>q. 0 \<le> q) qs)"

lemma accounts_Record:
  assumes "accounts qs log a" and "Stats_Record q a = (r, effs, a')"
  shows "accounts (qs @ [q]) (log @ effs) a'"
proof -
  have a': "st_ordersCount a' = to_int64 (st_ordersCount a + 1)" "st_totalQuantity a' = to_int64 (st_totalQuantity a + q)"
    and effs: "effs = Counter_Inc ''analytics_orders_recorded_total'' [] #
      (if q < 0 then [] else [Counter_Add ''analytics_quantity_reserved_total'' [] q])"
    using assms(2) by (auto simp: Stats_Record_def prom_Add_def Let_def split: if_splits)
  have "int (length (qs @ [q])) = int (length qs) + 1" by simp
  with assms(1) a' have "Stats_Snapshot a' = totals (qs @ [q])"
    by (simp only: accounts_def Stats_Snapshot_def totals_def snapshot.ext_inject to_int64_add sum_list_append) simp
  with assms(1) effs show ?thesis by (simp add: accounts_def)
qed

text \<open>The calls of \<open>Record\<close> that took effect, in that order; every snapshot shows a prefix of them.\<close>

definition in_order :: "stats_op list \<Rightarrow> nat list \<Rightarrow> stats_op list \<Rightarrow> effect list \<times> stats \<Rightarrow> bool" where
  "in_order ops0 order ops st \<longleftrightarrow>
     length ops = length ops0 \<and> distinct order \<and>
     (\<forall>i < length ops. i \<in> set order \<longleftrightarrow> ops ! i = Recorded \<or> ops ! i = Panicked) \<and>
     set order \<subseteq> {i. i < length ops0 \<and> (\<exists>q. ops0 ! i = Recording q)} \<and>
     (\<forall>i < length ops. \<forall>q. ops ! i = Recording q \<longrightarrow> ops0 ! i = Recording q) \<and>
     accounts (quantities ops0 order) (fst st) (snd st) \<and>
     (\<forall>sn. Read sn \<in> set ops \<longrightarrow> (\<exists>k. sn = totals (quantities ops0 (take k order))))"

lemma in_order_step:
  assumes "atomic_stats (ops, st) (ops', st')" and "in_order ops0 order ops st"
  shows "\<exists>order'. in_order ops0 (order @ order') ops' st'"
  using assms(1)
proof cases
  case (records i q a r effs a' log)
  from assms(2) records have i: "i < length ops0" "ops0 ! i = Recording q" "i \<notin> set order" "length ops = length ops0"
    by (auto simp: in_order_def)
  have "accounts (quantities ops0 (order @ [i])) (log @ effs) a'"
    using assms(2) records accounts_Record [of "quantities ops0 order" log a q r effs a'] i(2)
    by (simp add: in_order_def quantities_def)
  moreover have "\<exists>k. sn = totals (quantities ops0 (take k (order @ [i])))" if "Read sn \<in> set ops'" for sn
  proof -
    from that records have "Read sn \<in> set ops" by (auto dest!: set_update_subset_insert [THEN subsetD] split: if_splits)
    with assms(2) obtain k where "sn = totals (quantities ops0 (take k order))" by (auto simp: in_order_def)
    then have "sn = totals (quantities ops0 (take (min k (length order)) (order @ [i])))"
      by (cases "k \<le> length order") (simp_all add: min_def)
    then show ?thesis by blast
  qed
  ultimately have "in_order ops0 (order @ [i]) ops' st'"
    using assms(2) records i by (auto simp: in_order_def nth_list_update)
  then show ?thesis by blast
next
  case (reads i log a)
  from assms(2) reads have now: "Stats_Snapshot a = totals (quantities ops0 (take (length order) order))"
    by (simp add: in_order_def accounts_def)
  have "\<exists>k. sn = totals (quantities ops0 (take k order))" if "Read sn \<in> set ops'" for sn
  proof -
    from that reads have "Read sn \<in> set ops \<or> sn = Stats_Snapshot a" by (auto dest!: set_update_subset_insert [THEN subsetD])
    then show ?thesis using assms(2) now unfolding in_order_def by blast
  qed
  with assms(2) reads have "in_order ops0 (order @ []) ops' st'"
    by (auto simp: in_order_def nth_list_update)
  then show ?thesis by blast
qed

lemma in_order_run:
  assumes "atomic_stats\<^sup>*\<^sup>* (ops, st) (ops', st')" and "in_order ops0 order ops st"
  shows "\<exists>order'. in_order ops0 order' ops' st'"
  using assms(1)
proof (induction "(ops', st')" arbitrary: ops' st' rule: rtranclp_induct)
  case base
  with assms(2) show ?case by blast
next
  case (step mid)
  obtain ops1 st1 where mid: "mid = (ops1, st1)" by (rule prod.exhaust)
  from step.hyps(3) [OF mid] in_order_step [OF step.hyps(2) [unfolded mid]] show ?case by blast
qed

lemma quantities_take: "quantities ops (take k order) = take k (quantities ops order)"
  by (simp add: quantities_def take_map)

lemma op_of_not_begun: "not_begun p \<Longrightarrow> op_of p \<noteq> Recorded \<and> op_of p \<noteq> Panicked \<and> op_of p \<noteq> Read sn"
  by (cases p) simp_all

lemma in_order_start:
  assumes "list_all not_begun ps"
  shows "in_order (map op_of ps) [] (map op_of ps) ([], zero_stats)"
proof -
  have "op_of p \<noteq> Recorded \<and> op_of p \<noteq> Panicked \<and> op_of p \<noteq> Read sn" if "p \<in> set ps" for p sn
    using that assms op_of_not_begun by (auto simp: list_all_iff)
  then have "\<forall>i < length ps. op_of (ps ! i) \<noteq> Recorded \<and> op_of (ps ! i) \<noteq> Panicked" "\<forall>sn. Read sn \<notin> op_of ` set ps"
    by (auto simp only: nth_mem image_iff, metis)
  moreover have "accounts [] [] zero_stats"
    by (simp add: accounts_def totals_def Stats_Snapshot_def zero_stats_def in_int64_def)
  ultimately show ?thesis by (simp add: in_order_def quantities_def)
qed

text \<open>What the goroutine that starts at \<open>p\<close> records.\<close>

fun to_record :: "stats_pc \<Rightarrow> int" where
  "to_record (Rec_Lock q) = q"
| "to_record _ = 0"

lemma quantities_to_record:
  "list_all not_begun ps \<Longrightarrow> set order \<subseteq> {..<length ps} \<Longrightarrow>
     quantities (map op_of ps) order = map (\<lambda>i. to_record (ps ! i)) order"
proof -
  assume ps: "list_all not_begun ps" and "set order \<subseteq> {..<length ps}"
  moreover have "quantity_of (op_of p) = to_record p" if "not_begun p" for p using that by (cases p) simp_all
  ultimately show ?thesis by (auto simp: quantities_def list_all_iff intro!: map_cong)
qed

text \<open>
  C17. A read of \<open>/stats\<close> is never torn: there is one order of the calls of \<open>Record\<close> that took effect, and
  whatever a \<open>Snapshot\<close> returned while they ran beside it is the number and the sum of the quantities of a
  prefix of it. When no call is under way, the totals and both counters show all of them.
\<close>

theorem snapshots_are_not_torn:
  assumes "stats_moves\<^sup>*\<^sup>* (ps, new_Stats) (ps', s')" and "list_all not_begun ps"
  shows "\<exists>order. distinct order \<and> set order \<subseteq> {i. i < length ps \<and> (\<exists>q. ps ! i = Rec_Lock q)} \<and>
    (\<forall>i < length ps. ps' ! i = Rec_Returned \<longrightarrow> i \<in> set order) \<and>
    (\<forall>sn. Snap_Returned sn \<in> set ps' \<longrightarrow> (\<exists>k. sn = totals (take k (map (\<lambda>i. to_record (ps ! i)) order)))) \<and>
    (\<not> sh_locked s' \<longrightarrow> accounts (map (\<lambda>i. to_record (ps ! i)) order) (sh_metrics s') (sh_stats s'))"
proof -
  from run_served [OF assms(1) simulates_start [OF assms(2)]] obtain st where sim: "simulates ps' s' st"
    and run: "atomic_stats\<^sup>*\<^sup>* (map op_of ps, [], zero_stats) (map op_of ps', st)" by blast
  from in_order_run [OF run in_order_start [OF assms(2)]] obtain order where
    o: "in_order (map op_of ps) order (map op_of ps') st" by blast
  have starts: "\<exists>q. ps ! i = Rec_Lock q" if "i < length ps" "op_of (ps ! i) = Recording q" for i q
    using that assms(2) by (cases "ps ! i") (auto simp: list_all_length)
  from o have "set order \<subseteq> {i. i < length ps \<and> (\<exists>q. op_of (ps ! i) = Recording q)}" by (auto simp: in_order_def)
  with starts have set_order: "set order \<subseteq> {i. i < length ps \<and> (\<exists>q. ps ! i = Rec_Lock q)}" by blast
  then have qs: "quantities (map op_of ps) order = map (\<lambda>i. to_record (ps ! i)) order"
    by (intro quantities_to_record [OF assms(2)]) auto
  have "i \<in> set order" if "i < length ps" "ps' ! i = Rec_Returned" for i using o that by (simp add: in_order_def)
  moreover have "\<exists>k. sn = totals (take k (map (\<lambda>i. to_record (ps ! i)) order))" if "Snap_Returned sn \<in> set ps'" for sn
  proof -
    from that have "op_of (Snap_Returned sn) \<in> set (map op_of ps')" by (simp only: set_map imageI)
    with o obtain k where "sn = totals (quantities (map op_of ps) (take k order))" by (auto simp: in_order_def)
    with qs show ?thesis by (auto simp: quantities_take)
  qed
  moreover have "accounts (map (\<lambda>i. to_record (ps ! i)) order) (sh_metrics s') (sh_stats s')" if "\<not> sh_locked s'"
    using o that sim qs by (auto simp: in_order_def simulates_def)
  moreover have "distinct order" using o by (simp add: in_order_def)
  ultimately show ?thesis using set_order by blast
qed

theorem snapshots_are_not_torn_witness:
  "\<exists>ps' s' k order. stats_moves\<^sup>*\<^sup>* (sample_goroutines, new_Stats) (ps', s') \<and> 0 \<in> set order \<and>
     \<lparr>sn_OrdersCount = 1, sn_TotalQuantityReserved = 3\<rparr> = totals (take k (map (\<lambda>i. to_record (sample_goroutines ! i)) order))"
proof -
  obtain ps' s' where run: "stats_moves\<^sup>*\<^sup>* (sample_goroutines, new_Stats) (ps', s')"
    and ps': "ps' = [Rec_Returned, Rec_Lock 4, Snap_Returned \<lparr>sn_OrdersCount = 1, sn_TotalQuantityReserved = 3\<rparr>,
       Scraping [] [(''analytics_orders_recorded_total'', 1), (''analytics_quantity_reserved_total'', 0)]]"
    by (rule sample_stats_moves)
  have start: "list_all not_begun sample_goroutines" by simp
  obtain order where
    "\<forall>i < length sample_goroutines. ps' ! i = Rec_Returned \<longrightarrow> i \<in> set order"
    "\<forall>sn. Snap_Returned sn \<in> set ps' \<longrightarrow> (\<exists>k. sn = totals (take k (map (\<lambda>i. to_record (sample_goroutines ! i)) order)))"
    using snapshots_are_not_torn [OF run start] by blast
  moreover have "0 < length sample_goroutines" "ps' ! 0 = Rec_Returned"
    "Snap_Returned \<lparr>sn_OrdersCount = 1, sn_TotalQuantityReserved = 3\<rparr> \<in> set ps'" by (simp_all add: ps')
  ultimately show ?thesis using run by blast
qed

section \<open>Every call returns\<close>

text \<open>The steps a goroutine has before it at most.\<close>

fun steps_left :: "stats_pc \<Rightarrow> nat" where
  "steps_left (Rec_Lock q) = 9"
| "steps_left (Rec_LoadCount q) = 8"
| "steps_left (Rec_StoreCount q n) = 7"
| "steps_left (Rec_LoadQuantity q) = 6"
| "steps_left (Rec_StoreQuantity q n) = 5"
| "steps_left (Rec_Inc q) = 4"
| "steps_left (Rec_Add q) = 3"
| "steps_left Rec_Unwind = 2"
| "steps_left Rec_Unlock = 1"
| "steps_left Rec_Panicking = 1"
| "steps_left Snap_Lock = 4"
| "steps_left Snap_LoadCount = 3"
| "steps_left (Snap_LoadQuantity n) = 2"
| "steps_left (Snap_Unlock sn) = 1"
| "steps_left (Scraping names seen) = length names"
| "steps_left _ = 0"

lemma step_goes_on: "stats_step p s = Some (p', s') \<Longrightarrow> steps_left p' < steps_left p"
  by (cases "(p, s)" rule: stats_step.cases) (auto split: if_splits option.splits)

lemma sum_list_update_less:
  fixes f :: "'a \<Rightarrow> nat"
  shows "i < length xs \<Longrightarrow> f y < f (xs ! i) \<Longrightarrow> sum_list (map f (xs[i := y])) < sum_list (map f xs)"
  by (induction xs arbitrary: i) (auto simp: nth_Cons split: nat.splits)

lemma moves_go_on: "stats_moves (ps, s) (ps', s') \<Longrightarrow> sum_list (map steps_left ps') < sum_list (map steps_left ps)"
  by (erule stats_movesE) (auto intro!: sum_list_update_less dest: step_goes_on)

lemma moves_bounded:
  "(stats_moves ^^ n) (ps, s) (ps', s') \<Longrightarrow> n + sum_list (map steps_left ps') \<le> sum_list (map steps_left ps)"
proof (induction n arbitrary: ps' s')
  case (Suc n)
  from Suc.prems obtain ps1 s1 where "(stats_moves ^^ n) (ps, s) (ps1, s1)" "stats_moves (ps1, s1) (ps', s')" by auto
  with Suc.IH moves_go_on show ?case by fastforce
qed simp

lemma step_waits: "stats_step p s = None \<Longrightarrow> steps_left p = 0 \<or> sh_locked s \<and> \<not> critical p"
  by (cases "(p, s)" rule: stats_step.cases) (auto split: if_splits option.splits)

text \<open>
  C18. No call waits for ever: any run of goroutines that record, read and scrape ends after at most nine
  steps of each record, four of each read and one for each counter scraped; and where it cannot go on and
  the process is up, every call has returned: nobody is left waiting for the lock.
\<close>

theorem stats_calls_return:
  assumes "(stats_moves ^^ n) (ps, new_Stats) (ps', s')" and "list_all not_begun ps"
  shows "n \<le> sum_list (map steps_left ps) \<and>
    ((\<nexists>st. stats_moves (ps', s') st) \<longrightarrow> sh_up s' \<longrightarrow> (\<forall>p \<in> set ps'. steps_left p = 0))"
proof -
  from assms(1) have run: "stats_moves\<^sup>*\<^sup>* (ps, new_Stats) (ps', s')" by (rule relpowp_imp_rtranclp)
  from run_served [OF run simulates_start [OF assms(2)]] obtain st where sim: "simulates ps' s' st" by blast
  have "steps_left (ps' ! j) = 0" if stuck: "\<nexists>st. stats_moves (ps', s') st" and up: "sh_up s'" and j: "j < length ps'" for j
  proof -
    have stop: "stats_step (ps' ! i) s' = None" if "i < length ps'" for i
    proof (cases "stats_step (ps' ! i) s'")
      case (Some r)
      then have "stats_moves (ps', s') (ps'[i := fst r], snd r)" using that up by (intro stats_moves.moves) simp_all
      with stuck show ?thesis by blast
    qed
    show ?thesis
    proof (cases "sh_locked s'")
      case True
      with sim obtain k where k: "inside_only k ps'" unfolding simulates_def by metis
      then have "k < length ps'" "critical (ps' ! k)" by (simp_all only: inside_only_def)
      with step_waits [OF stop] have "steps_left (ps' ! k) = 0" by blast
      with \<open>critical (ps' ! k)\<close> show ?thesis by (cases "ps' ! k") simp_all
    next
      case False
      with step_waits [OF stop [OF j]] show ?thesis by blast
    qed
  qed
  then show ?thesis using moves_bounded [OF assms(1)] by (auto simp: in_set_conv_nth)
qed

theorem stats_calls_return_witness:
  "\<exists>n ps' s'. (stats_moves ^^ n) (sample_goroutines, new_Stats) (ps', s') \<and> Rec_Returned \<in> set ps' \<and> n \<le> 24"
proof -
  obtain ps' s' where run: "stats_moves\<^sup>*\<^sup>* (sample_goroutines, new_Stats) (ps', s')"
    and "ps' = [Rec_Returned, Rec_Lock 4, Snap_Returned \<lparr>sn_OrdersCount = 1, sn_TotalQuantityReserved = 3\<rparr>,
       Scraping [] [(''analytics_orders_recorded_total'', 1), (''analytics_quantity_reserved_total'', 0)]]"
    by (rule sample_stats_moves)
  moreover from run obtain n where n: "(stats_moves ^^ n) (sample_goroutines, new_Stats) (ps', s')"
    by (auto simp: rtranclp_power)
  moreover from stats_calls_return [OF n] have "n \<le> 24" by simp
  ultimately show ?thesis by (intro exI [of _ n] exI [of _ ps'] exI [of _ s']) simp
qed

text \<open>
  A scrape takes no lock: between \<open>Inc\<close> and \<open>Add\<close> it sees an order without its quantity, which no read of
  \<open>/stats\<close> ever shows.
\<close>

theorem scrape_sees_half_a_record:
  "\<exists>ps' s'. stats_moves\<^sup>*\<^sup>* (sample_goroutines, new_Stats) (ps', s') \<and>
     Scraping [] [(''analytics_orders_recorded_total'', 1), (''analytics_quantity_reserved_total'', 0)] \<in> set ps'"
  by (rule sample_stats_moves) (metis list.set_intros)

end
