(* ===== verification/InventoryLedger.thy ===== *)
theory InventoryLedger
  imports InventoryCache
begin

text \<open>
  The contract of inventory-service's storage without its machinery: a ledger, a pure function on the
  stock. Shown: as long as the database answers and Redis deletes what it is told to delete, the
  caching store over Postgres refines the ledger, result for result.
\<close>

section \<open>The ledger\<close>

fun ledger_op :: "store_op \<Rightarrow> stock \<Rightarrow> (go_error + item) \<times> stock" where
  "ledger_op (Op_Get sku) st =
     (case row st sku of None \<Rightarrow> (Inl Inventory_ErrNotFound, st) | Some it \<Rightarrow> (Inr it, st))"
| "ledger_op (Op_Reserve sku q) st =
     (if 2 ^ 31 \<le> q then (Inl (Wrapped ''reserve stock'' out_of_range), st)
      else case row st sku of
        None \<Rightarrow> (Inl Inventory_ErrNotFound, st)
      | Some it \<Rightarrow>
          if Quantity it < q then (Inl Inventory_ErrInsufficientStock, st)
          else (Inr (it\<lparr>Quantity := Quantity it - q\<rparr>), st(sku \<mapsto> (Name it, Quantity it - q))))"
| "ledger_op (Op_Restock sku q) st =
     (if 2 ^ 31 \<le> q then (Inl (Wrapped ''restock item'' out_of_range), st)
      else case row st sku of
        None \<Rightarrow> (Inl Inventory_ErrNotFound, st)
      | Some it \<Rightarrow>
          if 2 ^ 31 \<le> Quantity it + q then (Inl (Wrapped ''restock item'' out_of_range), st)
          else (Inr (it\<lparr>Quantity := Quantity it + q\<rparr>), st(sku \<mapsto> (Name it, Quantity it + q))))"

definition ledger_ops :: "store_op list \<Rightarrow> stock \<Rightarrow> (store_op \<times> (go_error + item)) list \<times> stock" where
  "ledger_ops = run_ops (\<lambda>sku. ledger_op (Op_Get sku)) (\<lambda>sku q. ledger_op (Op_Reserve sku q))
     (\<lambda>sku q. ledger_op (Op_Restock sku q))"

lemma run_op_ledger: "run_op (\<lambda>sku. ledger_op (Op_Get sku)) (\<lambda>sku q. ledger_op (Op_Reserve sku q))
     (\<lambda>sku q. ledger_op (Op_Restock sku q)) x st = ledger_op x st"
  by (cases x) simp_all

section \<open>Postgres refines the ledger\<close>

lemma pg_refines:
  assumes "script db = []" and "positive_op x" and "stock_ok (tables db)"
  shows "run_op pg_GetItem pg_ReserveStock pg_RestockItem x db =
    (fst (ledger_op x (tables db)), \<lparr>tables = snd (ledger_op x (tables db)), script = []\<rparr>)"
proof (cases x)
  case (Op_Get sku)
  with assms show ?thesis
    by (auto simp: row_def pg_GetItem_def pg_query_calm select_item_def split: option.splits)
next
  case (Op_Reserve sku q)
  show ?thesis
  proof (cases "tables db sku")
    case None
    with Op_Reserve assms show ?thesis
      by (simp add: row_def pg_ReserveStock_def pg_GetItem_def pg_query_calm update_reserve_def select_item_def in_int32_def)
  next
    case (Some nh)
    then obtain n h where there: "tables db sku = Some (n, h)" by (cases nh) auto
    with assms(3) have "0 \<le> h" "h < 2 ^ 31" by (auto simp: stock_ok_def in_int32_def)
    with there Op_Reserve assms show ?thesis
      by (auto simp: row_def pg_ReserveStock_def pg_GetItem_def pg_query_calm update_reserve_def select_item_def
          set_quantity_def in_int32_def)
  qed
next
  case (Op_Restock sku q)
  show ?thesis
  proof (cases "tables db sku")
    case None
    with Op_Restock assms show ?thesis
      by (simp add: row_def pg_RestockItem_def pg_query_calm update_restock_def in_int32_def)
  next
    case (Some nh)
    then obtain n h where there: "tables db sku = Some (n, h)" by (cases nh) auto
    with assms(3) have "0 \<le> h" "h < 2 ^ 31" by (auto simp: stock_ok_def in_int32_def)
    with there Op_Restock assms show ?thesis
      by (auto simp: row_def pg_RestockItem_def pg_query_calm update_restock_def set_quantity_def in_int32_def)
  qed
qed

lemma ledger_stock_ok:
  "stock_ok st \<Longrightarrow> positive_op x \<Longrightarrow> stock_ok (snd (ledger_op x st))"
proof -
  assume st: "stock_ok st" and x: "positive_op x"
  let ?db = "\<lparr>tables = st, script = []\<rparr>"
  from pg_refines [of ?db x] st x have
    r: "run_op pg_GetItem pg_ReserveStock pg_RestockItem x ?db =
      (fst (ledger_op x st), \<lparr>tables = snd (ledger_op x st), script = []\<rparr>)" by simp
  from pgs.run_op_stock(1) [OF r x] st show ?thesis by simp
qed

section \<open>The caching store refines the ledger\<close>

abbreviation cached_op ::
  "'r redis_client \<Rightarrow> store_op \<Rightarrow> (stock pg, 'r) caching \<Rightarrow> (go_error + item) \<times> (stock pg, 'r) caching" where
  "cached_op redis \<equiv> run_op (caching_GetItem redis pg_GetItem) (caching_ReserveStock redis pg_ReserveStock)
     (caching_RestockItem redis pg_RestockItem)"

lemma cached_refines:
  assumes "redis_contract redis view" and "cached_from {tables (cs_next c)} (view (cs_redis c))"
    and "stock_utf8 (tables (cs_next c))" and "script (cs_next c) = []" and "positive_op x" and "stock_ok (tables (cs_next c))"
    and "cached_op redis x c = (res, c')"
  shows "(res, tables (cs_next c')) = ledger_op x (tables (cs_next c)) \<and> script (cs_next c') = []"
proof -
  note pg = pg_refines [OF assms(4-6)]
  show ?thesis
  proof (cases x)
    case (Op_Get sku)
    with assms(7) have g: "caching_GetItem redis pg_GetItem sku c = (res, c')" by simp
    from g show ?thesis
    proof (cases rule: caching_GetItem_cases)
      case (hit cached it)
      from cpg.caching_GetItem_from(2) [OF assms(1,2) _ _ g hit(3)] assms(3)
      have "row (tables (cs_next c)) sku = Some it" by (simp del: row_Some)
      with hit Op_Get assms(4) show ?thesis by (simp del: row_Some)
    next
      case miss
      with pg Op_Get show ?thesis by (auto split: option.splits)
    qed
  next
    case (Op_Reserve sku q)
    with assms(7) pg show ?thesis
      by (auto simp: caching_ReserveStock_def Let_def split: prod.splits sum.splits)
  next
    case (Op_Restock sku q)
    with assms(7) pg show ?thesis
      by (auto simp: caching_RestockItem_def Let_def split: prod.splits sum.splits)
  qed
qed

abbreviation cached_ops ::
  "'r redis_client \<Rightarrow> store_op list \<Rightarrow> (stock pg, 'r) caching \<Rightarrow> (store_op \<times> (go_error + item)) list \<times> (stock pg, 'r) caching" where
  "cached_ops redis \<equiv> run_ops (caching_GetItem redis pg_GetItem) (caching_ReserveStock redis pg_ReserveStock)
     (caching_RestockItem redis pg_RestockItem)"

lemma cached_ops_refine:
  assumes "redis_contract redis view" and "del_works redis view"
    and "cached_from {tables (cs_next c)} (view (cs_redis c))" and "stock_utf8 (tables (cs_next c))"
    and "script (cs_next c) = []" and "list_all positive_op xs" and "stock_ok (tables (cs_next c))"
    and "cached_ops redis xs c = (rs, c')"
  shows "(rs, tables (cs_next c')) = ledger_ops xs (tables (cs_next c))"
  using assms(3-)
proof (induction xs arbitrary: c rs)
  case Nil
  then show ?case by (simp add: ledger_ops_def)
next
  case (Cons x xs)
  obtain r c1 where x: "cached_op redis x c = (r, c1)" by force
  obtain rs1 where xs: "cached_ops redis xs c1 = (rs1, c')" and rs: "rs = (x, r) # rs1"
    using Cons.prems(6) x by (auto split: prod.splits)
  have small: "positive_op x" "list_all positive_op xs" using Cons.prems by simp_all
  have d: "no_lost_reply (cs_next c)" using Cons.prems(3) by (simp add: no_lost_reply_def)
  from cached_refines [OF assms(1) Cons.prems(1-3) small(1) Cons.prems(5) x] have
    R: "(r, tables (cs_next c1)) = ledger_op x (tables (cs_next c))" and sc: "script (cs_next c1) = []" by blast+
  have L: "ledger_op x (tables (cs_next c)) = (r, tables (cs_next c1))" using R by simp
  have ok: "stock_ok (tables (cs_next c1))"
    using ledger_stock_ok [OF Cons.prems(5) small(1)] L by simp
  have co: "cached_from {tables (cs_next c1)} (view (cs_redis c1))"
    by (rule cpg.coherent_run_op [OF assms(1,2) d Cons.prems(1,2) x])
  have u: "stock_utf8 (tables (cs_next c1))"
    using cpg.cached_run_op(2) [OF assms(1) Cons.prems(1) _ _ x] Cons.prems(2) by simp
  have "ledger_ops xs (tables (cs_next c1)) = (rs1, tables (cs_next c'))"
    using Cons.IH [OF co u sc small(2) ok xs] by simp
  with L rs show ?case by (simp add: ledger_ops_def run_op_ledger)
qed

text \<open>
  C23. Refinement: while Postgres answers and deletions reach Redis, a caching store that starts coherent
  behaves, over any sequence of calls with positive quantities, which is what the handlers let through,
  exactly as the ledger: every call returns what the ledger returns, errors included, those of
  quantities that do not fit the column too, and the table ends as the ledger's stock; the cache never
  shows. The table starts within its column's bounds and its text is valid UTF-8, as Postgres keeps it.
\<close>

theorem cached_store_refines_ledger:
  assumes "redis_contract redis view" and "del_works redis view"
    and "cached_from {tables (cs_next c)} (view (cs_redis c))" and "stock_utf8 (tables (cs_next c))"
    and "script (cs_next c) = []" and "list_all positive_op xs" and "stock_ok (tables (cs_next c))"
  shows "(let (rs, c') = cached_ops redis xs c in (rs, tables (cs_next c'))) = ledger_ops xs (tables (cs_next c))"
  using cached_ops_refine [OF assms] by (auto simp: Let_def split: prod.splits)

theorem cached_store_refines_ledger_witness:
  "(let (rs, c') = cached_ops map_redis [Op_Get ''A'', Op_Reserve ''A'' 4, Op_Get ''A'', Op_Reserve ''A'' 7, Op_Restock ''B'' 1] (sample [])
    in (rs, tables (cs_next c'))) =
   ([(Op_Get ''A'', Inr \<lparr>SKU = ''A'', Name = ''a'', Quantity = 10\<rparr>),
     (Op_Reserve ''A'' 4, Inr \<lparr>SKU = ''A'', Name = ''a'', Quantity = 6\<rparr>),
     (Op_Get ''A'', Inr \<lparr>SKU = ''A'', Name = ''a'', Quantity = 6\<rparr>),
     (Op_Reserve ''A'' 7, Inl Inventory_ErrInsufficientStock), (Op_Restock ''B'' 1, Inl Inventory_ErrNotFound)],
    [''A'' \<mapsto> (''a'', 6)])"
  by (subst cached_store_refines_ledger [OF redis_contract_maps(1,2) _ sample_ok(2) _ _ sample_ok(1)])
    (simp_all add: ledger_ops_def row_def)

end
