(* ===== verification/Spec2Isabelle.thy ===== *)
theory Spec2Isabelle
  imports EndToEnd StatsLock InventoryLedger
begin

text \<open>
  \<^bold>\<open>go-event-platform\<close>: an API gateway, an order service that reserves stock from an inventory service
  over gRPC and publishes events through a transactional outbox, and two consumers of those events.

  \<^bold>\<open>The parts and how they interact.\<close> A client talks REST to api-gateway, which proxies \<open>/orders\<close> to
  order-service, \<open>/items\<close> to inventory-service and \<open>/stats\<close> to analytics-service. \<open>POST /orders\<close> makes
  order-service call \<open>ReserveStock\<close> of inventory-service, with retries, and then write the order and an
  outbox row in one transaction of its own database. The outbox relay, a goroutine of order-service,
  polls the outbox, publishes each row to NATS JetStream under an id derived from the row's, and marks
  it. analytics-service and notification-service receive the stream through durable consumers.
  inventory-service keeps the items in Postgres behind a Redis cache. Every service logs and counts
  its requests, loads its configuration from the environment, and shuts down on a signal.

  \<^bold>\<open>Libraries of the language\<close> (what the source uses of them):
  \<^item> \<open>Prelude\<close>: errors and \<open>errors.Is\<close>, gRPC codes, effects (log lines, counters), the wrap-around of
    \<open>int32\<close> and \<open>int64\<close>, and scripts of round trips: each call out of a process works, is lost before it
    takes effect, or takes effect and its reply is lost.
  \<^item> \<open>GoStrconv\<close>, \<open>GoString\<close>, \<open>GoJson\<close>, \<open>GoTime\<close>: decimal text, UTF-8 and JSON strings, \<open>Marshal\<close> and
    \<open>Decode\<close> with their round trips and the types of what is decoded, RFC 3339 times.
  \<^item> \<open>GoHttp\<close>: response writers, \<open>ServeMux\<close> with its patterns. \<open>Postgres\<close>: statements and transactions.

  \<^bold>\<open>Components\<close>, each theory with its source under \<open>src/\<close>:
  \<^item> \<open>HttpX\<close>: \<open>httpx\<close> and \<open>metrics/http.go\<close> of every service; \<open>WriteJSON\<close>, \<open>WriteError\<close>, the status recorder
    and both middlewares. Shown: what is logged and counted is what was sent.
  \<^item> \<open>Retry\<close>: \<open>order-service/internal/retry\<close>; \<open>Do\<close>, \<open>backoffDelay\<close>. Shown: termination, the number of
    calls, that no wait is longer than \<open>MaxDelay\<close>, the schedule's bounds with and without overflow.
  \<^item> \<open>InventoryStore\<close>: \<open>inventory/store.go\<close>, \<open>model.go\<close>, the schema; locale \<open>inventory_store\<close> is the Go
    interface \<open>Store\<close> with its laws. \<open>InventoryCache\<close>: \<open>caching_store.go\<close>, sequential (\<open>caching_GetItem\<close> and
    the others) and cut at its calls for interleavings (\<open>caching_step\<close>, \<open>interleave\<close>). Shown: no
    overselling, the ledger, that every answer was a row of the table, also when requests interleave, and the
    limits of freshness. \<open>InventoryLedger\<close>: the abstract ledger and the
    refinement of it by the cached store.
  \<^item> \<open>InventoryServer\<close>: \<open>handler.go\<close>, \<open>grpc_server.go\<close>, \<open>metrics/grpc.go\<close>, the generated dispatcher; the
    status or code of every answer as a function of the request and of what the database did.
  \<^item> \<open>InventoryClient\<close>: \<open>order-service/internal/inventoryclient\<close>; \<open>Client_Reserve\<close> over a connection. The
    Go interface \<open>InventoryReserver\<close> is the locale \<open>inventory_reserver\<close>, a sublocale of every store. Shown: when a
    reservation takes its units once, how often it can take them at all, and its retry budget.
  \<^item> \<open>OrderStore\<close>: \<open>order/store.go\<close>, \<open>outbox/store.go\<close>, the schema; locales \<open>order_store\<close>, \<open>event_store\<close>.
    \<open>OrderEvents\<close>: \<open>internal/events\<close>; the event, the header carrier, \<open>Publish\<close>, the stream.
    \<open>OutboxRelay\<close>: \<open>outbox/relay.go\<close>; locales \<open>publisher\<close>, \<open>relay\<close>. Shown: at least once, exactly once
    while the broker deduplicates, progress.
  \<^item> \<open>OrderHandler\<close>: \<open>order/handler.go\<close> and the server of order-service's \<open>main.go\<close>; locale
    \<open>order_service\<close> joins the reserver and the store. Shown: every answer of both endpoints, and
    the event behind every 201.
  \<^item> \<open>Consumers\<close>: \<open>events/subscriber.go\<close>, \<open>analytics/stats.go\<close>, \<open>analytics/handler.go\<close>, the handlers of both
    consumers; locale \<open>event_consumer\<close>. Shown: the totals, what is acknowledged, and the round trip of
    an event with its trace.
  \<^item> \<open>Gateway\<close>: \<open>api-gateway/internal/proxy\<close> and its routes. Shown: transparency, 502, and that each
    proxied request is answered by its own handler of its own service (\<open>services\<close>).
  \<^item> \<open>Startup\<close>: \<open>internal/config\<close>, \<open>tlsconfig\<close>, \<open>db.go\<close>, \<open>redis.go\<close>, \<open>tracing.go\<close> and the other constructors.
    \<open>Lifecycle\<close>: the five \<open>main.go\<close> as scripts of steps run beside their goroutines, with signals and
    failures in any order. Shown: what is open, what runs, exit codes, failures while starting,
    mutual TLS on both ends of gRPC. \<open>grpc.NewServer\<close> is a step with its options; the other infallible
    constructors, loggers and the wiring of the muxes are not; the servers they build are
    \<open>order_http\<close>, \<open>inventory_http\<close>, \<open>gateway_http\<close>, \<open>analytics_http\<close>, \<open>notification_http\<close>.
  \<^item> \<open>Platform\<close>: all of it together, as runs of client visits, relay polls and deliveries over one state
    (\<open>platform\<close>), with one invariant (\<open>platform_inv\<close>). Shown: no overselling end to end, events and
    orders in one-to-one correspondence, totals that catch up.
  \<^item> \<open>Concurrency\<close>: order-service's requests and relays and inventory-service's store calls cut at their calls
    (\<open>request_step\<close>, \<open>place_call\<close>, \<open>caching_step\<close>, \<open>relay_step\<close>) and run side by side, with deaths at any point,
    attempts that outlive their caller and uncommitted writes (\<open>concurrent\<close>). Shown: the interleavings contain
    \<open>createOrder\<close> and \<open>publishPending\<close>. \<open>SideBySide\<close>: what holds of all of them. Shown: no overselling, what is
    answered is stored, announced, notified and counted, several relays publish once.
    \<open>EndToEnd\<close>: the deliveries to both consumers beside all that (\<open>goes_on\<close>). Shown: at every moment only stored
    orders are confirmed, once where acknowledgements arrive, and \<open>/stats\<close> shows stored orders only.
  \<^item> \<open>StatsLock\<close>: \<open>Record\<close>, \<open>Snapshot\<close> and scrapes cut at their accesses to memory, with the mutex (\<open>stats_step\<close>).
    Shown: the calls are atomic in an order that keeps each between its start and its return, snapshots are not
    torn, every call returns.
  \<^item> \<open>Copies\<close>: the packages services carry copies of, each copy on its own; locale \<open>http_package\<close>. Shown: every
    service reports what it sent, and the copies are the functions of the other theories.
  \<^item> \<open>Metrics\<close>: the metrics every service declares; locale \<open>metered\<close>. Shown: every metric call fits its declaration
    and only a negative \<open>Add\<close> panics, the counters agree with the answers, which labels are bounded.

  \<^bold>\<open>State and failures.\<close> A service's state is a record passed explicitly; a database is its tables and a
  script of outcomes (\<open>pg\<close>), a connection its remote state and a script (\<open>remote\<close>, \<open>gateway_world\<close>), the
  broker its stream, the ids it remembers and a script (\<open>broker\<close>). The theorems are about all scripts; an
  exhausted script means no more failures. Errors are values of \<open>go_error\<close>, results \<open>go_error + 'a\<close>.

  \<^bold>\<open>Bounds and fuel.\<close> \<open>parse_value\<close> recurses at most twice the length of its input plus two, and a larger
  bound gives the same result (\<open>parse_value_fuel\<close>). \<open>Do_loop\<close> terminates by its remaining attempts,
  \<open>relay_Run\<close> by the number of ticks before the context ends, deliveries and moves are finite lists.

  \<^bold>\<open>Parameters\<close>: any Redis client, JetStream server, tracing library, jitter, clock and UUID source;
  theorems name what they need of them (\<open>redis_contract\<close>, \<open>del_works\<close>, \<open>jsonb_faithful\<close>, \<open>w3c\<close>, \<open>fair_env\<close>,
  \<open>window_holds\<close>, \<open>unavailable_never_ran\<close>), each witnessed by a concrete instance.

  \<^bold>\<open>Simplifications.\<close> Processes run in UTC. Text parameters with NUL or invalid UTF-8, which Postgres
  rejects, are not told apart. \<open>published_at\<close> is null or not. Paths are clean and without percent
  escapes; the body of an answer to HEAD is not dropped. A panic in a handler is an empty answer, and the
  middleware records it as one; under \<open>fair_env\<close> there is none. The log lines and counters of a server
  behind a gRPC connection or behind the gateway are not those of its caller's and are left out there.
  Float rounding in Prometheus counters is left out. JetStream may deliver any unacknowledged message at
  any time and without limit. In \<open>Platform\<close> a request is one step; \<open>Concurrency\<close> cuts requests at their
  calls. Identity columns draw their values when a row is inserted, so the ids of an outbox need not be in
  the order of the commits.

  \<^bold>\<open>Not modelled\<close>: the protobuf wire format and reflection of the generated code, X.509 and the TLS
  handshake, exporters and samplers of the tracing library, the Prometheus text format, the static page,
  deployment files, load and integration tests.
\<close>

end
